(* ===== verification/Sqlite_Prelude.thy ===== *)
theory Sqlite_Prelude
  imports Main "HOL-Library.Word" "HOL-Library.Multiset"
begin

unbundle bit_operations_syntax

section \<open>Shared vocabulary of the SQLite development\<close>

text \<open>
  The names of the C integer types (\<open>typedef UINT8_TYPE u8\<close> and its companions), a memory block as a
  list of bytes, and the lemmas on words, bits and byte blocks that the component theories share.
  The collection \<open>byte_simps\<close> rewrites the lookup of one byte in a block that was built up by
  appending; \<open>word_unat\<close> reads word operations as operations on natural numbers.
\<close>

named_theorems byte_simps "the byte at an offset of a composed block"
named_theorems word_unat "word operations as operations on natural numbers"

type_synonym u8 = "8 word"
type_synonym u16 = "16 word"
type_synonym u32 = "32 word"
type_synonym u64 = "64 word"
type_synonym i64 = "64 word"
type_synonym bytes = "u8 list"

definition byte_at :: "bytes \<Rightarrow> nat \<Rightarrow> u8" where
  "byte_at p i = (if i < length p then p ! i else 0)"

lemma byte_at_append [byte_simps]: "byte_at (xs @ ys) i = (if i < length xs then byte_at xs i else byte_at ys (i - length xs))"
  by (auto simp: byte_at_def nth_append)

lemma byte_at_Cons [byte_simps]: "byte_at (x # xs) i = (if i = 0 then x else byte_at xs (i - 1))"
  by (auto simp: byte_at_def nth_Cons')

lemma byte_at_drop [simp]: "byte_at (drop p z) k = byte_at z (p + k)"
  by (auto simp: byte_at_def)

lemma unat_drop_bit [word_unat]: "unat (drop_bit n (v :: 'a::len word)) = unat v div 2 ^ n"
  unfolding unat_drop_bit_eq by (simp add: drop_bit_eq_div)

lemma drop_bit_0_iff: "drop_bit n (v :: 'a::len word) = 0 \<longleftrightarrow> unat v < 2 ^ n"
  by (metis div_eq_0_iff power_eq_0_iff unat_drop_bit unat_eq_zero zero_neq_numeral)

lemma drop_bit_less:
  assumes "0 < n" "drop_bit n (v :: 'a::len word) \<noteq> 0"
  shows "unat (drop_bit n v) < unat v"
proof -
  have "v \<noteq> 0" using assms(2) by auto
  then have "0 < unat v" by (simp add: unat_gt_0)
  moreover have "1 < (2::nat) ^ n" using assms(1) by (intro one_less_power) auto
  ultimately show ?thesis by (simp add: unat_drop_bit)
qed

lemma unat_u8: "unat (b :: u8) < 256"
  using unsigned_less [of b] by simp

lemma bit8_ge: "8 \<le> n \<Longrightarrow> bit (b :: u8) n = False"
  using bit_imp_le_length [of b n] by auto

lemma bit8_hi: "\<not> bit (b :: u8) 7 \<Longrightarrow> bit b (7 + j) = False"
  using bit8_ge [of "7 + j" b] by (cases "j = 0") auto

lemma sint_nonneg_u8: "(0 \<le> sint (b :: u8)) = (\<not> bit b 7)"
  using bit_last_iff [of b] by simp linarith

lemma mask7: "(0x7f :: 8 word) = mask 7" "(0x7f :: 32 word) = mask 7" "(0x7f :: 64 word) = mask 7"
  by (simp_all add: mask_numeral)

lemma bit8D: "bit (b :: u8) n \<Longrightarrow> n < 8"
  using bit_imp_le_length [of b n] by simp

lemma low7: "\<not> bit (p::u8) 7 \<Longrightarrow> p AND mask 7 = p"
proof (rule bit_word_eqI)
  fix n assume "\<not> bit p 7" and "n < LENGTH(8)"
  then show "bit (p AND mask 7) n = bit p n" by (cases "n = 7") (auto simp: bit_simps)
qed

text \<open>Bitwise equality of 64-bit words, one group of bits at a time.\<close>

lemma nat_cut:
  fixes P :: "nat \<Rightarrow> bool"
  assumes "b + w \<le> n \<Longrightarrow> P n" "\<And>j. j < w \<Longrightarrow> P (b + j)" "b \<le> n"
  shows "P n"
  using assms(2) [of "n - b"] assms(1,3) by (cases "n < b + w") auto

lemma word64_eqI7:
  assumes "\<And>j. j < 7 \<Longrightarrow> bit x j = bit y j" "\<And>j. j < 7 \<Longrightarrow> bit x (7 + j) = bit y (7 + j)"
    "\<And>j. j < 7 \<Longrightarrow> bit x (14 + j) = bit y (14 + j)" "\<And>j. j < 7 \<Longrightarrow> bit x (21 + j) = bit y (21 + j)"
    "\<And>j. j < 4 \<Longrightarrow> bit x (28 + j) = bit y (28 + j)" "\<And>j. j < 3 \<Longrightarrow> bit x (32 + j) = bit y (32 + j)"
    "\<And>j. j < 7 \<Longrightarrow> bit x (35 + j) = bit y (35 + j)" "\<And>j. j < 7 \<Longrightarrow> bit x (42 + j) = bit y (42 + j)"
    "\<And>j. j < 7 \<Longrightarrow> bit x (49 + j) = bit y (49 + j)" "\<And>j. j < 7 \<Longrightarrow> bit x (56 + j) = bit y (56 + j)"
    "bit x 63 = bit y 63"
  shows "x = (y :: u64)"
proof (rule bit_word_eqI)
  fix n assume "n < LENGTH(64)"
  then have n: "n < 64" by simp
  show "bit x n = bit y n"
    apply (rule nat_cut [where b = 0 and w = 7 and n = n and P = "\<lambda>n. bit x n = bit y n"])
    apply (rule nat_cut [where b = 7 and w = 7 and n = n and P = "\<lambda>n. bit x n = bit y n"])
    apply (rule nat_cut [where b = 14 and w = 7 and n = n and P = "\<lambda>n. bit x n = bit y n"])
    apply (rule nat_cut [where b = 21 and w = 7 and n = n and P = "\<lambda>n. bit x n = bit y n"])
    apply (rule nat_cut [where b = 28 and w = 4 and n = n and P = "\<lambda>n. bit x n = bit y n"])
    apply (rule nat_cut [where b = 32 and w = 3 and n = n and P = "\<lambda>n. bit x n = bit y n"])
    apply (rule nat_cut [where b = 35 and w = 7 and n = n and P = "\<lambda>n. bit x n = bit y n"])
    apply (rule nat_cut [where b = 42 and w = 7 and n = n and P = "\<lambda>n. bit x n = bit y n"])
    apply (rule nat_cut [where b = 49 and w = 7 and n = n and P = "\<lambda>n. bit x n = bit y n"])
    apply (rule nat_cut [where b = 56 and w = 7 and n = n and P = "\<lambda>n. bit x n = bit y n"])
    apply (rule nat_cut [where b = 63 and w = 1 and n = n and P = "\<lambda>n. bit x n = bit y n"])
    using n assms by simp_all
qed

lemma word64_eqI8:
  assumes "\<And>j. j < 8 \<Longrightarrow> bit x j = bit y j" "\<And>j. j < 7 \<Longrightarrow> bit x (8 + j) = bit y (8 + j)"
    "\<And>j. j < 7 \<Longrightarrow> bit x (15 + j) = bit y (15 + j)" "\<And>j. j < 7 \<Longrightarrow> bit x (22 + j) = bit y (22 + j)"
    "\<And>j. j < 3 \<Longrightarrow> bit x (29 + j) = bit y (29 + j)" "\<And>j. j < 4 \<Longrightarrow> bit x (32 + j) = bit y (32 + j)"
    "\<And>j. j < 7 \<Longrightarrow> bit x (36 + j) = bit y (36 + j)" "\<And>j. j < 7 \<Longrightarrow> bit x (43 + j) = bit y (43 + j)"
    "\<And>j. j < 7 \<Longrightarrow> bit x (50 + j) = bit y (50 + j)" "\<And>j. j < 7 \<Longrightarrow> bit x (57 + j) = bit y (57 + j)"
  shows "x = (y :: u64)"
proof (rule bit_word_eqI)
  fix n assume "n < LENGTH(64)"
  then have n: "n < 64" by simp
  show "bit x n = bit y n"
    apply (rule nat_cut [where b = 0 and w = 8 and n = n and P = "\<lambda>n. bit x n = bit y n"])
    apply (rule nat_cut [where b = 8 and w = 7 and n = n and P = "\<lambda>n. bit x n = bit y n"])
    apply (rule nat_cut [where b = 15 and w = 7 and n = n and P = "\<lambda>n. bit x n = bit y n"])
    apply (rule nat_cut [where b = 22 and w = 7 and n = n and P = "\<lambda>n. bit x n = bit y n"])
    apply (rule nat_cut [where b = 29 and w = 3 and n = n and P = "\<lambda>n. bit x n = bit y n"])
    apply (rule nat_cut [where b = 32 and w = 4 and n = n and P = "\<lambda>n. bit x n = bit y n"])
    apply (rule nat_cut [where b = 36 and w = 7 and n = n and P = "\<lambda>n. bit x n = bit y n"])
    apply (rule nat_cut [where b = 43 and w = 7 and n = n and P = "\<lambda>n. bit x n = bit y n"])
    apply (rule nat_cut [where b = 50 and w = 7 and n = n and P = "\<lambda>n. bit x n = bit y n"])
    apply (rule nat_cut [where b = 57 and w = 7 and n = n and P = "\<lambda>n. bit x n = bit y n"])
    using n assms by simp_all
qed

lemma word32_eqI7:
  assumes "\<And>j. j < 7 \<Longrightarrow> bit x j = bit y j" "\<And>j. j < 7 \<Longrightarrow> bit x (7 + j) = bit y (7 + j)"
    "\<And>j. j < 7 \<Longrightarrow> bit x (14 + j) = bit y (14 + j)" "\<And>j. j < 7 \<Longrightarrow> bit x (21 + j) = bit y (21 + j)"
    "\<And>j. j < 4 \<Longrightarrow> bit x (28 + j) = bit y (28 + j)"
  shows "x = (y :: u32)"
proof (rule bit_word_eqI)
  fix n assume "n < LENGTH(32)"
  then have n: "n < 32" by simp
  show "bit x n = bit y n"
    apply (rule nat_cut [where b = 0 and w = 7 and n = n and P = "\<lambda>n. bit x n = bit y n"])
    apply (rule nat_cut [where b = 7 and w = 7 and n = n and P = "\<lambda>n. bit x n = bit y n"])
    apply (rule nat_cut [where b = 14 and w = 7 and n = n and P = "\<lambda>n. bit x n = bit y n"])
    apply (rule nat_cut [where b = 21 and w = 7 and n = n and P = "\<lambda>n. bit x n = bit y n"])
    apply (rule nat_cut [where b = 28 and w = 4 and n = n and P = "\<lambda>n. bit x n = bit y n"])
    using n assms by simp_all
qed

lemma u8_less_80: "(b :: u8) < 0x80 \<longleftrightarrow> \<not> bit b 7"
proof -
  have "b < 0x80 \<longleftrightarrow> drop_bit 7 b = 0" by (simp add: drop_bit_0_iff word_less_nat_alt)
  also have "\<dots> \<longleftrightarrow> \<not> bit b 7"
  proof
    assume "drop_bit 7 b = 0"
    then have "bit (drop_bit 7 b) 0 = False" by simp
    then show "\<not> bit b 7" by (simp add: bit_drop_bit_eq)
  next
    assume "\<not> bit b 7"
    then show "drop_bit 7 b = 0" by (intro bit_word_eqI) (simp add: bit_drop_bit_eq bit8_hi)
  qed
  finally show ?thesis .
qed

end
