(* ===== verification/Key_Set.thy ===== *)
theory Key_Set
  imports Main
begin

section \<open>The interface of a set of keys\<close>

text \<open>
  What the callers of \<open>Bitvec\<close> and \<open>RowSet\<close> rely on: a valid set admits some keys, and adding an
  admitted key, when it succeeds, keeps the set valid and inserts exactly that key. The clients add
  keys one after the other; their lemmas are proved here once.
\<close>

definition add_all :: "('s \<Rightarrow> 'k \<Rightarrow> 's option) \<Rightarrow> 'k list \<Rightarrow> 's \<Rightarrow> 's option" where
  "add_all add ks s = fold (\<lambda>k r. case r of None \<Rightarrow> None | Some s \<Rightarrow> add s k) ks (Some s)"

lemma add_all_simps [simp]:
  "add_all add [] s = Some s"
  "add_all add (k # ks) s = (case add s k of None \<Rightarrow> None | Some s' \<Rightarrow> add_all add ks s')"
proof -
  have "fold (\<lambda>k r. case r of None \<Rightarrow> None | Some s \<Rightarrow> add s k) ks None = None" by (induction ks) auto
  then show "add_all add (k # ks) s = (case add s k of None \<Rightarrow> None | Some s' \<Rightarrow> add_all add ks s')"
    by (cases "add s k") (simp_all add: add_all_def)
qed (simp add: add_all_def)

locale key_set =
  fixes valid :: "'s \<Rightarrow> bool" and admits :: "'s \<Rightarrow> 'k \<Rightarrow> bool" and elems :: "'s \<Rightarrow> 'k set"
    and add :: "'s \<Rightarrow> 'k \<Rightarrow> 's option"
  assumes add_valid: "valid s \<Longrightarrow> admits s k \<Longrightarrow> add s k = Some s' \<Longrightarrow> valid s'"
    and add_admits: "valid s \<Longrightarrow> admits s k \<Longrightarrow> add s k = Some s' \<Longrightarrow> admits s' j = admits s j"
    and add_elems: "valid s \<Longrightarrow> admits s k \<Longrightarrow> add s k = Some s' \<Longrightarrow> elems s' = insert k (elems s)"
begin

lemma add_all_elems:
  "valid s \<Longrightarrow> list_all (admits s) ks \<Longrightarrow> add_all add ks s = Some s' \<Longrightarrow> valid s' \<and> elems s' = set ks \<union> elems s"
proof (induction ks arbitrary: s)
  case (Cons k ks)
  then obtain t where t: "add s k = Some t" "add_all add ks t = Some s'" by (auto split: option.splits)
  have "admits s k" using Cons.prems by simp
  note laws = add_valid [OF Cons.prems(1) this t(1)] add_elems [OF Cons.prems(1) this t(1)]
    add_admits [OF Cons.prems(1) this t(1)]
  have "admits t = admits s" using laws(3) by auto
  then show ?case using Cons.IH [OF laws(1) _ t(2)] Cons.prems(2) laws(2) by auto
qed simp

lemma add_all_order:
  assumes "valid s" "list_all (admits s) ks" "set ks = set js"
    "add_all add ks s = Some t" "add_all add js s = Some u"
  shows "elems t = elems u"
proof -
  have "list_all (admits s) js" using assms(2,3) by (simp add: list_all_iff)
  then show ?thesis using add_all_elems [OF assms(1,2,4)] add_all_elems [OF assms(1) _ assms(5)] assms(3) by auto
qed

end

text \<open>A set whose insertions never fail.\<close>

locale total_key_set = key_set +
  assumes add_total: "valid s \<Longrightarrow> admits s k \<Longrightarrow> add s k \<noteq> None"
begin

lemma add_all_total: "valid s \<Longrightarrow> list_all (admits s) ks \<Longrightarrow> \<exists>s'. add_all add ks s = Some s' \<and> valid s' \<and> elems s' = set ks \<union> elems s"
proof (induction ks arbitrary: s)
  case (Cons k ks)
  then have k: "admits s k" by simp
  then obtain t where t: "add s k = Some t" using add_total [OF Cons.prems(1) k] by auto
  have "admits t = admits s" using add_admits [OF Cons.prems(1) k t] by auto
  then show ?case using Cons.IH [OF add_valid [OF Cons.prems(1) k t]] add_elems [OF Cons.prems(1) k t] Cons.prems(2) t
    by auto
qed simp

end

end
