(* ===== verification/Varint.thy ===== *)
theory Varint
  imports Sqlite_Prelude
begin

section \<open>Variable-length integers (util.c)\<close>

text \<open>
  The 1 to 9 byte integers of the SQLite file format: the writer \<open>sqlite3PutVarint\<close>, the
  unrolled readers \<open>sqlite3GetVarint\<close> and \<open>sqlite3GetVarint32\<close>, and \<open>sqlite3VarintLen\<close>.
  A reader takes the memory at its pointer and returns the number of bytes read and the value;
  a writer returns the bytes it stores, whose count is the C return value.
\<close>

subsection \<open>Writing\<close>

text \<open>The \<open>do ... while( v!=0 )\<close> loop of \<open>putVarint64\<close>, filling \<open>buf\<close>.\<close>

function putVarint64_loop :: "u64 \<Rightarrow> bytes \<Rightarrow> bytes" where
  "putVarint64_loop v buf =
     (let buf' = buf @ [ucast (v AND 0x7f) OR 0x80]; v' = drop_bit 7 v
      in if v' \<noteq> 0 then putVarint64_loop v' buf' else buf')"
  by pat_completeness auto
termination
  by (relation "measure (\<lambda>(v, _). unat v)") (auto intro: drop_bit_less)

declare putVarint64_loop.simps [simp del]

text \<open>The \<open>for(i=7; i>=0; i--)\<close> loop of the nine-byte form: the byte written at \<open>p[i]\<close>.\<close>

primrec putVarint64_high :: "nat \<Rightarrow> u64 \<Rightarrow> bytes" where
  "putVarint64_high 0 v = []"
| "putVarint64_high (Suc i) v =
     putVarint64_high i (drop_bit 7 v) @ [ucast (v AND 0x7f) OR 0x80]"

definition putVarint64 :: "u64 \<Rightarrow> bytes" where
  "putVarint64 v =
     (if v AND push_bit 32 0xff000000 \<noteq> 0 then
        (let p8 = ucast v; v = drop_bit 8 v in putVarint64_high 8 v @ [p8])
      else
        (let buf = putVarint64_loop v []; buf = buf[0 := byte_at buf 0 AND 0x7f]
         in rev buf))"

definition sqlite3PutVarint :: "u64 \<Rightarrow> bytes" where
  "sqlite3PutVarint v =
     (if v \<le> 0x7f then [ucast (v AND 0x7f)]
      else if v \<le> 0x3fff then [ucast ((drop_bit 7 v AND 0x7f) OR 0x80), ucast (v AND 0x7f)]
      else putVarint64 v)"

subsection \<open>Reading\<close>

definition SLOT_2_0 :: u32 where "SLOT_2_0 = 0x001fc07f"
definition SLOT_4_2_0 :: u32 where "SLOT_4_2_0 = 0xf01fc07f"

definition sqlite3GetVarint :: "bytes \<Rightarrow> nat \<times> u64" where
  "sqlite3GetVarint p =
    (let q = (\<lambda>i. ucast (byte_at p i) :: u32) in
     if 0 \<le> sint (byte_at p 0) then (1, ucast (byte_at p 0))
     else if 0 \<le> sint (byte_at p 1) then (2, ucast (push_bit 7 (ucast (byte_at p 0 AND 0x7f)) OR q 1))
     else
     let a = push_bit 14 (q 0); b = q 1; a = a OR q 2 in
     if a AND 0x80 = 0 then
       (let a = a AND SLOT_2_0; b = b AND 0x7f; b = push_bit 7 b; a = a OR b in (3, ucast a))
     else
     let a = a AND SLOT_2_0; b = push_bit 14 b; b = b OR q 3 in
     if b AND 0x80 = 0 then
       (let b = b AND SLOT_2_0; a = push_bit 7 a; a = a OR b in (4, ucast a))
     else
     let b = b AND SLOT_2_0; s = a; a = push_bit 14 a; a = a OR q 4 in
     if a AND 0x80 = 0 then
       (let b = push_bit 7 b; a = a OR b; s = drop_bit 18 s in
        (5, push_bit 32 (ucast s) OR ucast a))
     else
     let s = push_bit 7 s; s = s OR b; b = push_bit 14 b; b = b OR q 5 in
     if b AND 0x80 = 0 then
       (let a = a AND SLOT_2_0; a = push_bit 7 a; a = a OR b; s = drop_bit 18 s in
        (6, push_bit 32 (ucast s) OR ucast a))
     else
     let a = push_bit 14 a; a = a OR q 6 in
     if a AND 0x80 = 0 then
       (let a = a AND SLOT_4_2_0; b = b AND SLOT_2_0; b = push_bit 7 b; a = a OR b; s = drop_bit 11 s in
        (7, push_bit 32 (ucast s) OR ucast a))
     else
     let a = a AND SLOT_2_0; b = push_bit 14 b; b = b OR q 7 in
     if b AND 0x80 = 0 then
       (let b = b AND SLOT_4_2_0; a = push_bit 7 a; a = a OR b; s = drop_bit 4 s in
        (8, push_bit 32 (ucast s) OR ucast a))
     else
     let a = push_bit 15 a; a = a OR q 8; b = b AND SLOT_2_0; b = push_bit 8 b; a = a OR b;
         s = push_bit 4 s; b = q 4; b = b AND 0x7f; b = drop_bit 3 b; s = s OR b in
     (9, push_bit 32 (ucast s) OR ucast a))"

definition sqlite3GetVarint32 :: "bytes \<Rightarrow> nat \<times> u32" where
  "sqlite3GetVarint32 p =
    (let q = (\<lambda>i. ucast (byte_at p i) :: u32) in
     if byte_at p 1 AND 0x80 = 0 then (2, push_bit 7 (q 0 AND 0x7f) OR q 1)
     else if byte_at p 2 AND 0x80 = 0 then
       (3, push_bit 14 (q 0 AND 0x7f) OR push_bit 7 (q 1 AND 0x7f) OR q 2)
     else
       (let (n, v64) = sqlite3GetVarint p in
        if v64 AND 0xffffffff \<noteq> v64 then (n, 0xffffffff) else (n, ucast v64)))"

text \<open>The macro \<open>getVarint32\<close> inlines the one-byte case.\<close>

definition getVarint32 :: "bytes \<Rightarrow> nat \<times> u32" where
  "getVarint32 p = (if byte_at p 0 < 0x80 then (1, ucast (byte_at p 0)) else sqlite3GetVarint32 p)"

function sqlite3VarintLen_loop :: "u64 \<Rightarrow> nat \<Rightarrow> nat" where
  "sqlite3VarintLen_loop v i =
     (let v' = drop_bit 7 v in if v' \<noteq> 0 then sqlite3VarintLen_loop v' (i + 1) else i)"
  by pat_completeness auto
termination
  by (relation "measure (\<lambda>(v, _). unat v)") (auto intro: drop_bit_less)

declare sqlite3VarintLen_loop.simps [simp del]

definition sqlite3VarintLen :: "u64 \<Rightarrow> nat" where
  "sqlite3VarintLen v = sqlite3VarintLen_loop v 1"

subsection \<open>The reference reader\<close>

text \<open>The format description of the source comment, one byte per step: at most eight bytes of
  7 bits with the flag bit, and a ninth byte of 8 bits.\<close>

function varint_ref :: "bytes \<Rightarrow> nat \<Rightarrow> u64 \<Rightarrow> nat \<times> u64" where
  "varint_ref p i acc =
     (if 8 \<le> i then (i + 1, push_bit 8 acc OR ucast (byte_at p i))
      else if bit (byte_at p i) 7 then varint_ref p (i + 1) (push_bit 7 acc OR ucast (byte_at p i AND mask 7))
      else (i + 1, push_bit 7 acc OR ucast (byte_at p i)))"
  by pat_completeness auto
termination by (relation "measure (\<lambda>(_, i, _). 8 - i)") auto

declare varint_ref.simps [simp del]

lemma and_80: "((w :: u32) AND 0x80 = 0) = (\<not> bit w 7)" "((b :: u8) AND 0x80 = 0) = (\<not> bit b 7)"
  using and_exp_eq_0_iff_not_bit [of w 7] and_exp_eq_0_iff_not_bit [of b 7] by simp_all

lemma SLOT_masks: "SLOT_2_0 = push_bit 14 (mask 7) OR mask 7" "SLOT_4_2_0 = push_bit 28 (mask 4) OR push_bit 14 (mask 7) OR mask 7"
  by (simp_all add: SLOT_2_0_def SLOT_4_2_0_def mask_numeral)

lemmas varint_ref_unfold =
  varint_ref.simps [of p 0 for p] varint_ref.simps [of p 1 for p] varint_ref.simps [of p 2 for p]
  varint_ref.simps [of p 3 for p] varint_ref.simps [of p 4 for p] varint_ref.simps [of p 5 for p]
  varint_ref.simps [of p 6 for p] varint_ref.simps [of p 7 for p] varint_ref.simps [of p 8 for p]

lemmas getvarint_bits = sqlite3GetVarint_def sint_nonneg_u8 Let_def and_80 varint_ref_unfold

lemma GetVarint_1: "\<not> bit (byte_at p 0) 7 \<Longrightarrow> sqlite3GetVarint p = varint_ref p 0 0"
  by (simp add: getvarint_bits)

lemma GetVarint_2:
  assumes "bit (byte_at p 0) 7" "\<not> bit (byte_at p 1) 7"
  shows "sqlite3GetVarint p = varint_ref p 0 0"
  using assms
  apply (simp add: getvarint_bits bit_simps mask7 del: One_nat_def)
  apply (rule word64_eqI7)
  apply (simp_all add: bit_simps SLOT_masks mask7 bit8_hi bit8_ge)
  done

lemma GetVarint_3:
  assumes "bit (byte_at p 0) 7" "bit (byte_at p 1) 7" "\<not> bit (byte_at p 2) 7"
  shows "sqlite3GetVarint p = varint_ref p 0 0"
  using assms
  apply (simp add: getvarint_bits bit_simps mask7 del: One_nat_def)
  apply (rule word64_eqI7)
  apply (simp_all add: bit_simps SLOT_masks mask7 bit8_hi bit8_ge)
  done

lemma GetVarint_4:
  assumes "bit (byte_at p 0) 7" "bit (byte_at p 1) 7" "bit (byte_at p 2) 7" "\<not> bit (byte_at p 3) 7"
  shows "sqlite3GetVarint p = varint_ref p 0 0"
  using assms
  apply (simp add: getvarint_bits bit_simps mask7 del: One_nat_def)
  apply (rule word64_eqI7)
  apply (simp_all add: bit_simps SLOT_masks mask7 bit8_hi bit8_ge)
  done

lemma GetVarint_5:
  assumes "bit (byte_at p 0) 7" "bit (byte_at p 1) 7" "bit (byte_at p 2) 7" "bit (byte_at p 3) 7" "\<not> bit (byte_at p 4) 7"
  shows "sqlite3GetVarint p = varint_ref p 0 0"
  using assms
  apply (simp add: getvarint_bits bit_simps mask7 del: One_nat_def)
  apply (rule word64_eqI7)
  apply (simp_all add: bit_simps SLOT_masks mask7 bit8_hi bit8_ge)
  done

lemma GetVarint_6:
  assumes "bit (byte_at p 0) 7" "bit (byte_at p 1) 7" "bit (byte_at p 2) 7" "bit (byte_at p 3) 7" "bit (byte_at p 4) 7" "\<not> bit (byte_at p 5) 7"
  shows "sqlite3GetVarint p = varint_ref p 0 0"
  using assms
  apply (simp add: getvarint_bits bit_simps mask7 del: One_nat_def)
  apply (rule word64_eqI7)
  apply (simp_all add: bit_simps SLOT_masks mask7 bit8_hi bit8_ge)
  done

lemma GetVarint_7:
  assumes "bit (byte_at p 0) 7" "bit (byte_at p 1) 7" "bit (byte_at p 2) 7" "bit (byte_at p 3) 7" "bit (byte_at p 4) 7" "bit (byte_at p 5) 7" "\<not> bit (byte_at p 6) 7"
  shows "sqlite3GetVarint p = varint_ref p 0 0"
  using assms
  apply (simp add: getvarint_bits bit_simps mask7 del: One_nat_def)
  apply (rule word64_eqI7)
  apply (simp_all add: bit_simps SLOT_masks mask7 bit8_hi bit8_ge)
  done

lemma GetVarint_8:
  assumes "bit (byte_at p 0) 7" "bit (byte_at p 1) 7" "bit (byte_at p 2) 7" "bit (byte_at p 3) 7" "bit (byte_at p 4) 7" "bit (byte_at p 5) 7" "bit (byte_at p 6) 7" "\<not> bit (byte_at p 7) 7"
  shows "sqlite3GetVarint p = varint_ref p 0 0"
  using assms
  apply (simp add: getvarint_bits bit_simps mask7 del: One_nat_def)
  apply (rule word64_eqI7)
  apply (simp_all add: bit_simps SLOT_masks mask7 bit8_hi bit8_ge)
  done

lemma GetVarint_9:
  assumes "bit (byte_at p 0) 7" "bit (byte_at p 1) 7" "bit (byte_at p 2) 7" "bit (byte_at p 3) 7" "bit (byte_at p 4) 7" "bit (byte_at p 5) 7" "bit (byte_at p 6) 7" "bit (byte_at p 7) 7"
  shows "sqlite3GetVarint p = varint_ref p 0 0"
  using assms
  apply (simp add: getvarint_bits bit_simps mask7 del: One_nat_def)
  apply (rule word64_eqI8)
  apply (simp_all add: bit_simps SLOT_masks mask7 bit8_hi bit8_ge)
  done

lemma GetVarint_eq_ref: "sqlite3GetVarint p = varint_ref p 0 0"
  by (metis GetVarint_1 GetVarint_2 GetVarint_3 GetVarint_4 GetVarint_5 GetVarint_6 GetVarint_7 GetVarint_8 GetVarint_9)

subsection \<open>Round trip\<close>

text \<open>Group \<open>g\<close> of a value: its bits \<open>7g\<close> to \<open>7g+6\<close>.\<close>

definition group7 :: "nat \<Rightarrow> u64 \<Rightarrow> u8" where
  "group7 g v = ucast (drop_bit (7 * g) v AND mask 7)"

lemma bit_group7: "bit (group7 g v) n = (n < 7 \<and> bit v (7 * g + n))"
  by (auto simp: group7_def bit_simps dest: bit_imp_le_length)

lemma group7_drop: "group7 g (drop_bit 7 v) = group7 (Suc g) v"
  by (simp add: group7_def add.commute)

lemma push_group7:
  "push_bit 7 (drop_bit (7 * Suc g) v) OR ucast (group7 g v) = drop_bit (7 * g) (v :: u64)"
proof (rule bit_word_eqI)
  fix n assume "n < LENGTH(64)"
  then show "bit (push_bit 7 (drop_bit (7 * Suc g) v) OR ucast (group7 g v)) n = bit (drop_bit (7 * g) v) n"
    by (cases "n < 7") (auto simp: bit_simps bit_group7 dest: bit_imp_le_length)
qed

lemma push_group7_0: "push_bit 7 (drop_bit 7 v) OR ucast (group7 0 v) = (v :: u64)"
proof (rule bit_word_eqI)
  fix n assume "n < LENGTH(64)"
  then show "bit (push_bit 7 (drop_bit 7 v) OR ucast (group7 0 v)) n = bit v n"
    by (cases "n < 7") (auto simp: bit_simps bit_group7 dest: bit_imp_le_length)
qed

text \<open>Reading \<open>m\<close> flagged groups, the most significant first.\<close>

definition flagged :: "u64 \<Rightarrow> nat \<Rightarrow> bytes" where
  "flagged v m = map (\<lambda>g. group7 g v OR 0x80) (rev [0..<m])"

lemma length_flagged [simp]: "length (flagged v m) = m"
  by (simp add: flagged_def)

lemma flagged_nth: "t < m \<Longrightarrow> flagged v m ! t = group7 (m - 1 - t) v OR 0x80"
  by (simp add: flagged_def rev_nth)

lemma bit7_80: "bit (b OR (0x80 :: u8)) 7" "(group7 g v OR 0x80) AND mask 7 = group7 g v"
proof -
  have b: "bit (0x80 :: u8) n = (n = 7)" for n
    using bit_push_bit_iff [of 7 "1 :: u8" n] by (auto simp: bit_simps)
  show "bit (b OR (0x80 :: u8)) 7" unfolding bit_or_iff b by simp
  show "(group7 g v OR 0x80) AND mask 7 = group7 g v"
  proof (rule bit_word_eqI)
    fix n
    show "bit ((group7 g v OR 0x80) AND mask 7) n = bit (group7 g v) n"
      unfolding bit_and_iff bit_or_iff b by (auto simp: bit_simps bit_group7)
  qed
qed

lemma varint_ref_flagged:
  assumes "m + i \<le> 8" and "\<And>t. t < m \<Longrightarrow> byte_at p (i + t) = group7 (m - 1 - t) v OR 0x80"
  shows "varint_ref p i (drop_bit (7 * m) v) = varint_ref p (i + m) v"
  using assms
proof (induction m arbitrary: i)
  case 0
  then show ?case by simp
next
  case (Suc m)
  have b: "byte_at p i = group7 m v OR 0x80" using Suc.prems(2) [of 0] by simp
  have "varint_ref p i (drop_bit (7 * Suc m) v) = varint_ref p (Suc i) (drop_bit (7 * m) v)"
    using Suc.prems(1) push_group7 [of m v]
    by (subst varint_ref.simps) (simp add: b bit7_80)
  also have "\<dots> = varint_ref p (Suc i + m) v"
  proof (rule Suc.IH)
    show "byte_at p (Suc i + t) = group7 (m - 1 - t) v OR 0x80" if "t < m" for t
      using Suc.prems(2) [of "Suc t"] that by simp
  qed (use Suc.prems in simp)
  finally show ?case by simp
qed

text \<open>Both loops run once per group.\<close>

lemma group_induct [case_names step]:
  assumes "\<And>v. (drop_bit 7 v \<noteq> 0 \<Longrightarrow> P (drop_bit 7 v)) \<Longrightarrow> P v"
  shows "P (v :: u64)"
proof (induction v rule: measure_induct_rule [of unat])
  case (less v)
  have "P (drop_bit 7 v)" if "drop_bit 7 v \<noteq> 0"
    using that less drop_bit_less [of 7 v] by simp
  then show ?case by (rule assms)
qed

lemma VarintLen_loop_acc: "sqlite3VarintLen_loop v (Suc i) = Suc (sqlite3VarintLen_loop v i)"
proof (induction v arbitrary: i rule: group_induct)
  case (step v)
  then show ?case by (simp add: sqlite3VarintLen_loop.simps [of v] Let_def)
qed

lemma VarintLen_step:
  "sqlite3VarintLen v = (if drop_bit 7 v = 0 then 1 else Suc (sqlite3VarintLen (drop_bit 7 v)))"
  by (simp add: sqlite3VarintLen_def sqlite3VarintLen_loop.simps [of v] VarintLen_loop_acc)

lemma VarintLen_pos: "0 < sqlite3VarintLen v"
  by (simp add: VarintLen_step)

lemma VarintLen_iff: "0 < n \<Longrightarrow> sqlite3VarintLen v \<le> n \<longleftrightarrow> drop_bit (7 * n) v = 0"
proof (induction v arbitrary: n rule: group_induct)
  case (step v)
  then obtain m where n: "n = Suc m" by (cases n) auto
  have d: "drop_bit (7 * n) v = drop_bit (7 * m) (drop_bit 7 v)" by (simp add: n add.commute)
  show ?case
  proof (cases "drop_bit 7 v = 0")
    case True
    then show ?thesis by (simp add: VarintLen_step [of v] d) (simp add: n)
  next
    case False
    then show ?thesis
      using step VarintLen_pos [of "drop_bit 7 v"]
      by (cases "m = 0") (simp_all add: VarintLen_step [of v] d, simp_all add: n)
  qed
qed

lemma putVarint64_loop_groups:
  "putVarint64_loop v buf = buf @ map (\<lambda>g. group7 g v OR 0x80) [0..<sqlite3VarintLen v]"
proof (induction v arbitrary: buf rule: group_induct)
  case (step v)
  have g0: "ucast (v AND 0x7f) = group7 0 v" by (simp add: group7_def mask_numeral)
  have upt: "[0..<Suc n] = 0 # map Suc [0..<n]" for n by (simp add: upt_conv_Cons map_Suc_upt del: upt_Suc)
  show ?case
    using step by (simp add: putVarint64_loop.simps [of v] VarintLen_step [of v] g0 upt group7_drop comp_def del: upt_Suc)
qed

lemma putVarint64_high_groups:
  "putVarint64_high m v = flagged v m"
proof (induction m arbitrary: v)
  case 0
  then show ?case by (simp add: flagged_def)
next
  case (Suc m)
  have g0: "ucast (v AND 0x7f) = group7 0 v" by (simp add: group7_def mask_numeral)
  have upt: "[0..<Suc n] = 0 # map Suc [0..<n]" for n by (simp add: upt_conv_Cons map_Suc_upt del: upt_Suc)
  show ?case by (simp add: Suc g0 flagged_def upt rev_map group7_drop comp_def del: upt_Suc)
qed

text \<open>The shape of the output: the flagged groups above group 0, then group 0 itself; or eight
  flagged groups of the upper 56 bits and the low byte.\<close>

lemma group7_ucast: "ucast (v AND 0x7f) = group7 0 v"
  by (simp add: group7_def mask_numeral)

lemma upt_Suc_map: "[0..<Suc n] = 0 # map Suc [0..<n]"
  by (simp add: upt_conv_Cons map_Suc_upt del: upt_Suc)

lemma flagged_Suc: "flagged v (Suc m) = flagged (drop_bit 7 v) m @ [group7 0 v OR 0x80]"
  by (simp add: flagged_def upt_Suc_map rev_map group7_drop comp_def del: upt_Suc)

lemma VarintLen_eqI:
  assumes "drop_bit (7 * Suc m) v = 0" "m = 0 \<or> drop_bit (7 * m) v \<noteq> 0"
  shows "sqlite3VarintLen v = Suc m"
  using assms VarintLen_iff [of "Suc m" v] VarintLen_iff [of m v] VarintLen_pos [of v]
  by (cases "m = 0") auto

lemma mask_high: "v AND 18374686479671623680 = 0 \<longleftrightarrow> drop_bit 56 (v :: u64) = 0"
proof -
  have m: "18374686479671623680 = (push_bit 56 (mask 8) :: u64)" by (simp add: mask_numeral)
  have eq: "v AND 18374686479671623680 = push_bit 56 (drop_bit 56 v)"
    unfolding m by (rule bit_word_eqI) (auto simp: bit_simps)
  have "drop_bit 56 (push_bit 56 (drop_bit 56 v)) = drop_bit 56 v"
    by (rule bit_word_eqI) (auto simp: bit_simps dest: bit_imp_le_length)
  then show ?thesis unfolding eq by (metis drop_bit_of_0 push_bit_of_0)
qed

lemma PutVarint_short:
  assumes "drop_bit 56 v = 0"
  shows "sqlite3PutVarint v = flagged (drop_bit 7 v) (sqlite3VarintLen v - 1) @ [group7 0 v]"
proof -
  consider "v \<le> 0x7f" | "\<not> v \<le> 0x7f" "v \<le> 0x3fff" | "\<not> v \<le> 0x3fff" "\<not> v \<le> 0x7f"
    by blast
  then show ?thesis
  proof cases
    case 1
    then have "sqlite3VarintLen v = Suc 0"
      by (intro VarintLen_eqI) (simp_all add: drop_bit_0_iff word_le_nat_alt)
    with 1 show ?thesis by (simp add: sqlite3PutVarint_def group7_ucast flagged_def)
  next
    case 2
    then have "sqlite3VarintLen v = Suc (Suc 0)"
      by (intro VarintLen_eqI) (simp_all add: drop_bit_0_iff word_le_nat_alt)
    moreover have "ucast ((drop_bit 7 v AND 0x7f) OR 0x80) = (group7 0 (drop_bit 7 v) OR 0x80)"
      unfolding group7_def by (rule bit_word_eqI) (auto simp: bit_simps mask_numeral)
    ultimately show ?thesis using 2
      by (simp add: sqlite3PutVarint_def group7_ucast flagged_Suc) (simp add: flagged_def)
  next
    case 3
    obtain m where m: "sqlite3VarintLen v = Suc m" using VarintLen_pos [of v] gr0_implies_Suc by blast
    show ?thesis using 3 assms
      by (simp add: sqlite3PutVarint_def putVarint64_def mask_high putVarint64_loop_groups m upt_Suc_map
          byte_at_Cons mask7 bit7_80 flagged_def rev_map group7_drop comp_def del: upt_Suc)
  qed
qed

lemma PutVarint_long:
  assumes "drop_bit 56 v \<noteq> 0"
  shows "sqlite3PutVarint v = flagged (drop_bit 8 v) 8 @ [ucast v]"
proof -
  have "\<not> v \<le> 0x3fff"
  proof
    assume "v \<le> 0x3fff"
    then have "drop_bit 56 v = 0"
      by (simp add: word_le_nat_alt drop_bit_0_iff)
    with assms show False by simp
  qed
  then have "\<not> v \<le> 0x7f" by (simp add: word_le_nat_alt)
  then show ?thesis
    using assms \<open>\<not> v \<le> 0x3fff\<close>
    by (simp add: sqlite3PutVarint_def putVarint64_def mask_high putVarint64_high_groups)
qed

lemma PutVarint_length: "length (sqlite3PutVarint v) = min 9 (sqlite3VarintLen v)"
proof (cases "drop_bit 56 v = 0")
  case True
  then have "sqlite3VarintLen v \<le> 8" using VarintLen_iff [of 8 v] by simp
  with True VarintLen_pos [of v] show ?thesis by (simp add: PutVarint_short)
next
  case False
  then have "\<not> sqlite3VarintLen v \<le> 8" using VarintLen_iff [of 8 v] by simp
  with False show ?thesis by (simp add: PutVarint_long)
qed

lemma byte_at_flagged: "t < m \<Longrightarrow> byte_at (flagged v m @ ys) t = group7 (m - 1 - t) v OR 0x80"
  by (simp add: byte_at_def nth_append flagged_nth)

lemma GetVarint_PutVarint:
  "sqlite3GetVarint (sqlite3PutVarint v @ rest) = (length (sqlite3PutVarint v), v)"
proof (cases "drop_bit 56 v = 0")
  case True
  define m where "m = sqlite3VarintLen v - 1"
  have "sqlite3VarintLen v \<le> 8" using True VarintLen_iff [of 8 v] by simp
  then have m: "m < 8" "sqlite3VarintLen v = Suc m" using VarintLen_pos [of v] by (simp_all add: m_def)
  have z: "drop_bit (7 * m) (drop_bit 7 v) = 0"
    using VarintLen_iff [of "Suc m" v] m by (simp add: add.commute)
  have eq: "sqlite3PutVarint v @ rest = flagged (drop_bit 7 v) m @ group7 0 v # rest"
    using True by (simp add: PutVarint_short m_def)
  have "varint_ref (sqlite3PutVarint v @ rest) 0 0 = varint_ref (sqlite3PutVarint v @ rest) m (drop_bit 7 v)"
    using varint_ref_flagged [of m 0 "sqlite3PutVarint v @ rest" "drop_bit 7 v", unfolded z] m
    by (simp add: eq byte_at_flagged)
  also have "\<dots> = (Suc m, push_bit 7 (drop_bit 7 v) OR ucast (group7 0 v))"
  proof -
    have "byte_at (sqlite3PutVarint v @ rest) m = group7 0 v"
      by (simp only: eq) (simp add: byte_at_def nth_append)
    then show ?thesis using m by (subst varint_ref.simps) (simp add: bit_group7)
  qed
  also have "\<dots> = (Suc m, v)" by (simp only: push_group7_0)
  finally have "sqlite3GetVarint (sqlite3PutVarint v @ rest) = (Suc m, v)"
    by (simp only: GetVarint_eq_ref)
  moreover have "length (sqlite3PutVarint v) = Suc m"
    using m(1) by (simp add: PutVarint_short [OF True] m_def)
  ultimately show ?thesis by simp
next
  case False
  have eq: "sqlite3PutVarint v @ rest = flagged (drop_bit 8 v) 8 @ ucast v # rest"
    using False by (simp add: PutVarint_long)
  have "varint_ref (sqlite3PutVarint v @ rest) 0 0 = varint_ref (sqlite3PutVarint v @ rest) 8 (drop_bit 8 v)"
    using varint_ref_flagged [of 8 0 "sqlite3PutVarint v @ rest" "drop_bit 8 v"]
    by (simp add: eq byte_at_flagged)
  also have "\<dots> = (9, push_bit 8 (drop_bit 8 v) OR ucast (ucast v :: u8))"
  proof -
    have "byte_at (sqlite3PutVarint v @ rest) 8 = ucast v"
      by (simp only: eq) (simp add: byte_at_def nth_append)
    then show ?thesis by (subst varint_ref.simps) simp
  qed
  also have "push_bit 8 (drop_bit 8 v) OR ucast (ucast v :: u8) = v"
    by (rule bit_word_eqI) (auto simp: bit_simps)
  finally show ?thesis using False by (simp add: GetVarint_eq_ref PutVarint_long)
qed

lemma ucast_64_32: "(v :: u64) AND 0xffffffff \<noteq> v \<longleftrightarrow> \<not> unat v < 2 ^ 32"
proof -
  have "0xffffffff = (mask 32 :: u64)" by (simp add: mask_numeral)
  moreover have "v AND mask 32 = v \<longleftrightarrow> drop_bit 32 v = 0"
    by (metis take_bit_eq_mask take_bit_eq_self_iff_drop_bit_eq_0)
  ultimately show ?thesis by (simp add: drop_bit_0_iff)
qed

lemma unat_ucast_32_64:
  "unat (ucast (w :: u32) :: u64) < 4294967296" "unat (ucast (b :: u8) :: u64) < 4294967296"
proof -
  have "drop_bit 32 (ucast w :: u64) = 0" "drop_bit 32 (ucast b :: u64) = 0"
    by (rule bit_word_eqI; auto simp: bit_simps dest: bit_imp_le_length)+
  then show "unat (ucast w :: u64) < 4294967296" "unat (ucast b :: u64) < 4294967296"
    by (simp_all add: drop_bit_0_iff)
qed

lemma getVarint32_saturates:
  "getVarint32 p = (let (n, v) = sqlite3GetVarint p in (n, if unat v < 2 ^ 32 then ucast v else 0xffffffff))"
proof -
  consider "\<not> bit (byte_at p 0) 7" | "bit (byte_at p 0) 7" "\<not> bit (byte_at p 1) 7"
    | "bit (byte_at p 0) 7" "bit (byte_at p 1) 7" "\<not> bit (byte_at p 2) 7"
    | "bit (byte_at p 0) 7" "bit (byte_at p 1) 7" "bit (byte_at p 2) 7" by blast
  then show ?thesis
  proof cases
    case 1
    then show ?thesis
      by (simp add: getVarint32_def u8_less_80 sqlite3GetVarint_def sint_nonneg_u8 unat_ucast_32_64)
        (rule word32_eqI7; simp add: bit_simps)
  next
    case 2
    from 2 show ?thesis
      apply (simp add: getVarint32_def u8_less_80 sqlite3GetVarint32_def sqlite3GetVarint_def sint_nonneg_u8 unat_ucast_32_64 and_80 mask7)
      apply (rule word32_eqI7)
      apply (simp_all add: bit_simps)
      done
  next
    case 3
    then show ?thesis
      apply (simp add: getVarint32_def u8_less_80 sqlite3GetVarint32_def sqlite3GetVarint_def sint_nonneg_u8 unat_ucast_32_64 and_80 mask7 bit_simps Let_def)
      apply (rule word32_eqI7)
      apply (simp_all add: bit_simps SLOT_masks bit8_ge bit8_hi)
      done
  next
    case 4
    then show ?thesis
      using ucast_64_32 [of "snd (sqlite3GetVarint p)"]
      by (auto simp: getVarint32_def u8_less_80 sqlite3GetVarint32_def and_80 Let_def split: prod.splits)
  qed
qed

subsection \<open>Properties\<close>

text \<open>C33: the unrolled reader, with its partially masked accumulators and the shifts that move
  bits between the 32-bit halves, computes what the format description says, byte by byte,
  for every memory content.\<close>

theorem sqlite3GetVarint_reference: "sqlite3GetVarint p = varint_ref p 0 0"
  by (rule GetVarint_eq_ref)

text \<open>C26: reading back what was written returns the value and the number of bytes written,
  whatever follows in memory, for all 64-bit values.\<close>

theorem varint_roundtrip:
  "sqlite3GetVarint (sqlite3PutVarint v @ rest) = (length (sqlite3PutVarint v), v)"
  by (rule GetVarint_PutVarint)

text \<open>The 32-bit reader with its one, two and three byte shortcuts consumes the bytes the
  64-bit reader consumes and returns its value, saturated at \<open>0xffffffff\<close>.\<close>

theorem getVarint32_saturating:
  "getVarint32 p = (let (n, v) = sqlite3GetVarint p in (n, if unat v < 2 ^ 32 then ucast v else 0xffffffff))"
  by (rule getVarint32_saturates)

text \<open>\<open>sqlite3VarintLen\<close> is the number of bytes \<open>sqlite3PutVarint\<close> writes exactly for the
  values below \<open>2^63\<close>; above, it answers 10 where 9 bytes are written. The number of bytes
  written is always between 1 and 9.\<close>

theorem VarintLen_exact_below_2_63:
  "(sqlite3VarintLen v = length (sqlite3PutVarint v)) = (unat v < 2 ^ 63)
   \<and> 1 \<le> length (sqlite3PutVarint v) \<and> length (sqlite3PutVarint v) \<le> 9"
  using VarintLen_iff [of 9 v] VarintLen_pos [of v]
  by (auto simp: PutVarint_length drop_bit_0_iff min_def)

end
