(* ===== verification/Ctype.thy ===== *)
theory Ctype
  imports Sqlite_Prelude
begin

section \<open>Character classes and case folding (global.c)\<close>

text \<open>
  The two 256-byte tables of global.c, copied entry by entry, the classification macros of
  sqliteInt.h over them, and what each of them tests, checked for all 256 characters.
\<close>

subsection \<open>Tables\<close>

definition sqlite3UpperToLower :: bytes where
  "sqlite3UpperToLower =
   [0, 1, 2, 3, 4, 5, 6, 7, 8, 9, 10, 11, 12, 13, 14, 15, 16, 17,
    18, 19, 20, 21, 22, 23, 24, 25, 26, 27, 28, 29, 30, 31, 32, 33, 34, 35,
    36, 37, 38, 39, 40, 41, 42, 43, 44, 45, 46, 47, 48, 49, 50, 51, 52, 53,
    54, 55, 56, 57, 58, 59, 60, 61, 62, 63, 64, 97, 98, 99, 100, 101, 102, 103,
    104, 105, 106, 107, 108, 109, 110, 111, 112, 113, 114, 115, 116, 117, 118, 119, 120, 121,
    122, 91, 92, 93, 94, 95, 96, 97, 98, 99, 100, 101, 102, 103, 104, 105, 106, 107,
    108, 109, 110, 111, 112, 113, 114, 115, 116, 117, 118, 119, 120, 121, 122, 123, 124, 125,
    126, 127, 128, 129, 130, 131, 132, 133, 134, 135, 136, 137, 138, 139, 140, 141, 142, 143,
    144, 145, 146, 147, 148, 149, 150, 151, 152, 153, 154, 155, 156, 157, 158, 159, 160, 161,
    162, 163, 164, 165, 166, 167, 168, 169, 170, 171, 172, 173, 174, 175, 176, 177, 178, 179,
    180, 181, 182, 183, 184, 185, 186, 187, 188, 189, 190, 191, 192, 193, 194, 195, 196, 197,
    198, 199, 200, 201, 202, 203, 204, 205, 206, 207, 208, 209, 210, 211, 212, 213, 214, 215,
    216, 217, 218, 219, 220, 221, 222, 223, 224, 225, 226, 227, 228, 229, 230, 231, 232, 233,
    234, 235, 236, 237, 238, 239, 240, 241, 242, 243, 244, 245, 246, 247, 248, 249, 250, 251,
    252, 253, 254, 255, 1, 0, 0, 1, 1, 0, 0, 1, 0, 1, 0, 1, 1, 0,
    1, 0, 0, 1]"

definition sqlite3CtypeMap :: bytes where
  "sqlite3CtypeMap =
   [0x00, 0x00, 0x00, 0x00, 0x00, 0x00, 0x00, 0x00, 0x00, 0x01, 0x01, 0x01, 0x01, 0x01, 0x00, 0x00,
    0x00, 0x00, 0x00, 0x00, 0x00, 0x00, 0x00, 0x00, 0x00, 0x00, 0x00, 0x00, 0x00, 0x00, 0x00, 0x00,
    0x01, 0x00, 0x80, 0x00, 0x40, 0x00, 0x00, 0x80, 0x00, 0x00, 0x00, 0x00, 0x00, 0x00, 0x00, 0x00,
    0x0c, 0x0c, 0x0c, 0x0c, 0x0c, 0x0c, 0x0c, 0x0c, 0x0c, 0x0c, 0x00, 0x00, 0x00, 0x00, 0x00, 0x00,
    0x00, 0x0a, 0x0a, 0x0a, 0x0a, 0x0a, 0x0a, 0x02, 0x02, 0x02, 0x02, 0x02, 0x02, 0x02, 0x02, 0x02,
    0x02, 0x02, 0x02, 0x02, 0x02, 0x02, 0x02, 0x02, 0x02, 0x02, 0x02, 0x80, 0x00, 0x00, 0x00, 0x40,
    0x80, 0x2a, 0x2a, 0x2a, 0x2a, 0x2a, 0x2a, 0x22, 0x22, 0x22, 0x22, 0x22, 0x22, 0x22, 0x22, 0x22,
    0x22, 0x22, 0x22, 0x22, 0x22, 0x22, 0x22, 0x22, 0x22, 0x22, 0x22, 0x00, 0x00, 0x00, 0x00, 0x00,
    0x40, 0x40, 0x40, 0x40, 0x40, 0x40, 0x40, 0x40, 0x40, 0x40, 0x40, 0x40, 0x40, 0x40, 0x40, 0x40,
    0x40, 0x40, 0x40, 0x40, 0x40, 0x40, 0x40, 0x40, 0x40, 0x40, 0x40, 0x40, 0x40, 0x40, 0x40, 0x40,
    0x40, 0x40, 0x40, 0x40, 0x40, 0x40, 0x40, 0x40, 0x40, 0x40, 0x40, 0x40, 0x40, 0x40, 0x40, 0x40,
    0x40, 0x40, 0x40, 0x40, 0x40, 0x40, 0x40, 0x40, 0x40, 0x40, 0x40, 0x40, 0x40, 0x40, 0x40, 0x40,
    0x40, 0x40, 0x40, 0x40, 0x40, 0x40, 0x40, 0x40, 0x40, 0x40, 0x40, 0x40, 0x40, 0x40, 0x40, 0x40,
    0x40, 0x40, 0x40, 0x40, 0x40, 0x40, 0x40, 0x40, 0x40, 0x40, 0x40, 0x40, 0x40, 0x40, 0x40, 0x40,
    0x40, 0x40, 0x40, 0x40, 0x40, 0x40, 0x40, 0x40, 0x40, 0x40, 0x40, 0x40, 0x40, 0x40, 0x40, 0x40,
    0x40, 0x40, 0x40, 0x40, 0x40, 0x40, 0x40, 0x40, 0x40, 0x40, 0x40, 0x40, 0x40, 0x40, 0x40, 0x40]"

definition UpperToLower :: "u8 \<Rightarrow> u8" where
  "UpperToLower c = sqlite3UpperToLower ! unat c"

definition ctype :: "u8 \<Rightarrow> u8" where
  "ctype c = sqlite3CtypeMap ! unat c"

definition sqlite3Toupper :: "u8 \<Rightarrow> u8" where
  "sqlite3Toupper x = x AND NOT (ctype x AND 0x20)"

definition sqlite3Isspace :: "u8 \<Rightarrow> bool" where "sqlite3Isspace x \<longleftrightarrow> ctype x AND 0x01 \<noteq> 0"
definition sqlite3Isalnum :: "u8 \<Rightarrow> bool" where "sqlite3Isalnum x \<longleftrightarrow> ctype x AND 0x06 \<noteq> 0"
definition sqlite3Isalpha :: "u8 \<Rightarrow> bool" where "sqlite3Isalpha x \<longleftrightarrow> ctype x AND 0x02 \<noteq> 0"
definition sqlite3Isdigit :: "u8 \<Rightarrow> bool" where "sqlite3Isdigit x \<longleftrightarrow> ctype x AND 0x04 \<noteq> 0"
definition sqlite3Isxdigit :: "u8 \<Rightarrow> bool" where "sqlite3Isxdigit x \<longleftrightarrow> ctype x AND 0x08 \<noteq> 0"
definition sqlite3Isquote :: "u8 \<Rightarrow> bool" where "sqlite3Isquote x \<longleftrightarrow> ctype x AND 0x80 \<noteq> 0"
definition IdChar :: "u8 \<Rightarrow> bool" where "IdChar x \<longleftrightarrow> ctype x AND 0x46 \<noteq> 0"

lemma u8_table:
  assumes "list_all2 (\<lambda>n t. P (word_of_int n :: u8) t) [0..255] tab"
  shows "P c (tab ! unat c)"
proof -
  have n: "unat c < 256" by (rule unat_u8)
  have len: "length [0::int..255] = 256" by simp
  have "P (word_of_int ([0..255] ! unat c)) (tab ! unat c)"
    using list_all2_nthD [OF assms, of "unat c"] n len by simp
  moreover have "[0::int..255] ! unat c = int (unat c)"
  proof -
    have "0 + int (unat c) \<le> 255" using n by linarith
    then show ?thesis by (subst nth_upto) simp_all
  qed
  ultimately show ?thesis by simp
qed

lemma UpperToLower_eq: "UpperToLower c = (if 65 \<le> c \<and> c \<le> 90 then c + 32 else c)"
proof -
  have "list_all2 (\<lambda>n t. t = (if 65 \<le> (word_of_int n :: u8) \<and> word_of_int n \<le> (90 :: u8) then word_of_int n + 32 else word_of_int n)) [0..255] (take 256 sqlite3UpperToLower)"
    by code_simp
  from u8_table [OF this, of c] show ?thesis using unat_u8 [of c] by (simp add: UpperToLower_def)
qed

definition ctype_spec :: "u8 \<Rightarrow> u8 \<Rightarrow> bool" where
  "ctype_spec c t \<longleftrightarrow>
    ((t AND 0x01 \<noteq> 0) = (c = 32 \<or> 9 \<le> c \<and> c \<le> 13)) \<and>
    ((t AND 0x02 \<noteq> 0) = (65 \<le> c \<and> c \<le> 90 \<or> 97 \<le> c \<and> c \<le> 122)) \<and>
    ((t AND 0x04 \<noteq> 0) = (48 \<le> c \<and> c \<le> 57)) \<and>
    ((t AND 0x08 \<noteq> 0) = (48 \<le> c \<and> c \<le> 57 \<or> 65 \<le> c \<and> c \<le> 70 \<or> 97 \<le> c \<and> c \<le> 102)) \<and>
    ((t AND 0x20 \<noteq> 0) = (97 \<le> c \<and> c \<le> 122)) \<and>
    ((t AND 0x80 \<noteq> 0) = (c = 34 \<or> c = 39 \<or> c = 91 \<or> c = 96)) \<and>
    ((t AND 0x40 \<noteq> 0) = (c = 36 \<or> c = 95 \<or> 128 \<le> c)) \<and>
    ((t AND 0x46 \<noteq> 0) = (t AND 0x40 \<noteq> 0 \<or> t AND 0x04 \<noteq> 0 \<or> t AND 0x02 \<noteq> 0))"

lemma ctype_spec: "ctype_spec c (ctype c)"
proof -
  have "list_all2 (\<lambda>n t. ctype_spec (word_of_int n) t) [0..255] sqlite3CtypeMap"
    by code_simp
  from u8_table [OF this] show ?thesis by (simp add: ctype_def)
qed

lemma Isspace_eq: "sqlite3Isspace c = (c = 32 \<or> 9 \<le> c \<and> c \<le> 13)"
  using ctype_spec [of c] by (simp only: ctype_spec_def sqlite3Isspace_def)

lemma Isalpha_eq: "sqlite3Isalpha c = (65 \<le> c \<and> c \<le> 90 \<or> 97 \<le> c \<and> c \<le> 122)"
  using ctype_spec [of c] by (simp only: ctype_spec_def sqlite3Isalpha_def)

lemma Isdigit_eq: "sqlite3Isdigit c = (48 \<le> c \<and> c \<le> 57)"
  using ctype_spec [of c] by (simp only: ctype_spec_def sqlite3Isdigit_def)

lemma Isxdigit_eq: "sqlite3Isxdigit c = (48 \<le> c \<and> c \<le> 57 \<or> 65 \<le> c \<and> c \<le> 70 \<or> 97 \<le> c \<and> c \<le> 102)"
  using ctype_spec [of c] by (simp only: ctype_spec_def sqlite3Isxdigit_def)

lemma Isquote_eq: "sqlite3Isquote c = (c = 34 \<or> c = 39 \<or> c = 91 \<or> c = 96)"
  using ctype_spec [of c] by (simp only: ctype_spec_def sqlite3Isquote_def)

lemma IdChar_eq: "IdChar c = (sqlite3Isalpha c \<or> sqlite3Isdigit c \<or> c = 36 \<or> c = 95 \<or> 128 \<le> c)"
  using ctype_spec [of c] by (simp only: ctype_spec_def sqlite3Isalpha_def sqlite3Isdigit_def IdChar_def) blast

lemma UpperToLower_0: "UpperToLower c = 0 \<longleftrightarrow> c = 0"
proof -
  have "c + 32 \<noteq> 0" if "65 \<le> c" "c \<le> 90"
  proof
    assume "c + 32 = 0"
    then have "c = 224" by (simp add: eq_neg_iff_add_eq_0 [symmetric])
    with that show False by simp
  qed
  then show ?thesis by (auto simp: UpperToLower_eq)
qed

end
