(* ===== verification/Identifiers.thy ===== *)
theory Identifiers
  imports Ctype
begin

section \<open>Identifier comparison and quoting (util.c)\<close>

text \<open>
  Case-insensitive comparison and hashing of identifiers, and the removal of SQL quotes.
  A C string is the list of its bytes, read with \<open>byte_at\<close>, so the position just behind the list
  is the zero terminator.
\<close>

subsection \<open>Case-insensitive comparison\<close>

text \<open>The \<open>for(;;)\<close> loop of \<open>sqlite3StrICmp\<close>; it ends at the first difference or at the common
  terminator.\<close>

function sqlite3StrICmp :: "bytes \<Rightarrow> bytes \<Rightarrow> int" where
  "sqlite3StrICmp a b =
     (let c = byte_at a 0; x = byte_at b 0 in
      if c = x then (if c = 0 then 0 else sqlite3StrICmp (drop 1 a) (drop 1 b))
      else (let d = uint (UpperToLower c) - uint (UpperToLower x) in
            if d \<noteq> 0 then d else sqlite3StrICmp (drop 1 a) (drop 1 b)))"
  by pat_completeness auto
termination
  by (relation "measure (\<lambda>(a, b). length a + length b)") (auto simp: byte_at_def neq_Nil_conv split: if_splits)

declare sqlite3StrICmp.simps [simp del]

text \<open>The public entry points accept null pointers.\<close>

fun sqlite3_stricmp :: "bytes option \<Rightarrow> bytes option \<Rightarrow> int" where
  "sqlite3_stricmp None (Some b) = -1"
| "sqlite3_stricmp None None = 0"
| "sqlite3_stricmp (Some a) None = 1"
| "sqlite3_stricmp (Some a) (Some b) = sqlite3StrICmp a b"

text \<open>\<open>while( N-- > 0 && ...)\<close>: the counter is decremented by the failing test as well, so
  \<open>N<0\<close> after the loop means that the loop ran out of characters to compare.\<close>

fun strnicmp_loop :: "bytes \<Rightarrow> bytes \<Rightarrow> nat \<Rightarrow> int" where
  "strnicmp_loop a b 0 = 0"
| "strnicmp_loop a b (Suc n) =
     (if byte_at a 0 \<noteq> 0 \<and> UpperToLower (byte_at a 0) = UpperToLower (byte_at b 0)
      then strnicmp_loop (drop 1 a) (drop 1 b) n
      else uint (UpperToLower (byte_at a 0)) - uint (UpperToLower (byte_at b 0)))"

fun sqlite3_strnicmp :: "bytes option \<Rightarrow> bytes option \<Rightarrow> int \<Rightarrow> int" where
  "sqlite3_strnicmp None (Some b) N = -1"
| "sqlite3_strnicmp None None N = 0"
| "sqlite3_strnicmp (Some a) None N = 1"
| "sqlite3_strnicmp (Some a) (Some b) N = strnicmp_loop a b (nat N)"

fun StrIHash_loop :: "bytes \<Rightarrow> u8 \<Rightarrow> u8" where
  "StrIHash_loop [] h = h"
| "StrIHash_loop (c # z) h = (if c = 0 then h else StrIHash_loop z (h + UpperToLower c))"

definition sqlite3StrIHash :: "bytes option \<Rightarrow> u8" where
  "sqlite3StrIHash z = (case z of None \<Rightarrow> 0 | Some s \<Rightarrow> StrIHash_loop s 0)"

text \<open>The string a pointer denotes, case-folded.\<close>

definition cstr :: "bytes \<Rightarrow> bytes" where
  "cstr a = takeWhile (\<lambda>c. c \<noteq> 0) a"

definition folded :: "bytes \<Rightarrow> bytes" where
  "folded a = map UpperToLower (cstr a)"

lemma folded_simps [simp]:
  "folded [] = []" "folded (c # a) = (if c = 0 then [] else UpperToLower c # folded a)"
  by (simp_all add: folded_def cstr_def)

lemma folded_byte_at: "folded a = (if byte_at a 0 = 0 then [] else UpperToLower (byte_at a 0) # folded (drop 1 a))"
  by (cases a) (auto simp: byte_at_def)

text \<open>The comparison is the lexicographic one on folded strings, a proper prefix being smaller.\<close>

fun lexcmp :: "bytes \<Rightarrow> bytes \<Rightarrow> int" where
  "lexcmp [] [] = 0"
| "lexcmp [] (y # ys) = - uint y"
| "lexcmp (x # xs) [] = uint x"
| "lexcmp (x # xs) (y # ys) = (if x = y then lexcmp xs ys else uint x - uint y)"

lemma StrICmp_lexcmp: "sqlite3StrICmp a b = lexcmp (folded a) (folded b)"
proof (induction a b rule: sqlite3StrICmp.induct)
  case (1 a b)
  define c x where "c = byte_at a 0" and "x = byte_at b 0"
  have z: "UpperToLower 0 = 0" by (simp add: UpperToLower_0)
  have u: "uint (UpperToLower c) = uint (UpperToLower x) \<longleftrightarrow> UpperToLower c = UpperToLower x" for c x
    by (simp add: word_uint_eq_iff)
  have u0: "uint (UpperToLower c) = 0 \<longleftrightarrow> c = 0" for c
    by (simp add: uint_0_iff UpperToLower_0)
  show ?case
    using 1 [OF c_def x_def]
    by (subst sqlite3StrICmp.simps, subst (1 2) folded_byte_at)
      (auto simp: c_def [symmetric] x_def [symmetric] Let_def u u0 z UpperToLower_0)
qed

lemma lexcmp_0_iff: "0 \<notin> set a \<Longrightarrow> 0 \<notin> set b \<Longrightarrow> lexcmp a b = 0 \<longleftrightarrow> a = b"
  by (induction a b rule: lexcmp.induct) (auto simp: word_uint_eq_iff)

lemma lexcmp_swap: "lexcmp b a = - lexcmp a b"
  by (induction a b rule: lexcmp.induct) auto

lemma zero_folded: "0 \<notin> set (folded a)"
  by (induction a) (auto simp: UpperToLower_0 dest: sym)

lemma StrIHash_folded: "StrIHash_loop z h = h + sum_list (folded z)"
  by (induction z h rule: StrIHash_loop.induct) (auto simp: add.assoc)

subsection \<open>Removing quotes\<close>

text \<open>The loop of \<open>sqlite3Dequote\<close> over the buffer itself: \<open>j\<close> is the write position. Reading the
  terminator, which the source excludes by an assertion, is the result \<open>None\<close>.\<close>

function sqlite3Dequote_loop :: "bytes \<Rightarrow> u8 \<Rightarrow> nat \<Rightarrow> nat \<Rightarrow> bytes option" where
  "sqlite3Dequote_loop z quote i j =
     (if length z \<le> i then None
      else if byte_at z i = quote then
        (if byte_at z (i + 1) = quote then sqlite3Dequote_loop (z[j := quote]) quote (i + 2) (j + 1)
         else Some (take j z))
      else sqlite3Dequote_loop (z[j := byte_at z i]) quote (i + 1) (j + 1))"
  by pat_completeness auto
termination by (relation "measure (\<lambda>(z, _, i, _). length z - i)") auto

declare sqlite3Dequote_loop.simps [simp del]

definition sqlite3Dequote :: "bytes \<Rightarrow> bytes option" where
  "sqlite3Dequote z =
     (let quote = byte_at z 0 in
      if \<not> sqlite3Isquote quote then Some z
      else (let quote = (if quote = 91 then 93 else quote) in sqlite3Dequote_loop z quote 1 0))"

text \<open>A quoted identifier: the closing quote is doubled inside.\<close>

definition closing :: "u8 \<Rightarrow> u8" where
  "closing q = (if q = 91 then 93 else q)"

definition enquote :: "u8 \<Rightarrow> bytes \<Rightarrow> bytes" where
  "enquote q s = q # concat (map (\<lambda>c. if c = closing q then [c, c] else [c]) s) @ [closing q]"

lemma drop_nth: "drop i z = c # rest \<Longrightarrow> i < length z \<and> z ! i = c \<and> drop (Suc i) z = rest"
  by (metis Cons_nth_drop_Suc drop_all list.distinct(1) list.inject not_le_imp_less)

lemma Dequote_loop_body:
  assumes "drop i z = concat (map (\<lambda>c. if c = q then [c, c] else [c]) s) @ [q]" "j < i" "q \<noteq> 0"
  shows "sqlite3Dequote_loop z q i j = Some (take j z @ s)"
  using assms
proof (induction s arbitrary: z i j)
  case Nil
  then have d: "i < length z" "z ! i = q" "drop (Suc i) z = []" using drop_nth [of i z q "[]"] by auto
  then have "byte_at z (i + 1) = 0" by (simp add: byte_at_def)
  with Nil d show ?case by (subst sqlite3Dequote_loop.simps) (simp add: byte_at_def)
next
  case (Cons c s)
  let ?esc = "\<lambda>s. concat (map (\<lambda>c. if c = q then [c, c] else [c]) s) @ [q]"
  have j: "j < length z" if "i < length z" using Cons.prems(2) that by simp
  show ?case
  proof (cases "c = q")
    case True
    then have "drop i z = q # q # ?esc s" using Cons.prems(1) by simp
    then have d: "i < length z" "z ! i = q" "Suc i < length z" "z ! Suc i = q" "drop (Suc (Suc i)) z = ?esc s"
      using drop_nth [of i z] drop_nth [of "Suc i" z] by auto
    have "sqlite3Dequote_loop z q i j = sqlite3Dequote_loop (z[j := q]) q (i + 2) (j + 1)"
      using d by (subst sqlite3Dequote_loop.simps) (simp add: byte_at_def)
    also have "\<dots> = Some (take (j + 1) (z[j := q]) @ s)"
      using Cons.prems d by (intro Cons.IH) (simp_all add: drop_update_cancel)
    also have "\<dots> = Some (take j z @ c # s)"
      using j [OF d(1)] True by (simp add: take_Suc_conv_app_nth)
    finally show ?thesis .
  next
    case False
    then have "drop i z = c # ?esc s" using Cons.prems(1) by simp
    then have d: "i < length z" "z ! i = c" "drop (Suc i) z = ?esc s"
      using drop_nth [of i z] by auto
    have "sqlite3Dequote_loop z q i j = sqlite3Dequote_loop (z[j := c]) q (i + 1) (j + 1)"
      using d False by (subst sqlite3Dequote_loop.simps) (simp add: byte_at_def)
    also have "\<dots> = Some (take (j + 1) (z[j := c]) @ s)"
      using Cons.prems d by (intro Cons.IH) (simp_all add: drop_update_cancel)
    also have "\<dots> = Some (take j z @ c # s)"
      using j [OF d(1)] by (simp add: take_Suc_conv_app_nth)
    finally show ?thesis .
  qed
qed

lemma Dequote_enquote:
  assumes "sqlite3Isquote q"
  shows "sqlite3Dequote (enquote q s) = Some s"
proof -
  have "closing q \<noteq> 0" using assms by (auto simp: closing_def Isquote_eq)
  then have "sqlite3Dequote_loop (enquote q s) (closing q) 1 0 = Some (take 0 (enquote q s) @ s)"
    by (intro Dequote_loop_body) (simp_all add: enquote_def)
  moreover have "byte_at (enquote q s) 0 = q" by (simp add: enquote_def byte_at_def)
  ultimately show ?thesis
    using assms by (simp only: sqlite3Dequote_def Let_def closing_def [symmetric] not_not if_False simp_thms) simp
qed

subsection \<open>Properties\<close>

text \<open>\<open>sqlite3StrICmp\<close> orders strings lexicographically by their case-folded bytes up to the
  terminator: it answers 0 exactly for strings that are equal up to ASCII case, swapping the
  arguments negates the answer, and equal strings have equal hashes (which the symbol hash
  tables rely on).\<close>

theorem StrICmp_case_insensitive:
  "(sqlite3StrICmp a b = 0) = (folded a = folded b)
   \<and> sqlite3StrICmp b a = - sqlite3StrICmp a b
   \<and> (sqlite3StrICmp a b = 0 \<longrightarrow> sqlite3StrIHash (Some a) = sqlite3StrIHash (Some b))"
  by (auto simp: StrICmp_lexcmp lexcmp_0_iff zero_folded lexcmp_swap [of "folded b"] sqlite3StrIHash_def StrIHash_folded)

theorem StrICmp_case_insensitive_witness:
  "sqlite3StrICmp [65, 98] [97, 66, 0, 7] = 0 \<and> sqlite3StrIHash (Some [65, 98]) = sqlite3StrIHash (Some [97, 66, 0, 7])"
proof -
  have "folded [65, 98] = folded [97, 66, 0, 7]" by (simp add: UpperToLower_eq)
  then show ?thesis using StrICmp_case_insensitive [of "[65, 98]" "[97, 66, 0, 7]"] by blast
qed

text \<open>Quoting an identifier with any of the four opening quotes, doubling the closing quote
  inside, and removing the quotes in place gives the identifier back; the loop never runs into
  the terminator.\<close>

theorem Dequote_roundtrip:
  assumes "sqlite3Isquote q"
  shows "sqlite3Dequote (enquote q s) = Some s"
  using assms by (rule Dequote_enquote)

theorem Dequote_roundtrip_witness:
  "sqlite3Isquote 34 \<and> sqlite3Dequote [34, 97, 34, 34, 98, 34] = Some [97, 34, 98]"
proof -
  have q: "sqlite3Isquote 34" by (simp add: Isquote_eq)
  show ?thesis using q Dequote_roundtrip [OF q, of "[97, 34, 98]"] by (simp add: enquote_def closing_def)
qed

end
