(* ===== verification/Int_Arith.thy ===== *)
theory Int_Arith
  imports Sqlite_Prelude "HOL-Library.Signed_Division"
begin

section \<open>Checked 64-bit arithmetic and logarithmic estimates (util.c)\<close>

text \<open>
  The overflow-checked signed arithmetic used by the virtual machine's OP_Add, OP_Subtract and
  OP_Multiply, in the portable form the C source has for compilers without the GCC 5.4 overflow
  builtins, \<open>sqlite3AbsInt32\<close>, and the \<open>LogEst\<close> arithmetic of the query planner. A signed C integer
  is an \<open>int\<close> in the range of its width; C's division truncates, which is \<open>sdiv\<close>. Each
  operation returns the value of \<open>*pA\<close> after the call and the C return code.
\<close>

definition LARGEST_INT64 :: int where "LARGEST_INT64 = 9223372036854775807"
definition SMALLEST_INT64 :: int where "SMALLEST_INT64 = - 9223372036854775808"

lemmas int64_limits = LARGEST_INT64_def SMALLEST_INT64_def

definition in_i64 :: "int \<Rightarrow> bool" where
  "in_i64 x \<longleftrightarrow> SMALLEST_INT64 \<le> x \<and> x \<le> LARGEST_INT64"

subsection \<open>Addition, subtraction, multiplication\<close>

definition sqlite3AddInt64 :: "int \<Rightarrow> int \<Rightarrow> int \<times> int" where
  "sqlite3AddInt64 iA iB =
     (if 0 \<le> iB then
        (if 0 < iA \<and> LARGEST_INT64 - iA < iB then (iA, 1) else (iA + iB, 0))
      else
        (if iA < 0 \<and> - (iA + LARGEST_INT64) > iB + 1 then (iA, 1) else (iA + iB, 0)))"

definition sqlite3SubInt64 :: "int \<Rightarrow> int \<Rightarrow> int \<times> int" where
  "sqlite3SubInt64 iA iB =
     (if iB = SMALLEST_INT64 then (if 0 \<le> iA then (iA, 1) else (iA - iB, 0))
      else sqlite3AddInt64 iA (- iB))"

definition sqlite3MulInt64 :: "int \<Rightarrow> int \<Rightarrow> int \<times> int" where
  "sqlite3MulInt64 iA iB =
     (if 0 < iB then
        (if iA > LARGEST_INT64 sdiv iB then (iA, 1)
         else if iA < SMALLEST_INT64 sdiv iB then (iA, 1)
         else (iA * iB, 0))
      else if iB < 0 then
        (if 0 < iA then (if iB < SMALLEST_INT64 sdiv iA then (iA, 1) else (iA * iB, 0))
         else if iA < 0 then
           (if iB = SMALLEST_INT64 then (iA, 1)
            else if iA = SMALLEST_INT64 then (iA, 1)
            else if - iA > LARGEST_INT64 sdiv (- iB) then (iA, 1)
            else (iA * iB, 0))
         else (iA * iB, 0))
      else (iA * iB, 0))"

definition sqlite3AbsInt32 :: "int \<Rightarrow> int" where
  "sqlite3AbsInt32 x = (if 0 \<le> x then x else if x = - 2147483648 then 0x7fffffff else - x)"

text \<open>What the GCC builtins compute: the exact result if it fits, else nothing.\<close>

definition checked :: "int \<Rightarrow> int \<Rightarrow> int \<times> int" where
  "checked iA r = (if in_i64 r then (r, 0) else (iA, 1))"

lemma AddInt64_checked: "in_i64 iA \<Longrightarrow> in_i64 iB \<Longrightarrow> sqlite3AddInt64 iA iB = checked iA (iA + iB)"
  by (auto simp: sqlite3AddInt64_def checked_def in_i64_def int64_limits)

lemma SubInt64_checked: "in_i64 iA \<Longrightarrow> in_i64 iB \<Longrightarrow> sqlite3SubInt64 iA iB = checked iA (iA - iB)"
  by (auto simp: sqlite3SubInt64_def sqlite3AddInt64_def checked_def in_i64_def int64_limits)

lemma sdiv_pos: "0 \<le> a \<Longrightarrow> 0 < b \<Longrightarrow> (a :: int) sdiv b = a div b"
  by (cases "a = 0") (simp_all add: signed_divide_int_def)

lemma sdiv_neg: "a < 0 \<Longrightarrow> 0 < b \<Longrightarrow> (a :: int) sdiv b = - (- a div b)"
  by (simp add: signed_divide_int_def)

lemma sdiv_negR: "0 \<le> a \<Longrightarrow> b < 0 \<Longrightarrow> (a :: int) sdiv b = - (a div - b)"
  by (cases "a = 0") (simp_all add: signed_divide_int_def)

lemma le_div_iff:
  assumes "0 < b"
  shows "(x :: int) \<le> a div b \<longleftrightarrow> x * b \<le> a"
proof
  assume "x \<le> a div b"
  then have "x * b \<le> a div b * b" using assms by (simp add: mult_right_mono)
  also have "\<dots> \<le> a" using assms pos_mod_sign [of b a] div_mult_mod_eq [of a b] by linarith
  finally show "x * b \<le> a" .
next
  assume "x * b \<le> a"
  then have "x * b div b \<le> a div b" using assms by (intro zdiv_mono1)
  then show "x \<le> a div b" using assms by simp
qed

lemma MulInt64_checked:
  assumes "in_i64 iA" "in_i64 iB"
  shows "sqlite3MulInt64 iA iB = checked iA (iA * iB)"
proof -
  have L: "0 \<le> LARGEST_INT64" and S: "SMALLEST_INT64 < 0" by (simp_all add: int64_limits)
  consider "0 < iB" | "iB < 0" "0 < iA" | "iB < 0" "iA < 0" | "iB \<le> 0" "iA * iB = 0"
  proof -
    have "0 < iB \<or> (iB < 0 \<and> 0 < iA) \<or> (iB < 0 \<and> iA < 0) \<or> (iB \<le> 0 \<and> iA * iB = 0)"
      by (cases "iA = 0"; cases "iB = 0") auto
    then show ?thesis using that by blast
  qed
  then show ?thesis
  proof cases
    case 1
    have up: "(iA > LARGEST_INT64 sdiv iB) = (iA * iB > LARGEST_INT64)"
      using le_div_iff [OF 1, of iA LARGEST_INT64] 1 L by (simp add: sdiv_pos not_le [symmetric])
    have lo: "(iA < SMALLEST_INT64 sdiv iB) = (iA * iB < SMALLEST_INT64)"
      using le_div_iff [OF 1, of "- iA" "- SMALLEST_INT64"] 1 S by (simp add: sdiv_neg) linarith
    show ?thesis using 1 by (simp add: sqlite3MulInt64_def up lo checked_def in_i64_def)
  next
    case 2
    have lo: "(iB < SMALLEST_INT64 sdiv iA) = (iB * iA < SMALLEST_INT64)"
      using le_div_iff [OF 2(2), of "- iB" "- SMALLEST_INT64"] 2 S by (simp add: sdiv_neg) linarith
    have "iA * iB \<le> LARGEST_INT64" using 2 L mult_pos_neg [of iA iB] by simp
    then show ?thesis using 2 by (simp add: sqlite3MulInt64_def lo checked_def in_i64_def mult.commute not_less)
  next
    case 3
    have up: "(iA < LARGEST_INT64 sdiv iB) = (iA * iB > LARGEST_INT64)"
      using le_div_iff [of "- iB" "- iA" LARGEST_INT64] 3 L by (simp add: sdiv_negR not_le [symmetric]) linarith
    have pos: "0 < iA * iB" using 3 by (simp add: mult_neg_neg)
    have big: "LARGEST_INT64 < iA * iB" if "iA = SMALLEST_INT64 \<or> iB = SMALLEST_INT64"
    proof -
      have "(- iA) * 1 \<le> (- iA) * (- iB)" by (rule mult_left_mono) (use 3 in simp_all)
      moreover have "1 * (- iB) \<le> (- iA) * (- iB)" by (rule mult_right_mono) (use 3 in simp_all)
      ultimately have "- iA \<le> iA * iB" "- iB \<le> iA * iB" by simp_all
      with that show ?thesis by (auto simp: int64_limits)
    qed
    show ?thesis using 3 pos big by (auto simp: sqlite3MulInt64_def up [unfolded int64_limits] checked_def in_i64_def int64_limits)
  next
    case 4
    then have "sqlite3MulInt64 iA iB = (0, 0)" by (auto simp: sqlite3MulInt64_def)
    then show ?thesis using 4 L S by (simp only: checked_def in_i64_def) auto
  qed
qed

subsection \<open>Logarithmic estimates\<close>

definition LogEstAdd_x :: "int list" where
  "LogEstAdd_x = [10, 10, 9, 9, 8, 8, 7, 7, 7, 6, 6, 6, 5, 5, 5, 4, 4, 4, 4, 3, 3, 3, 3, 3, 3, 2, 2, 2, 2, 2, 2, 2]"

definition sqlite3LogEstAdd :: "int \<Rightarrow> int \<Rightarrow> int" where
  "sqlite3LogEstAdd a b =
     (if b \<le> a then
        (if a > b + 49 then a else if a > b + 31 then a + 1 else a + LogEstAdd_x ! nat (a - b))
      else
        (if b > a + 49 then b else if b > a + 31 then b + 1 else b + LogEstAdd_x ! nat (b - a)))"

definition LogEst_a :: "int list" where
  "LogEst_a = [0, 2, 3, 5, 6, 7, 8, 9]"

function LogEst_up :: "nat \<Rightarrow> int \<Rightarrow> nat \<times> int" where
  "LogEst_up x y = (if 2 \<le> x \<and> x < 8 then LogEst_up (2 * x) (y - 10) else (x, y))"
  by pat_completeness auto
termination by (relation "measure (\<lambda>(x, _). 8 - x)") auto

fun LogEst_down4 :: "nat \<Rightarrow> int \<Rightarrow> nat \<times> int" where
  "LogEst_down4 x y = (if 255 < x then LogEst_down4 (x div 16) (y + 40) else (x, y))"

fun LogEst_down1 :: "nat \<Rightarrow> int \<Rightarrow> nat \<times> int" where
  "LogEst_down1 x y = (if 15 < x then LogEst_down1 (x div 2) (y + 10) else (x, y))"

declare LogEst_up.simps [simp del] LogEst_down4.simps [simp del] LogEst_down1.simps [simp del]

definition sqlite3LogEst :: "nat \<Rightarrow> int" where
  "sqlite3LogEst x =
     (if x < 2 then 0
      else
        (let (x, y) = (if x < 8 then LogEst_up x 40
                       else (let (x, y) = LogEst_down4 x 40 in LogEst_down1 x y))
         in LogEst_a ! (x mod 8) + y - 10))"

text \<open>\<open>x\<close> is a 16-bit signed value; the callers pass non-negative estimates, for which C's
  truncating division and remainder are \<open>div\<close> and \<open>mod\<close>. The shift keeps 64 bits.\<close>

definition LogEst_frac :: "nat \<Rightarrow> nat" where
  "LogEst_frac n = (if 5 \<le> n then n - 2 else if 1 \<le> n then n - 1 else n)"

definition sqlite3LogEstToInt :: "nat \<Rightarrow> nat" where
  "sqlite3LogEstToInt x =
     (let n = x mod 10; x = x div 10; n = LogEst_frac n in
      if 60 < x then 9223372036854775807
      else if 3 \<le> x then ((n + 8) * 2 ^ (x - 3)) mod 2 ^ 64 else (n + 8) div 2 ^ (3 - x))"

lemma LogEst_down1_shift:
  "8 \<le> x \<Longrightarrow> \<exists>k. LogEst_down1 x y = (x div 2 ^ k, y + 10 * int k) \<and> 8 \<le> x div 2 ^ k \<and> x div 2 ^ k < 16"
proof (induction x y rule: LogEst_down1.induct)
  case (1 x y)
  show ?case
  proof (cases "15 < x")
    case True
    then have "8 \<le> x div 2" by simp
    with 1 True obtain k where k: "LogEst_down1 (x div 2) (y + 10) = (x div 2 div 2 ^ k, y + 10 + 10 * int k)"
      "8 \<le> x div 2 div 2 ^ k" "x div 2 div 2 ^ k < 16" by auto
    with True show ?thesis
      by (intro exI [of _ "Suc k"]) (simp add: LogEst_down1.simps [of x] div_mult2_eq)
  next
    case False
    with 1 show ?thesis by (intro exI [of _ 0]) (simp add: LogEst_down1.simps [of x])
  qed
qed

lemma LogEst_down4_shift:
  "8 \<le> x \<Longrightarrow> \<exists>k. LogEst_down4 x y = (x div 2 ^ k, y + 10 * int k) \<and> 8 \<le> x div 2 ^ k"
proof (induction x y rule: LogEst_down4.induct)
  case (1 x y)
  show ?case
  proof (cases "255 < x")
    case True
    then have "8 \<le> x div 16" by simp
    with 1 True obtain k where k: "LogEst_down4 (x div 16) (y + 40) = (x div 16 div 2 ^ k, y + 40 + 10 * int k)"
      "8 \<le> x div 16 div 2 ^ k" by auto
    with True show ?thesis
      by (intro exI [of _ "k + 4"]) (simp add: LogEst_down4.simps [of x] power_add div_mult2_eq [symmetric] mult.commute)
  next
    case False
    with 1 show ?thesis by (intro exI [of _ 0]) (simp add: LogEst_down4.simps [of x])
  qed
qed

text \<open>For \<open>x \<ge> 8\<close> the estimate records the position and the three bits after the leading one.\<close>

lemma LogEst_large:
  assumes "8 \<le> x"
  obtains k where "8 \<le> x div 2 ^ k" "x div 2 ^ k < 16"
    "sqlite3LogEst x = 30 + 10 * int k + LogEst_a ! (x div 2 ^ k mod 8)"
proof -
  obtain k where k: "LogEst_down4 x 40 = (x div 2 ^ k, 40 + 10 * int k)" "8 \<le> x div 2 ^ k"
    using LogEst_down4_shift [OF assms] by blast
  obtain l where l: "LogEst_down1 (x div 2 ^ k) (40 + 10 * int k) = (x div 2 ^ k div 2 ^ l, 40 + 10 * int k + 10 * int l)"
    "8 \<le> x div 2 ^ k div 2 ^ l" "x div 2 ^ k div 2 ^ l < 16"
    using LogEst_down1_shift [OF k(2)] by blast
  show ?thesis
    using k l assms
    by (intro that [of "k + l"]) (simp_all add: sqlite3LogEst_def power_add div_mult2_eq)
qed

lemma LogEst_small: "sqlite3LogEst 0 = 0" "sqlite3LogEst 1 = 0" "sqlite3LogEst 2 = 10" "sqlite3LogEst 3 = 16"
  "sqlite3LogEst 4 = 20" "sqlite3LogEst 5 = 23" "sqlite3LogEst 6 = 26" "sqlite3LogEst 7 = 28"
  by (simp_all add: sqlite3LogEst_def LogEst_up.simps LogEst_a_def)

lemma nat8_cases: "8 \<le> m \<Longrightarrow> m < 16 \<Longrightarrow> m = 8 \<or> m = 9 \<or> m = 10 \<or> m = 11 \<or> m = 12 \<or> m = 13 \<or> m = 14 \<or> m = (15::nat)"
  by linarith

lemma nat_upto7: "x < 8 \<Longrightarrow> x = 0 \<or> x = 1 \<or> x = 2 \<or> x = 3 \<or> x = 4 \<or> x = 5 \<or> x = 6 \<or> x = (7::nat)"
  by linarith

lemma LogEst_a_inverse:
  assumes "i < 8"
  shows "LogEst_a ! i = int (nat (LogEst_a ! i)) \<and> nat (LogEst_a ! i) < 10 \<and> LogEst_frac (nat (LogEst_a ! i)) = i"
  using nat_upto7 [OF assms] by (elim disjE) (simp_all add: LogEst_a_def LogEst_frac_def)

lemma LogEstToInt_decode:
  assumes "8 \<le> m" "m < 16" "k + 3 \<le> 60"
  shows "sqlite3LogEstToInt (nat (30 + 10 * int k + LogEst_a ! (m mod 8))) = m * 2 ^ k"
proof -
  have "m * 2 ^ k < 16 * 2 ^ k" using assms by simp
  also have "(16 :: nat) * 2 ^ k \<le> 16 * 2 ^ 57" using assms by (intro mult_left_mono power_increasing) auto
  finally have b: "m * 2 ^ k < 2 ^ 64" by simp
  define c where "c = nat (LogEst_a ! (m mod 8))"
  have c: "LogEst_a ! (m mod 8) = int c" "c < 10" "LogEst_frac c = m mod 8"
    using LogEst_a_inverse [of "m mod 8"] by (simp_all add: c_def)
  have m: "m mod 8 + 8 = m" using assms by (simp add: le_mod_geq)
  have n: "nat (30 + 10 * int k + int c) = 10 * (k + 3) + c" by simp
  have e: "10 * (k + 3) + c = c + (k + 3) * 10" by simp
  have d: "(10 * (k + 3) + c) mod 10 = c" "(10 * (k + 3) + c) div 10 = k + 3"
    using c(2) mod_mult_self1 [of c "k + 3" 10] div_mult_self1 [of 10 c "k + 3"] unfolding e by simp_all
  have "sqlite3LogEstToInt (10 * (k + 3) + c) = (m mod 8 + 8) * 2 ^ k mod 2 ^ 64"
    using assms(3) unfolding sqlite3LogEstToInt_def Let_def d c(3) by simp
  then show ?thesis using b unfolding c(1) n m by simp
qed

text \<open>Both directions, for every input a table row count can have.\<close>

lemma LogEst_decode_bounds:
  assumes "1 \<le> x" "x < 2 ^ 61"
  shows "sqlite3LogEstToInt (nat (sqlite3LogEst x)) \<le> x
    \<and> 8 * (x - sqlite3LogEstToInt (nat (sqlite3LogEst x))) \<le> x"
proof (cases "x < 8")
  case True
  with assms nat_upto7 [OF True] show ?thesis
    by (elim disjE) (simp_all add: LogEst_small [simplified] sqlite3LogEstToInt_def LogEst_frac_def)
next
  case False
  then have "8 \<le> x" by simp
  then obtain k where k: "8 \<le> x div 2 ^ k" "x div 2 ^ k < 16"
    "sqlite3LogEst x = 30 + 10 * int k + LogEst_a ! (x div 2 ^ k mod 8)" by (rule LogEst_large)
  have lo: "8 * 2 ^ k \<le> x"
    using k(1) by (metis mult.commute div_times_less_eq_dividend mult_le_mono2 order.trans)
  have "k + 3 \<le> 60"
  proof (rule ccontr)
    assume "\<not> k + 3 \<le> 60"
    then have "(2::nat) ^ 61 \<le> 2 ^ (k + 3)" by (intro power_increasing) auto
    with lo assms(2) show False by (simp add: power_add)
  qed
  with k have r: "sqlite3LogEstToInt (nat (sqlite3LogEst x)) = x div 2 ^ k * 2 ^ k"
    by (simp add: LogEstToInt_decode)
  have "x mod 2 ^ k < 2 ^ k" by simp
  moreover have "x = x div 2 ^ k * 2 ^ k + x mod 2 ^ k" by (simp only: div_mult_mod_eq)
  ultimately show ?thesis unfolding r using lo by linarith
qed

lemma LogEst_a_mono:
  assumes "i \<le> j" "j < 8"
  shows "0 \<le> LogEst_a ! i \<and> LogEst_a ! i \<le> LogEst_a ! j \<and> LogEst_a ! j < 10"
proof -
  have "sorted LogEst_a" "length LogEst_a = 8" "LogEst_a ! 0 = 0" "LogEst_a ! 7 = 9"
    by (simp_all add: LogEst_a_def)
  then show ?thesis
    using assms sorted_nth_mono [of LogEst_a 0 i] sorted_nth_mono [of LogEst_a i j] sorted_nth_mono [of LogEst_a j 7]
    by simp
qed

lemma LogEst_mono:
  assumes "x \<le> y"
  shows "sqlite3LogEst x \<le> sqlite3LogEst y"
proof (cases "x < 8")
  case True
  then have x: "sqlite3LogEst x \<le> 28"
    using nat_upto7 [OF True] by (elim disjE) (simp_all add: LogEst_small [simplified])
  show ?thesis
  proof (cases "y < 8")
    case True
    have "sorted (map sqlite3LogEst [0, 1, 2, 3, 4, 5, 6, 7])" by (simp add: LogEst_small [simplified])
    moreover have "[0, 1, 2, 3, 4, 5, 6, 7] = [0..<8]" by (simp add: upt_rec)
    ultimately have "sorted (map sqlite3LogEst [0..<8])" by (simp only:)
    then have "map sqlite3LogEst [0..<8] ! x \<le> map sqlite3LogEst [0..<8] ! y"
      using assms True by (intro sorted_nth_mono) simp_all
    then show ?thesis using True assms by simp
  next
    case False
    then have "8 \<le> y" by simp
    then obtain l where "8 \<le> y div 2 ^ l" "sqlite3LogEst y = 30 + 10 * int l + LogEst_a ! (y div 2 ^ l mod 8)"
      by (rule LogEst_large)
    then show ?thesis using x LogEst_a_mono [of "y div 2 ^ l mod 8" "y div 2 ^ l mod 8"] by simp
  qed
next
  case False
  then have "8 \<le> x" "8 \<le> y" using assms by simp_all
  obtain k where k: "8 \<le> x div 2 ^ k" "x div 2 ^ k < 16"
    "sqlite3LogEst x = 30 + 10 * int k + LogEst_a ! (x div 2 ^ k mod 8)" using \<open>8 \<le> x\<close> by (rule LogEst_large)
  obtain l where l: "8 \<le> y div 2 ^ l" "y div 2 ^ l < 16"
    "sqlite3LogEst y = 30 + 10 * int l + LogEst_a ! (y div 2 ^ l mod 8)" using \<open>8 \<le> y\<close> by (rule LogEst_large)
  have kl: "k \<le> l"
  proof (rule ccontr)
    assume "\<not> k \<le> l"
    then have "x div 2 ^ k \<le> x div 2 ^ Suc l" by (intro div_le_mono2 power_increasing) auto
    also have "\<dots> \<le> y div 2 ^ Suc l" using assms by (rule div_le_mono)
    also have "\<dots> = y div 2 ^ l div 2" by (simp add: div_mult2_eq [symmetric] mult.commute)
    finally show False using k(1) l(2) by linarith
  qed
  show ?thesis
  proof (cases "k = l")
    case True
    have "x div 2 ^ l \<le> y div 2 ^ l" using assms by (rule div_le_mono)
    moreover have "m mod 8 = m - 8" if "8 \<le> m" "m < 16" for m :: nat using that by (simp add: le_mod_geq)
    ultimately show ?thesis
      using True k l LogEst_a_mono [of "x div 2 ^ k mod 8" "y div 2 ^ l mod 8"] by simp
  next
    case False
    then show ?thesis
      using kl k l LogEst_a_mono [of "x div 2 ^ k mod 8" "x div 2 ^ k mod 8"]
        LogEst_a_mono [of "y div 2 ^ l mod 8" "y div 2 ^ l mod 8"] by simp
  qed
qed

subsection \<open>Properties\<close>

text \<open>The portable overflow tests agree with exact arithmetic for all pairs of 64-bit values:
  an operation stores the exact result and returns 0 when it fits, and otherwise leaves the operand
  unchanged and returns 1.\<close>

theorem Int64_overflow_exact:
  assumes "in_i64 iA" "in_i64 iB"
  shows "sqlite3AddInt64 iA iB = checked iA (iA + iB) \<and> sqlite3SubInt64 iA iB = checked iA (iA - iB)
    \<and> sqlite3MulInt64 iA iB = checked iA (iA * iB)"
  using assms by (simp add: AddInt64_checked SubInt64_checked MulInt64_checked)

theorem Int64_overflow_exact_witness:
  "in_i64 9223372036854775807 \<and> in_i64 (- 2) \<and> sqlite3MulInt64 9223372036854775807 (- 2) = (9223372036854775807, 1)"
proof -
  have h: "in_i64 9223372036854775807" "in_i64 (- 2)" by (simp_all add: in_i64_def int64_limits)
  show ?thesis using h Int64_overflow_exact [OF h] by (simp add: checked_def in_i64_def int64_limits)
qed

text \<open>\<open>sqlite3LogEst\<close> is monotone, and converting the estimate of a count below \<open>2^61\<close> back with
  \<open>sqlite3LogEstToInt\<close> never overestimates and loses at most an eighth of the count.\<close>

theorem LogEst_monotone_and_accurate:
  assumes "x \<le> y" "1 \<le> x" "x < 2 ^ 61"
  shows "sqlite3LogEst x \<le> sqlite3LogEst y
    \<and> sqlite3LogEstToInt (nat (sqlite3LogEst x)) \<le> x
    \<and> 8 * (x - sqlite3LogEstToInt (nat (sqlite3LogEst x))) \<le> x"
  using assms LogEst_mono LogEst_decode_bounds by blast

theorem LogEst_monotone_and_accurate_witness:
  "sqlite3LogEst 1000 \<le> sqlite3LogEst 1001 \<and> sqlite3LogEstToInt (nat (sqlite3LogEst 1000)) \<le> 1000"
  using LogEst_monotone_and_accurate [of 1000 1001] by simp

end
