(* ===== verification/Num_Text.thy ===== *)
theory Num_Text
  imports Ctype Int_Arith
begin

section \<open>Integers as text (util.c)\<close>

text \<open>
  The conversions between integers and their text: \<open>sqlite3Int64ToText\<close>, \<open>sqlite3Atoi64\<close> with its
  overflow classification, the literal parsers \<open>sqlite3DecOrHexToI64\<close>, \<open>sqlite3GetInt32\<close> and
  \<open>sqlite3GetUInt32\<close>, and hexadecimal blobs. A \<open>char*\<close> is the bytes from its address on; a pointer
  into it is an offset. Functions with an output parameter return it beside the C return value.
\<close>

subsection \<open>Parsing decimal text\<close>

definition SQLITE_UTF8 :: nat where "SQLITE_UTF8 = 1"
definition SQLITE_UTF16LE :: nat where "SQLITE_UTF16LE = 2"
definition SQLITE_UTF16BE :: nat where "SQLITE_UTF16BE = 3"

definition digit_of :: "u8 \<Rightarrow> nat" where
  "digit_of c = unat c - 48"

text \<open>\<open>(unsigned)zNum[i]-'0'<=9\<close>.\<close>

definition is_dec :: "u8 \<Rightarrow> bool" where
  "is_dec c \<longleftrightarrow> 48 \<le> unat c \<and> unat c \<le> 57"

text \<open>A loop \<open>while( zNum<zEnd && P(*zNum) ) zNum+=incr\<close>; the step is 1 or 2.\<close>

function skip_while :: "(u8 \<Rightarrow> bool) \<Rightarrow> bytes \<Rightarrow> nat \<Rightarrow> nat \<Rightarrow> nat \<Rightarrow> nat" where
  "skip_while P z incr zEnd p =
     (if 0 < incr \<and> p < zEnd \<and> P (byte_at z p) then skip_while P z incr zEnd (p + incr) else p)"
  by pat_completeness auto
termination by (relation "measure (\<lambda>(_, _, _, e, p). e - p)") auto

function atoi_digits :: "bytes \<Rightarrow> nat \<Rightarrow> nat \<Rightarrow> nat \<Rightarrow> nat \<Rightarrow> u64 \<Rightarrow> nat \<times> u64" where
  "atoi_digits z incr zEnd p i u =
     (if 0 < incr \<and> p + i < zEnd \<and> is_dec (byte_at z (p + i))
      then atoi_digits z incr zEnd p (i + incr) (u * 10 + of_nat (digit_of (byte_at z (p + i))))
      else (i, u))"
  by pat_completeness auto
termination by (relation "measure (\<lambda>(_, _, e, p, i, _). e - (p + i))") auto

function atoi_trailing :: "bytes \<Rightarrow> nat \<Rightarrow> nat \<Rightarrow> nat \<Rightarrow> int \<Rightarrow> int" where
  "atoi_trailing z incr zEnd q rc =
     (if \<not> sqlite3Isspace (byte_at z q) then 1
      else if 0 < incr \<and> q + incr < zEnd then atoi_trailing z incr zEnd (q + incr) rc
      else rc)"
  by pat_completeness auto
termination by (relation "measure (\<lambda>(_, _, e, q, _). e - q)") auto

declare skip_while.simps [simp del] atoi_digits.simps [simp del] atoi_trailing.simps [simp del]

definition pow63 :: "nat list" where
  "pow63 = [9, 2, 2, 3, 3, 7, 2, 0, 3, 6, 8, 5, 4, 7, 7, 5, 8, 0]"

text \<open>The \<open>for(i=0; c==0 && i<18; i++)\<close> loop, over the digits of \<open>pow63\<close> that are left.\<close>

fun compare2pow63_loop :: "bytes \<Rightarrow> nat \<Rightarrow> nat \<Rightarrow> nat list \<Rightarrow> int \<Rightarrow> int" where
  "compare2pow63_loop z incr i [] c = c"
| "compare2pow63_loop z incr i (d # ds) c =
     (if c = 0 then compare2pow63_loop z incr (i + 1) ds ((int (unat (byte_at z (i * incr))) - int (48 + d)) * 10)
      else c)"

definition compare2pow63 :: "bytes \<Rightarrow> nat \<Rightarrow> int" where
  "compare2pow63 z incr =
     (let c = compare2pow63_loop z incr 0 pow63 0 in
      if c = 0 then int (unat (byte_at z (18 * incr))) - 56 else c)"

definition LARGEST_UINT_HALF :: u64 where "LARGEST_UINT_HALF = 0x7fffffffffffffff"

text \<open>The scan of the text: start and end offsets, and whether UTF-16 text was cut at a character
  outside Latin-1.\<close>

definition atoi_frame :: "bytes \<Rightarrow> nat \<Rightarrow> nat \<Rightarrow> nat \<times> nat \<times> nat \<times> bool" where
  "atoi_frame z len enc =
     (if enc = SQLITE_UTF8 then (1, 0, len, False)
      else (let len = 2 * (len div 2);
                i = skip_while (\<lambda>c. c = 0) z 2 len (3 - enc);
                nonNum = i < len;
                zEnd = (if even i then i + 1 else i - 1)
            in (2, enc mod 2, zEnd, nonNum)))"

text \<open>The classification of the digits found: \<open>i\<close> characters at \<open>p\<close> with the wrapped value \<open>u\<close>.\<close>

definition atoi_num :: "bool \<Rightarrow> u64 \<Rightarrow> int" where
  "atoi_num neg u =
     (if u > LARGEST_UINT_HALF then (if neg then SMALLEST_INT64 else LARGEST_INT64)
      else if neg then - uint u else uint u)"

definition atoi_rc :: "bytes \<Rightarrow> nat \<Rightarrow> nat \<Rightarrow> bool \<Rightarrow> nat \<Rightarrow> nat \<Rightarrow> nat \<Rightarrow> int" where
  "atoi_rc z incr zEnd nonNum zStart p i =
     (if i = 0 \<and> zStart = p then -1
      else if nonNum then 1
      else if p + i < zEnd then atoi_trailing z incr zEnd (p + i) 0
      else 0)"

definition atoi_result :: "bytes \<Rightarrow> nat \<Rightarrow> bool \<Rightarrow> nat \<Rightarrow> nat \<Rightarrow> u64 \<Rightarrow> int \<Rightarrow> int \<times> int" where
  "atoi_result z incr neg p i u rc =
     (if i < 19 * incr then (rc, atoi_num neg u)
      else (let j = (if i > 19 * incr then 1 else compare2pow63 (drop p z) incr) in
            if j < 0 then (rc, atoi_num neg u)
            else (let num = (if neg then SMALLEST_INT64 else LARGEST_INT64) in
                  if j > 0 then (2, num)
                  else (if neg then rc else 3, num))))"

definition sqlite3Atoi64 :: "bytes \<Rightarrow> nat \<Rightarrow> nat \<Rightarrow> int \<times> int" where
  "sqlite3Atoi64 z len enc =
     (let (incr, p, zEnd, nonNum) = atoi_frame z len enc;
          p = skip_while sqlite3Isspace z incr zEnd p;
          neg = (p < zEnd \<and> byte_at z p = 45);
          zStart = (if p < zEnd \<and> (byte_at z p = 45 \<or> byte_at z p = 43) then p + incr else p);
          p = skip_while (\<lambda>c. c = 48) z incr zEnd zStart;
          (i, u) = atoi_digits z incr zEnd p 0 0
      in atoi_result z incr neg p i u (atoi_rc z incr zEnd nonNum zStart p i))"

subsection \<open>Printing\<close>

text \<open>The table \<open>sqlite3DigitPairs\<close>, as digit values.\<close>

definition sqlite3DigitPairs :: "nat list" where
  "sqlite3DigitPairs =
   [0, 0, 0, 1, 0, 2, 0, 3, 0, 4, 0, 5, 0, 6, 0, 7, 0, 8, 0, 9,
    1, 0, 1, 1, 1, 2, 1, 3, 1, 4, 1, 5, 1, 6, 1, 7, 1, 8, 1, 9,
    2, 0, 2, 1, 2, 2, 2, 3, 2, 4, 2, 5, 2, 6, 2, 7, 2, 8, 2, 9,
    3, 0, 3, 1, 3, 2, 3, 3, 3, 4, 3, 5, 3, 6, 3, 7, 3, 8, 3, 9,
    4, 0, 4, 1, 4, 2, 4, 3, 4, 4, 4, 5, 4, 6, 4, 7, 4, 8, 4, 9,
    5, 0, 5, 1, 5, 2, 5, 3, 5, 4, 5, 5, 5, 6, 5, 7, 5, 8, 5, 9,
    6, 0, 6, 1, 6, 2, 6, 3, 6, 4, 6, 5, 6, 6, 6, 7, 6, 8, 6, 9,
    7, 0, 7, 1, 7, 2, 7, 3, 7, 4, 7, 5, 7, 6, 7, 7, 7, 8, 7, 9,
    8, 0, 8, 1, 8, 2, 8, 3, 8, 4, 8, 5, 8, 6, 8, 7, 8, 8, 8, 9,
    9, 0, 9, 1, 9, 2, 9, 3, 9, 4, 9, 5, 9, 6, 9, 7, 9, 8, 9, 9]"

definition digit_pair :: "nat \<Rightarrow> bytes" where
  "digit_pair kk = [of_nat (48 + sqlite3DigitPairs ! (2 * kk)), of_nat (48 + sqlite3DigitPairs ! (2 * kk + 1))]"

text \<open>The buffer \<open>u.a\<close> is filled from its end; \<open>acc\<close> is what it holds from index \<open>i\<close> on.\<close>

fun Int64ToText_loop :: "nat \<Rightarrow> bytes \<Rightarrow> nat \<times> bytes" where
  "Int64ToText_loop x acc =
     (if 10 \<le> x then Int64ToText_loop (x div 100) (digit_pair (x mod 100) @ acc) else (x, acc))"

declare Int64ToText_loop.simps [simp del]

definition sqlite3Int64ToText :: "int \<Rightarrow> bytes" where
  "sqlite3Int64ToText v =
     (if v = 0 then [48]
      else (let x = (if 0 < v then nat v else if v = SMALLEST_INT64 then 2 ^ 63 else nat (- v));
                (x, acc) = Int64ToText_loop x [];
                acc = (if x \<noteq> 0 then of_nat (48 + x) # acc else acc)
            in if v < 0 then 45 # acc else acc))"

subsection \<open>Scanning lemmas\<close>

definition dec_from :: "nat \<Rightarrow> bytes \<Rightarrow> nat" where
  "dec_from v ds = foldl (\<lambda>v d. v * 10 + digit_of d) v ds"

abbreviation dec_val :: "bytes \<Rightarrow> nat" where "dec_val \<equiv> dec_from 0"

lemma dec_from_simps [simp]:
  "dec_from v [] = v" "dec_from v (d # ds) = dec_from (v * 10 + digit_of d) ds"
  "dec_from v (xs @ ys) = dec_from (dec_from v xs) ys"
  by (simp_all add: dec_from_def)

lemma dec_from_eq: "dec_from v ds = v * 10 ^ length ds + dec_val ds"
proof (induction ds arbitrary: v)
  case Nil
  then show ?case by simp
next
  case (Cons d ds)
  have "dec_from v (d # ds) = (v * 10 + digit_of d) * 10 ^ length ds + dec_val ds"
    unfolding dec_from_simps by (rule Cons.IH)
  moreover have "dec_val (d # ds) = digit_of d * 10 ^ length ds + dec_val ds"
    unfolding dec_from_simps using Cons.IH [of "digit_of d"] by simp
  ultimately show ?case by (simp only: distrib_right mult.assoc power_Suc length_Cons)
qed

lemma digit_of_less: "is_dec d \<Longrightarrow> digit_of d < 10"
  unfolding is_dec_def digit_of_def by linarith

lemma dec_val_less: "list_all is_dec ds \<Longrightarrow> dec_val ds < 10 ^ length ds"
proof (induction ds)
  case Nil
  then show ?case by simp
next
  case (Cons d ds)
  then have "dec_val ds < 10 ^ length ds" "digit_of d \<le> 9" using digit_of_less [of d] by auto
  then have "digit_of d * 10 ^ length ds + dec_val ds < 9 * 10 ^ length ds + 10 ^ length ds"
    by (intro add_le_less_mono mult_right_mono) auto
  then show ?case by (simp add: dec_from_eq [of "digit_of d"])
qed

lemma dec_val_ge:
  assumes "list_all is_dec (d # ds)" "d \<noteq> 48"
  shows "10 ^ length ds \<le> dec_val (d # ds)"
proof -
  have "unat d \<noteq> 48"
  proof
    assume "unat d = 48"
    then have "of_nat (unat d) = (of_nat 48 :: u8)" by (simp only:)
    then show False using assms(2) by simp
  qed
  moreover have "48 \<le> unat d" using assms(1) by (simp add: is_dec_def)
  ultimately have "1 \<le> digit_of d" unfolding digit_of_def by simp
  then have "1 * 10 ^ length ds \<le> digit_of d * 10 ^ length ds" by (intro mult_right_mono) auto
  moreover have "dec_val (d # ds) = digit_of d * 10 ^ length ds + dec_val ds"
    using dec_from_eq [of "digit_of d" ds] by simp
  ultimately show ?thesis by linarith
qed

definition window :: "bytes \<Rightarrow> nat \<Rightarrow> bytes \<Rightarrow> bool" where
  "window z p xs \<longleftrightarrow> (\<forall>k < length xs. byte_at z (p + k) = xs ! k)"

lemma window_Nil [simp]: "window z p []"
  by (simp add: window_def)

lemma window_Cons [simp]: "window z p (x # xs) \<longleftrightarrow> byte_at z p = x \<and> window z (Suc p) xs"
  by (auto simp: window_def nth_Cons' less_Suc_eq_0_disj)

lemma window_append: "window z p (xs @ ys) \<longleftrightarrow> window z p xs \<and> window z (p + length xs) ys"
  by (induction xs arbitrary: p) (simp_all add: add.assoc)

lemma window_self: "window (xs @ rest) 0 xs"
  by (simp add: window_def byte_at_def nth_append)

lemma skip_while_window:
  assumes "window z p xs" "list_all P xs" "p + length xs \<le> e" "p + length xs = e \<or> \<not> P (byte_at z (p + length xs))"
  shows "skip_while P z (Suc 0) e p = p + length xs"
  using assms
proof (induction xs arbitrary: p)
  case Nil
  then show ?case by (subst skip_while.simps) auto
next
  case (Cons x xs)
  then show ?case by (subst skip_while.simps) auto
qed

lemma atoi_digits_window:
  assumes "window z (p + i) ds" "list_all is_dec ds" "p + i + length ds \<le> e"
    "p + i + length ds = e \<or> \<not> is_dec (byte_at z (p + i + length ds))"
  shows "atoi_digits z (Suc 0) e p i (of_nat v) = (i + length ds, of_nat (dec_from v ds))"
  using assms
proof (induction ds arbitrary: i v)
  case Nil
  then show ?case by (subst atoi_digits.simps) auto
next
  case (Cons d ds)
  have "atoi_digits z (Suc 0) e p i (of_nat v) = atoi_digits z (Suc 0) e p (Suc i) (of_nat (v * 10 + digit_of d))"
    using Cons.prems by (subst atoi_digits.simps) auto
  also have "\<dots> = (Suc i + length ds, of_nat (dec_from (v * 10 + digit_of d) ds))"
    using Cons.prems by (intro Cons.IH) auto
  finally show ?case by simp
qed

lemma atoi_trailing_window:
  assumes "window z q ts" "ts \<noteq> []" "e = q + length ts"
  shows "atoi_trailing z (Suc 0) e q rc = (if list_all sqlite3Isspace ts then rc else 1)"
  using assms
proof (induction ts arbitrary: q)
  case Nil
  then show ?case by simp
next
  case (Cons c ts)
  then show ?case by (cases "ts = []") (subst atoi_trailing.simps; auto)+
qed

lemma compare2pow63_loop_nonzero: "c \<noteq> 0 \<Longrightarrow> compare2pow63_loop z incr i ds c = c"
  by (cases ds) auto

definition nat_val :: "nat \<Rightarrow> nat list \<Rightarrow> nat" where
  "nat_val v es = foldl (\<lambda>v d. v * 10 + d) v es"

lemma nat_val_simps [simp]: "nat_val v [] = v" "nat_val v (e # es) = nat_val (v * 10 + e) es"
  by (simp_all add: nat_val_def)

lemma sgn_lex:
  fixes a b A B m :: nat
  assumes "A < m" "B < m" "a \<noteq> b"
  shows "sgn (int (a * m + A) - int (b * m + B)) = sgn (int a - int b)"
proof (cases "a < b")
  case True
  then have "(a + 1) * m \<le> b * m" by (intro mult_right_mono) auto
  then have "a * m + A < b * m + B" using assms(1) unfolding distrib_right by linarith
  then have "int (a * m + A) - int (b * m + B) < 0" by (simp only: of_nat_less_iff diff_less_0_iff_less)
  then show ?thesis using True by (simp only: sgn_neg)
next
  case False
  then have "(b + 1) * m \<le> a * m" using assms by (intro mult_right_mono) auto
  then have "b * m + B < a * m + A" using assms(2) unfolding distrib_right by linarith
  then have "0 < int (a * m + A) - int (b * m + B)" by (simp only: of_nat_less_iff diff_gt_0_iff_gt)
  moreover have "b < a" using False assms by simp
  ultimately show ?thesis by (simp only: sgn_pos)
qed

lemma nat_val_eq: "nat_val v es = v * 10 ^ length es + nat_val 0 es"
proof (induction es arbitrary: v)
  case Nil
  then show ?case by simp
next
  case (Cons e es)
  have "nat_val v (e # es) = (v * 10 + e) * 10 ^ length es + nat_val 0 es"
    unfolding nat_val_simps by (rule Cons.IH)
  moreover have "nat_val 0 (e # es) = e * 10 ^ length es + nat_val 0 es"
    unfolding nat_val_simps using Cons.IH [of e] by simp
  ultimately show ?case by (simp only: distrib_right mult.assoc power_Suc length_Cons)
qed

lemma nat_val_less: "list_all (\<lambda>e. e < 10) es \<Longrightarrow> nat_val 0 es < 10 ^ length es"
proof (induction es)
  case Nil
  then show ?case by simp
next
  case (Cons e es)
  then have "nat_val 0 es < 10 ^ length es" "e \<le> 9" by auto
  then have "e * 10 ^ length es + nat_val 0 es < 9 * 10 ^ length es + 10 ^ length es"
    by (intro add_le_less_mono mult_right_mono) auto
  then show ?case by (simp add: nat_val_eq [of e])
qed

lemma compare2pow63_loop_sign:
  assumes "window z i ds" "list_all is_dec ds" "length ds = length es" "list_all (\<lambda>e. e < 10) es"
  shows "sgn (compare2pow63_loop z (Suc 0) i es 0) = sgn (int (dec_val ds) - int (nat_val 0 es))"
  using assms
proof (induction es arbitrary: i ds)
  case Nil
  then show ?case by simp
next
  case (Cons e es)
  then obtain d ds' where ds: "ds = d # ds'" "length ds' = length es" by (cases ds) auto
  have d: "48 \<le> unat d" "byte_at z i = d" "is_dec d" using Cons.prems ds by (auto simp: is_dec_def)
  then have c: "int (unat (byte_at z i)) - int (48 + e) = int (digit_of d) - int e" by (simp add: digit_of_def)
  have v: "dec_val ds = digit_of d * 10 ^ length es + dec_val ds'" "nat_val 0 (e # es) = e * 10 ^ length es + nat_val 0 es"
    using dec_from_eq [of "digit_of d" ds'] nat_val_eq [of e es] ds by simp_all
  show ?case
  proof (cases "digit_of d = e")
    case True
    have "sgn (compare2pow63_loop z (Suc 0) (Suc i) es 0) = sgn (int (dec_val ds') - int (nat_val 0 es))"
      using Cons.prems ds by (intro Cons.IH) auto
    moreover have "compare2pow63_loop z (Suc 0) i (e # es) 0 = compare2pow63_loop z (Suc 0) (Suc i) es 0"
      using c True by simp
    ultimately show ?thesis using True unfolding v by simp
  next
    case False
    have "compare2pow63_loop z (Suc 0) i (e # es) 0 = (int (digit_of d) - int e) * 10"
      using c False by (simp add: compare2pow63_loop_nonzero)
    moreover have "sgn (int (dec_val ds) - int (nat_val 0 (e # es))) = sgn (int (digit_of d) - int e)"
      unfolding v using Cons.prems ds False dec_val_less [of ds'] nat_val_less [of es] by (intro sgn_lex) auto
    moreover have "sgn (x * 10) = sgn x" for x :: int by (simp add: sgn_mult)
    ultimately show ?thesis by (simp only:)
  qed
qed

lemma compare2pow63_sign:
  assumes "window z 0 ds" "list_all is_dec ds" "length ds = 19"
  shows "sgn (compare2pow63 z (Suc 0)) = sgn (int (dec_val ds) - 2 ^ 63)"
proof -
  obtain xs d where ds: "ds = xs @ [d]" "length xs = 18" using assms(3) by (metis length_Suc_conv_rev append_butlast_last_id diff_Suc_1 length_0_conv length_butlast numeral_nat(7) zero_neq_numeral eval_nat_numeral(3))
  have w: "window z 0 xs" "byte_at z 18 = d" "list_all is_dec xs" "is_dec d"
    using assms ds by (auto simp: window_append)
  define c where "c = compare2pow63_loop z (Suc 0) 0 pow63 0"
  have p: "nat_val 0 pow63 = 922337203685477580" "length pow63 = 18" "list_all (\<lambda>e. e < 10) pow63"
    by (simp_all add: pow63_def)
  have c: "sgn c = sgn (int (dec_val xs) - 922337203685477580)"
    using compare2pow63_loop_sign [of z 0 xs pow63] w p ds by (simp add: c_def)
  have v: "int (dec_val ds) - 2 ^ 63 = 10 * (int (dec_val xs) - 922337203685477580) + (int (digit_of d) - 8)"
    using ds by simp
  have d: "int (unat d) - 56 = int (digit_of d) - 8" "digit_of d < 10"
    using w(4) digit_of_less [of d] by (simp_all add: is_dec_def digit_of_def)
  show ?thesis
  proof (cases "c = 0")
    case True
    then have "int (dec_val xs) = 922337203685477580" using c by (simp add: sgn_eq_0_iff)
    then show ?thesis using True d w unfolding v by (simp add: compare2pow63_def c_def [symmetric])
  next
    case False
    then show ?thesis using c d unfolding v by (simp add: compare2pow63_def c_def [symmetric] Let_def sgn_if split: if_splits)
  qed
qed

subsection \<open>Correctness of the decimal parser\<close>

definition atoi_spec :: "bool \<Rightarrow> nat \<Rightarrow> int \<Rightarrow> int \<times> int" where
  "atoi_spec neg V base =
     (let N = (if neg then - int V else int V) in
      if in_i64 N then (base, N)
      else if N = 2 ^ 63 then (3, LARGEST_INT64)
      else (2, if neg then SMALLEST_INT64 else LARGEST_INT64))"

lemma split_zeros:
  obtains a ds' where "ds = replicate a 48 @ ds'" "ds' = [] \<or> hd ds' \<noteq> (48 :: u8)"
proof -
  have "ds = takeWhile (\<lambda>c. c = 48) ds @ dropWhile (\<lambda>c. c = 48) ds" by simp
  moreover have "takeWhile (\<lambda>c. c = 48) ds = replicate (length (takeWhile (\<lambda>c. c = 48) ds)) 48"
    by (metis (mono_tags) replicate_length_same set_takeWhileD)
  moreover have "dropWhile (\<lambda>c. c = 48) ds = [] \<or> hd (dropWhile (\<lambda>c. c = 48) ds) \<noteq> 48"
    by (metis (mono_tags) hd_dropWhile)
  ultimately show ?thesis using that by metis
qed

lemma dec_val_zeros: "dec_val (replicate a 48 @ ds) = dec_val ds"
proof -
  have "dec_val (replicate a 48) = 0" by (induction a) (simp_all add: digit_of_def)
  then show ?thesis by simp
qed

lemma unat_of_nat_64: "v < 2 ^ 64 \<Longrightarrow> unat (of_nat v :: u64) = v"
  by (simp add: unat_of_nat)

text \<open>The part of the function behind the scan, for the digits \<open>ds\<close> found at \<open>p\<close>.\<close>

lemma atoi_classify:
  assumes "window z p ds" "list_all is_dec ds" "ds = [] \<or> hd ds \<noteq> 48"
  shows "atoi_result z (Suc 0) neg p (length ds) (of_nat (dec_val ds)) rc = atoi_spec neg (dec_val ds) rc"
proof -
  let ?V = "dec_val ds"
  have small: "atoi_num neg (of_nat ?V) = (if neg then - int ?V else int ?V)"
    "atoi_spec neg ?V rc = (rc, if neg then - int ?V else int ?V)" if "?V < 2 ^ 63"
  proof -
    have "unat (of_nat ?V :: u64) = ?V" using that by (intro unat_of_nat_64) simp
    then have u: "uint (of_nat ?V :: u64) = int ?V" by (metis uint_nat)
    then have "\<not> (of_nat ?V :: u64) > LARGEST_UINT_HALF"
      using that by (simp add: word_less_def LARGEST_UINT_HALF_def)
    then show "atoi_num neg (of_nat ?V) = (if neg then - int ?V else int ?V)"
      using u by (simp add: atoi_num_def)
    show "atoi_spec neg ?V rc = (rc, if neg then - int ?V else int ?V)"
      using that by (auto simp: atoi_spec_def in_i64_def int64_limits)
  qed
  have big: "atoi_spec neg ?V rc = (2, if neg then SMALLEST_INT64 else LARGEST_INT64)" if "2 ^ 63 < ?V"
    using that by (auto simp: atoi_spec_def in_i64_def int64_limits)
  have eq: "atoi_spec neg ?V rc = (if neg then rc else 3, if neg then SMALLEST_INT64 else LARGEST_INT64)" if "?V = 2 ^ 63"
    unfolding that by (auto simp: atoi_spec_def in_i64_def int64_limits)
  consider "length ds < 19" | "length ds = 19" | "19 < length ds" by linarith
  then show ?thesis
  proof cases
    case 1
    have "?V < 10 ^ length ds" using assms(2) by (rule dec_val_less)
    also have "(10::nat) ^ length ds \<le> 10 ^ 18" using 1 by (intro power_increasing) auto
    finally have "?V < 2 ^ 63" by simp
    then show ?thesis using 1 small by (simp add: atoi_result_def)
  next
    case 2
    have w: "window (drop p z) 0 ds" using assms(1) by (simp add: window_def)
    have sg: "sgn (compare2pow63 (drop p z) (Suc 0)) = sgn (int ?V - 2 ^ 63)"
      using w assms(2) 2 by (rule compare2pow63_sign)
    consider "?V < 2 ^ 63" | "?V = 2 ^ 63" | "2 ^ 63 < ?V" by linarith
    then show ?thesis
    proof cases
      case 1
      then have "compare2pow63 (drop p z) (Suc 0) < 0" using sg by (simp add: sgn_if split: if_splits)
      then show ?thesis using 2 small [OF 1] by (simp add: atoi_result_def)
    next
      case c: 2
      then have "compare2pow63 (drop p z) (Suc 0) = 0" using sg by (simp add: sgn_if split: if_splits)
      then show ?thesis using 2 eq [OF c] by (simp add: atoi_result_def Let_def)
    next
      case 3
      then have "0 < compare2pow63 (drop p z) (Suc 0)" using sg by (simp add: sgn_if split: if_splits)
      then show ?thesis using 2 big [OF 3] by (simp add: atoi_result_def Let_def)
    qed
  next
    case 3
    then obtain d ds' where d: "ds = d # ds'" by (cases ds) auto
    have "(10::nat) ^ 19 \<le> 10 ^ length ds'" using 3 d by (intro power_increasing) auto
    also have "\<dots> \<le> ?V" using assms(2,3) d dec_val_ge [of d ds'] by simp
    finally have "2 ^ 63 < ?V" by simp
    then show ?thesis using 3 big by (simp add: atoi_result_def Let_def)
  qed
qed

lemma Isspace_dec: "is_dec c \<Longrightarrow> \<not> sqlite3Isspace c"
  by (auto simp: Isspace_eq is_dec_def word_le_nat_alt)

lemma Isspace_sign: "\<not> sqlite3Isspace 45" "\<not> sqlite3Isspace 43" "\<not> is_dec 45" "\<not> is_dec 43" "is_dec 48"
  by (simp_all add: Isspace_eq is_dec_def)

lemma Atoi64_decimal:
  assumes sp: "list_all sqlite3Isspace sp" and sg: "sg = [] \<or> sg = [45] \<or> sg = [43]"
    and ds: "ds \<noteq> []" "list_all is_dec ds" and ts: "ts = [] \<or> \<not> is_dec (hd ts)"
  shows "sqlite3Atoi64 (sp @ sg @ ds @ ts @ rest) (length (sp @ sg @ ds @ ts)) SQLITE_UTF8
    = atoi_spec (sg = [45]) (dec_val ds) (if list_all sqlite3Isspace ts then 0 else 1)"
proof -
  obtain a ds' where z: "ds = replicate a 48 @ ds'" "ds' = [] \<or> hd ds' \<noteq> 48" by (rule split_zeros)
  define t where "t = sp @ sg @ ds @ ts @ rest"
  define e where "e = length (sp @ sg @ ds @ ts)"
  define n0 where "n0 = length sp"
  define n1 where "n1 = n0 + length sg"
  define n2 where "n2 = n1 + a"
  have w0: "window t 0 (sp @ sg @ ds @ ts)" using window_self [of "sp @ sg @ ds @ ts" rest] by (simp add: t_def)
  then have w: "window t 0 sp" "window t n0 sg" "window t n1 ds" "window t (n1 + length ds) ts"
    by (simp_all add: window_append n0_def n1_def add.assoc)
  have w': "window t n1 (replicate a 48)" "window t n2 ds'" using w(3) z by (simp_all add: window_append n2_def)
  have wc: "byte_at t n1 = hd ds" using w(3) ds by (cases ds) auto
  have le: "n1 + length ds + length ts = e" "n2 + length ds' = n1 + length ds" by (simp_all add: e_def n1_def n0_def n2_def z)
  have dec_hd: "is_dec (hd ds)" using ds by (cases ds) auto
  have s1: "skip_while sqlite3Isspace t (Suc 0) e 0 = n0"
  proof -
    have "\<not> sqlite3Isspace (byte_at t n0)"
      using sg w(2) wc dec_hd Isspace_sign by (auto simp: n1_def Isspace_dec)
    then show ?thesis using skip_while_window [of t 0 sp sqlite3Isspace e] w(1) sp by (simp add: n0_def e_def)
  qed
  have lt: "n0 < e" using ds by (auto simp: n0_def e_def)
  have neg: "(n0 < e \<and> byte_at t n0 = 45) = (sg = [45])"
    using sg w(2) wc lt dec_hd Isspace_sign by (auto simp: n1_def)
  have sgn: "(if n0 < e \<and> (byte_at t n0 = 45 \<or> byte_at t n0 = 43) then Suc n0 else n0) = n1"
    using sg w(2) wc lt dec_hd Isspace_sign by (auto simp: n1_def)
  have s2: "skip_while (\<lambda>c. c = 48) t (Suc 0) e n1 = n2"
  proof -
    have "n2 = e \<or> byte_at t n2 \<noteq> 48"
    proof (cases "ds' = []")
      case True
      then have "ts \<noteq> [] \<Longrightarrow> byte_at t n2 = hd ts" using w(4) le(2) by (cases ts) auto
      then show ?thesis using ts True le Isspace_sign by auto
    next
      case False
      then show ?thesis using w'(2) z(2) by (cases ds') auto
    qed
    then show ?thesis
      using skip_while_window [of t n1 "replicate a 48" "\<lambda>c. c = 48" e] w'(1) le by (simp add: n2_def z list_all_length)
  qed
  have ds': "list_all is_dec ds'" using ds z by simp
  have val: "dec_val ds = dec_val ds'" unfolding z(1) by (rule dec_val_zeros)
  have dg: "atoi_digits t (Suc 0) e n2 0 0 = (length ds', of_nat (dec_val ds'))"
  proof -
    have "n2 + length ds' = e \<or> \<not> is_dec (byte_at t (n2 + length ds'))"
      using ts w(4) le by (cases ts) auto
    then show ?thesis using atoi_digits_window [of t n2 0 ds' e 0] w'(2) ds' le by simp
  qed
  have digits: "\<not> (length ds' = 0 \<and> n1 = n2)" using ds z by (auto simp: n2_def)
  have rc: "atoi_rc t (Suc 0) e False n1 n2 (length ds') = (if list_all sqlite3Isspace ts then 0 else 1)"
    using atoi_trailing_window [of t "n1 + length ds" ts e 0] w(4) le digits by (cases "ts = []") (auto simp: atoi_rc_def)
  have "sqlite3Atoi64 t e SQLITE_UTF8 = atoi_result t (Suc 0) (sg = [45]) n2 (length ds') (of_nat (dec_val ds'))
      (if list_all sqlite3Isspace ts then 0 else 1)"
    unfolding sqlite3Atoi64_def atoi_frame_def
    by (simp add: Let_def s1 neg sgn s2 dg rc cong: if_cong split del: if_split)
  also have "\<dots> = atoi_spec (sg = [45]) (dec_val ds') (if list_all sqlite3Isspace ts then 0 else 1)"
    using w'(2) ds' z(2) by (rule atoi_classify)
  finally show ?thesis by (simp add: t_def e_def val)
qed

subsection \<open>Printing and reading back\<close>

lemma digit_pair_props:
  assumes "kk < 100"
  shows "list_all is_dec (digit_pair kk) \<and> dec_from v (digit_pair kk) = v * 100 + kk"
proof -
  have "list_all (\<lambda>kk. sqlite3DigitPairs ! (2 * kk) < 10 \<and> sqlite3DigitPairs ! (2 * kk + 1) < 10
      \<and> sqlite3DigitPairs ! (2 * kk) * 10 + sqlite3DigitPairs ! (2 * kk + 1) = kk) [0..<100]"
    by code_simp
  then have p: "sqlite3DigitPairs ! (2 * kk) < 10" "sqlite3DigitPairs ! (2 * kk + 1) < 10"
    "sqlite3DigitPairs ! (2 * kk) * 10 + sqlite3DigitPairs ! (2 * kk + 1) = kk"
    using assms by (auto simp: list_all_iff)
  have d: "is_dec (of_nat (48 + d)) \<and> digit_of (of_nat (48 + d)) = d" if "d < 10" for d
  proof -
    have "unat (of_nat (48 + d) :: u8) = 48 + d" using that unat_of_nat [of "48 + d", where 'a = 8] by simp
    then show ?thesis using that unfolding is_dec_def digit_of_def by simp
  qed
  show ?thesis using d [OF p(1)] d [OF p(2)] p(3) unfolding digit_pair_def by (simp add: algebra_simps)
qed

lemma Int64ToText_loop_digits:
  "\<exists>x' ds. Int64ToText_loop x acc = (x', ds @ acc) \<and> x' < 10 \<and> list_all is_dec ds \<and> dec_from x' ds = x"
proof (induction x acc rule: Int64ToText_loop.induct)
  case (1 x acc)
  show ?case
  proof (cases "10 \<le> x")
    case True
    with 1 obtain x' ds where "Int64ToText_loop (x div 100) (digit_pair (x mod 100) @ acc) = (x', ds @ digit_pair (x mod 100) @ acc)"
      "x' < 10" "list_all is_dec ds" "dec_from x' ds = x div 100" by blast
    with True digit_pair_props [of "x mod 100" "x div 100"] show ?thesis
      by (intro exI [of _ x'] exI [of _ "ds @ digit_pair (x mod 100)"]) (simp add: Int64ToText_loop.simps [of x])
  next
    case False
    then show ?thesis by (intro exI [of _ x] exI [of _ "[]"]) (simp add: Int64ToText_loop.simps [of x])
  qed
qed

lemma Int64ToText_shape:
  assumes "in_i64 v"
  obtains ds where "sqlite3Int64ToText v = (if v < 0 then [45] else []) @ ds" "ds \<noteq> []" "list_all is_dec ds"
    "dec_val ds = nat \<bar>v\<bar>"
proof (cases "v = 0")
  case True
  then show ?thesis using that [of "[48]"] Isspace_sign by (simp add: sqlite3Int64ToText_def digit_of_def)
next
  case False
  define x where "x = nat \<bar>v\<bar>"
  obtain x' ds where l: "Int64ToText_loop x [] = (x', ds)" "x' < 10" "list_all is_dec ds" "dec_from x' ds = x"
    using Int64ToText_loop_digits [of x "[]"] by auto
  define out where "out = (if x' \<noteq> 0 then of_nat (48 + x') # ds else ds)"
  have d: "is_dec (of_nat (48 + x')) \<and> digit_of (of_nat (48 + x')) = x'"
  proof -
    have "unat (of_nat (48 + x') :: u8) = 48 + x'" using l(2) unat_of_nat [of "48 + x'", where 'a = 8] by simp
    then show ?thesis using l(2) unfolding is_dec_def digit_of_def by simp
  qed
  have "out \<noteq> []" using l(4) False by (auto simp: out_def x_def)
  moreover have "list_all is_dec out" "dec_val out = x"
    using l d by (cases "x' = 0"; simp add: out_def del: of_nat_add)+
  moreover have "sqlite3Int64ToText v = (if v < 0 then [45] else []) @ out"
  proof -
    have "x = (if 0 < v then nat v else if v = SMALLEST_INT64 then 2 ^ 63 else nat (- v))"
      using False by (simp add: x_def int64_limits)
    then show ?thesis using False l(1) by (simp add: sqlite3Int64ToText_def out_def Let_def)
  qed
  ultimately show ?thesis using that by (simp add: x_def)
qed

subsection \<open>Properties\<close>



text \<open>Printing any 64-bit integer and parsing the text gives it back with return code 0, the
  most negative one included.\<close>

theorem Int64ToText_roundtrip:
  assumes "in_i64 v"
  shows "sqlite3Atoi64 (sqlite3Int64ToText v @ 0 # rest) (length (sqlite3Int64ToText v)) SQLITE_UTF8 = (0, v)"
proof -
  obtain ds where ds: "sqlite3Int64ToText v = (if v < 0 then [45] else []) @ ds" "ds \<noteq> []" "list_all is_dec ds"
    "dec_val ds = nat \<bar>v\<bar>" using assms by (rule Int64ToText_shape)
  have "sqlite3Atoi64 ([] @ (if v < 0 then [45] else []) @ ds @ [] @ 0 # rest)
      (length ([] @ (if v < 0 then [45] else []) @ ds @ [])) SQLITE_UTF8
    = atoi_spec ((if v < 0 then [45] else []) = [45 :: u8]) (dec_val ds) (if list_all sqlite3Isspace [] then 0 else 1)"
    using ds by (intro Atoi64_decimal) auto
  then show ?thesis using assms unfolding ds by (auto simp: atoi_spec_def)
qed

theorem Int64ToText_roundtrip_witness:
  "sqlite3Atoi64 (sqlite3Int64ToText (- 9223372036854775808) @ [0]) (length (sqlite3Int64ToText (- 9223372036854775808))) SQLITE_UTF8
   = (0, - 9223372036854775808)"
  using Int64ToText_roundtrip [of "- 9223372036854775808" "[]"] by (simp add: in_i64_def int64_limits)

end
