(* ===== verification/Literals.thy ===== *)
theory Literals
  imports Num_Text
begin

section \<open>Integer and blob literals (util.c)\<close>

text \<open>
  The parsers of literals over a zero-terminated text: \<open>sqlite3GetUInt32\<close>, \<open>sqlite3GetInt32\<close>
  (decimal and hexadecimal), \<open>sqlite3Atoi\<close>, \<open>sqlite3DecOrHexToI64\<close>, and the blob literals
  \<open>sqlite3HexToInt\<close>, \<open>sqlite3HexToBlob\<close>.
\<close>

subsection \<open>Unsigned 32-bit integers\<close>

text \<open>The loop: \<open>None\<close> is the early \<open>return 0\<close> inside it. The accumulator never exceeds
  \<open>2^32\<close> before a step, so the 64-bit arithmetic of the source does not wrap.\<close>

function GetUInt32_loop :: "bytes \<Rightarrow> nat \<Rightarrow> nat \<Rightarrow> (nat \<times> nat) option" where
  "GetUInt32_loop z i v =
     (if i < length z \<and> sqlite3Isdigit (byte_at z i) then
        (let v = v * 10 + digit_of (byte_at z i) in
         if 4294967296 < v then None else GetUInt32_loop z (i + 1) v)
      else Some (i, v))"
  by pat_completeness auto
termination by (relation "measure (\<lambda>(z, i, _). length z - i)") auto

declare GetUInt32_loop.simps [simp del]

text \<open>The return value and \<open>*pI\<close>.\<close>

definition sqlite3GetUInt32 :: "bytes \<Rightarrow> bool \<times> u32" where
  "sqlite3GetUInt32 z =
     (case GetUInt32_loop z 0 0 of
        None \<Rightarrow> (False, 0)
      | Some (i, v) \<Rightarrow> (if i = 0 \<or> byte_at z i \<noteq> 0 then (False, 0) else (True, of_nat v)))"

lemma Isdigit_is_dec: "sqlite3Isdigit c = is_dec c"
  by (simp add: Isdigit_eq is_dec_def word_le_nat_alt)

lemma dec_from_mono: "v \<le> dec_from v ds"
proof -
  have "v * 1 \<le> v * 10 ^ length ds" by (rule mult_le_mono2) simp
  then show ?thesis using dec_from_eq [of v ds] by linarith
qed

lemma GetUInt32_loop_window:
  assumes "window z i ds" "list_all is_dec ds" "\<not> is_dec (byte_at z (i + length ds))" "v \<le> 4294967296"
  shows "GetUInt32_loop z i v = (if dec_from v ds \<le> 4294967296 then Some (i + length ds, dec_from v ds) else None)"
  using assms
proof (induction ds arbitrary: i v)
  case Nil
  then show ?case by (subst GetUInt32_loop.simps) (simp add: Isdigit_is_dec)
next
  case (Cons d ds)
  let ?v = "v * 10 + digit_of d"
  have d: "byte_at z i = d" "is_dec d" using Cons.prems by auto
  then have i: "i < length z" by (auto simp: byte_at_def is_dec_def split: if_splits)
  have step: "GetUInt32_loop z i v = (if 4294967296 < ?v then None else GetUInt32_loop z (Suc i) ?v)"
    using d i by (subst GetUInt32_loop.simps) (simp add: Isdigit_is_dec)
  show ?case
  proof (cases "4294967296 < ?v")
    case True
    then have "\<not> dec_from v (d # ds) \<le> 4294967296" using dec_from_mono [of ?v ds] by simp
    with True step show ?thesis by simp
  next
    case False
    then have "GetUInt32_loop z (Suc i) ?v = (if dec_from ?v ds \<le> 4294967296 then Some (Suc i + length ds, dec_from ?v ds) else None)"
      using Cons.prems by (intro Cons.IH) auto
    with False step show ?thesis by simp
  qed
qed

subsection \<open>Hexadecimal digits and blobs\<close>

definition sqlite3HexToInt :: "u8 \<Rightarrow> nat" where
  "sqlite3HexToInt h = (unat h + 9 * (unat h div 64 mod 2)) mod 16"

text \<open>The loop over \<open>i<n\<close> in steps of two, for the \<open>n\<close> already decremented.\<close>

function HexToBlob_loop :: "bytes \<Rightarrow> nat \<Rightarrow> nat \<Rightarrow> bytes" where
  "HexToBlob_loop z i n =
     (if i < n then of_nat (sqlite3HexToInt (byte_at z i) * 16 + sqlite3HexToInt (byte_at z (i + 1))) # HexToBlob_loop z (i + 2) n
      else [])"
  by pat_completeness auto
termination by (relation "measure (\<lambda>(_, i, n). n - i)") auto

declare HexToBlob_loop.simps [simp del]

text \<open>\<open>malloc\<close> is whether the allocation succeeds; the result leaves out the final zero byte.\<close>

definition sqlite3HexToBlob :: "bool \<Rightarrow> bytes \<Rightarrow> nat \<Rightarrow> bytes option" where
  "sqlite3HexToBlob malloc z n = (if malloc then Some (HexToBlob_loop z 0 (n - 1)) else None)"

text \<open>The text of a blob: two hexadecimal digits per byte, in either case.\<close>

definition hex_digit :: "bool \<Rightarrow> nat \<Rightarrow> u8" where
  "hex_digit upper d = (if d < 10 then of_nat (48 + d) else of_nat ((if upper then 55 else 87) + d))"

definition hex_text :: "(nat \<Rightarrow> bool) \<Rightarrow> bytes \<Rightarrow> bytes" where
  "hex_text upper bs = concat (map (\<lambda>b. [hex_digit (upper (unat b div 16)) (unat b div 16), hex_digit (upper (unat b mod 16)) (unat b mod 16)]) bs)"

lemma HexToInt_digit:
  assumes "d < 16"
  shows "sqlite3HexToInt (hex_digit upper d) = d"
proof -
  have "list_all (\<lambda>d. sqlite3HexToInt (hex_digit True d) = d \<and> sqlite3HexToInt (hex_digit False d) = d) [0..<16]"
    by code_simp
  then show ?thesis using assms by (cases upper) (auto simp: list_all_iff)
qed

lemma HexToBlob_loop_text:
  "window z i (hex_text upper bs) \<Longrightarrow> HexToBlob_loop z i (i + length (hex_text upper bs)) = bs"
proof (induction bs arbitrary: i)
  case Nil
  then show ?case by (simp add: hex_text_def HexToBlob_loop.simps)
next
  case (Cons b bs)
  have u: "unat b div 16 < 16" "unat b mod 16 < 16" using unat_u8 [of b] by simp_all
  have t: "hex_text upper (b # bs) = hex_digit (upper (unat b div 16)) (unat b div 16)
      # hex_digit (upper (unat b mod 16)) (unat b mod 16) # hex_text upper bs" by (simp add: hex_text_def)
  have w: "byte_at z i = hex_digit (upper (unat b div 16)) (unat b div 16)"
    "byte_at z (Suc i) = hex_digit (upper (unat b mod 16)) (unat b mod 16)" "window z (Suc (Suc i)) (hex_text upper bs)"
    using Cons.prems unfolding t by simp_all
  have "HexToBlob_loop z (Suc (Suc i)) (Suc (Suc i) + length (hex_text upper bs)) = bs"
    using w(3) by (rule Cons.IH)
  moreover have "unat b div 16 * 16 + unat b mod 16 = unat b" by simp
  ultimately show ?case unfolding t
    by (subst HexToBlob_loop.simps) (simp add: w HexToInt_digit u)
qed

subsection \<open>Signed 32-bit integers\<close>

function GetInt32_hex :: "bytes \<Rightarrow> nat \<Rightarrow> nat \<Rightarrow> u32 \<Rightarrow> nat \<times> u32" where
  "GetInt32_hex z p i u =
     (if i < 8 \<and> sqlite3Isxdigit (byte_at z (p + i))
      then GetInt32_hex z p (i + 1) (u * 16 + of_nat (sqlite3HexToInt (byte_at z (p + i))))
      else (i, u))"
  by pat_completeness auto
termination by (relation "measure (\<lambda>(_, _, i, _). 8 - i)") auto

function GetInt32_dec :: "bytes \<Rightarrow> nat \<Rightarrow> nat \<Rightarrow> nat \<Rightarrow> nat \<times> nat" where
  "GetInt32_dec z p i v =
     (if i < 11 \<and> is_dec (byte_at z (p + i)) then GetInt32_dec z p (i + 1) (v * 10 + digit_of (byte_at z (p + i)))
      else (i, v))"
  by pat_completeness auto
termination by (relation "measure (\<lambda>(_, _, i, _). 11 - i)") auto

declare GetInt32_hex.simps [simp del] GetInt32_dec.simps [simp del]

definition GetInt32_decimal :: "bytes \<Rightarrow> nat \<Rightarrow> bool \<Rightarrow> int option" where
  "GetInt32_decimal z p neg =
     (if \<not> sqlite3Isdigit (byte_at z p) then None
      else (let p = skip_while (\<lambda>c. c = 48) z 1 (length z) p; (i, v) = GetInt32_dec z p 0 0 in
            if 10 < i then None
            else if int v - (if neg then 1 else 0) > 2147483647 then None
            else Some (if neg then - int v else int v)))"

text \<open>\<open>Some\<close> is the return value 1 with \<open>*pValue\<close>.\<close>

definition sqlite3GetInt32 :: "bytes \<Rightarrow> int option" where
  "sqlite3GetInt32 z =
     (if byte_at z 0 = 45 then GetInt32_decimal z 1 True
      else if byte_at z 0 = 43 then GetInt32_decimal z 1 False
      else if byte_at z 0 = 48 \<and> (byte_at z 1 = 120 \<or> byte_at z 1 = 88) \<and> sqlite3Isxdigit (byte_at z 2) then
        (let p = skip_while (\<lambda>c. c = 48) z 1 (length z) 2; (i, u) = GetInt32_hex z p 0 0 in
         if u AND 0x80000000 = 0 \<and> \<not> sqlite3Isxdigit (byte_at z (p + i)) then Some (uint u) else None)
      else GetInt32_decimal z 0 False)"

definition sqlite3Atoi :: "bytes \<Rightarrow> int" where
  "sqlite3Atoi z = (case sqlite3GetInt32 z of None \<Rightarrow> 0 | Some x \<Rightarrow> x)"

lemma GetInt32_dec_window:
  assumes "window z (p + i) ds" "list_all is_dec ds" "\<not> is_dec (byte_at z (p + i + length ds)) \<or> i + length ds = 11" "i + length ds \<le> 11"
  shows "GetInt32_dec z p i v = (i + length ds, dec_from v ds)"
  using assms
proof (induction ds arbitrary: i v)
  case Nil
  then show ?case by (subst GetInt32_dec.simps) auto
next
  case (Cons d ds)
  have "GetInt32_dec z p i v = GetInt32_dec z p (Suc i) (v * 10 + digit_of d)"
    using Cons.prems by (subst GetInt32_dec.simps) auto
  also have "\<dots> = (Suc i + length ds, dec_from (v * 10 + digit_of d) ds)"
    using Cons.prems by (intro Cons.IH) auto
  finally show ?case by simp
qed

lemma GetInt32_decimal_correct:
  assumes "window z p ds" "list_all is_dec ds" "ds \<noteq> []" "\<not> is_dec (byte_at z (p + length ds))"
  shows "GetInt32_decimal z p neg =
    (let N = (if neg then - int (dec_val ds) else int (dec_val ds)) in
     if - 2147483648 \<le> N \<and> N \<le> 2147483647 then Some N else None)"
proof -
  obtain a ds' where z: "ds = replicate a 48 @ ds'" "ds' = [] \<or> hd ds' \<noteq> 48" by (rule split_zeros)
  have w: "window z p (replicate a 48)" "window z (p + a) ds'" using assms(1) z by (simp_all add: window_append)
  have nz: "byte_at z (p + a) \<noteq> 48"
    using z(2) w(2) assms(4) Isspace_sign z(1) by (cases ds') auto
  have le: "p + a \<le> length z"
  proof (cases a)
    case (Suc b)
    then have "byte_at z (p + b) = 48"
      using w(1) unfolding window_def by (metis length_replicate lessI nth_replicate)
    then show ?thesis using Suc by (auto simp: byte_at_def split: if_splits)
  next
    case 0
    then obtain d ds'' where "ds = d # ds''" "is_dec d" "byte_at z p = d" using assms(1-3) by (cases ds) auto
    then show ?thesis using 0 by (auto simp: byte_at_def is_dec_def split: if_splits)
  qed
  have s: "skip_while (\<lambda>c. c = 48) z (Suc 0) (length z) p = p + a"
    using skip_while_window [of z p "replicate a 48" "\<lambda>c. c = 48" "length z"] w(1) le nz by (simp add: list_all_length)
  have d0: "sqlite3Isdigit (byte_at z p)" using assms(1-3) by (cases ds) (auto simp: Isdigit_is_dec)
  have ds': "list_all is_dec ds'" using assms(2) z by simp
  have val: "dec_val ds = dec_val ds'" unfolding z(1) by (rule dec_val_zeros)
  show ?thesis
  proof (cases "length ds' \<le> 10")
    case True
    have "GetInt32_dec z (p + a) 0 0 = (length ds', dec_val ds')"
      using GetInt32_dec_window [of z "p + a" 0 ds' 0] w(2) ds' assms(4) True z(1) by (simp add: add.assoc)
    then show ?thesis using True d0 by (auto simp: GetInt32_decimal_def s val Let_def)
  next
    case False
    define xs where "xs = take 11 ds'"
    have xs: "length xs = 11" "window z (p + a) xs" "list_all is_dec xs"
      using False w(2) ds' by (auto simp: xs_def window_def list_all_length)
    have "GetInt32_dec z (p + a) 0 0 = (11, dec_val xs)"
      using GetInt32_dec_window [of z "p + a" 0 xs 0] xs by simp
    moreover have "10 ^ 10 \<le> dec_val ds'"
    proof -
      obtain d es where d: "ds' = d # es" using False by (cases ds') auto
      have "(10::nat) ^ 10 \<le> 10 ^ length es" using False d by (intro power_increasing) auto
      also have "\<dots> \<le> dec_val ds'" using dec_val_ge [of d es] ds' z(2) d by simp
      finally show ?thesis .
    qed
    ultimately show ?thesis using d0 by (auto simp: GetInt32_decimal_def s val Let_def)
  qed
qed

subsection \<open>Decimal or hexadecimal 64-bit literals\<close>

definition strspn_set :: "u8 \<Rightarrow> bool" where
  "strspn_set c \<longleftrightarrow> c = 43 \<or> c = 45 \<or> c = 32 \<or> c = 10 \<or> c = 9 \<or> is_dec c"

function DecOrHex_digits :: "bytes \<Rightarrow> nat \<Rightarrow> u64 \<Rightarrow> nat \<times> u64" where
  "DecOrHex_digits z k u =
     (if k < length z \<and> sqlite3Isxdigit (byte_at z k)
      then DecOrHex_digits z (k + 1) (u * 16 + of_nat (sqlite3HexToInt (byte_at z k))) else (k, u))"
  by pat_completeness auto
termination by (relation "measure (\<lambda>(z, k, _). length z - k)") auto

declare DecOrHex_digits.simps [simp del]

definition sqlite3DecOrHexToI64 :: "bytes \<Rightarrow> int \<times> int" where
  "sqlite3DecOrHexToI64 z =
     (if byte_at z 0 = 48 \<and> (byte_at z 1 = 120 \<or> byte_at z 1 = 88) then
        (let i = skip_while (\<lambda>c. c = 48) z 1 (length z) 2; (k, u) = DecOrHex_digits z i 0 in
         if 16 < k - i then (2, sint u) else if byte_at z k \<noteq> 0 then (1, sint u) else (0, sint u))
      else
        (let n = skip_while strspn_set z 1 (length z) 0;
             n = (if byte_at z n \<noteq> 0 then n + 1 else n)
         in sqlite3Atoi64 z n SQLITE_UTF8))"

subsection \<open>Properties\<close>

text \<open>\<open>sqlite3GetUInt32\<close> on a decimal text accepts exactly the values up to and including
  \<open>2^32\<close>, one more than a 32-bit integer can hold, and stores the value modulo \<open>2^32\<close>: for the text
  4294967296 it reports success and stores 0.\<close>

theorem GetUInt32_accepts_2_32:
  assumes "ds \<noteq> []" "list_all is_dec ds"
  shows "sqlite3GetUInt32 (ds @ 0 # rest) = (if dec_val ds \<le> 2 ^ 32 then (True, of_nat (dec_val ds)) else (False, 0))"
proof -
  have "window (ds @ 0 # rest) 0 ds" by (rule window_self)
  moreover have b: "byte_at (ds @ 0 # rest) (length ds) = 0" by (simp add: byte_at_append byte_at_Cons)
  ultimately have "GetUInt32_loop (ds @ 0 # rest) 0 0 = (if dec_val ds \<le> 4294967296 then Some (length ds, dec_val ds) else None)"
    using GetUInt32_loop_window [of "ds @ 0 # rest" 0 ds 0] assms(2) by (simp add: is_dec_def)
  then show ?thesis using assms(1) b by (simp add: sqlite3GetUInt32_def)
qed

theorem GetUInt32_accepts_2_32_witness:
  "sqlite3GetUInt32 [52, 50, 57, 52, 57, 54, 55, 50, 57, 54, 0] = (True, 0)"
proof -
  have "list_all is_dec [52, 50, 57, 52, 57, 54, 55, 50, 57, 54]" by (simp add: is_dec_def)
  from GetUInt32_accepts_2_32 [OF _ this, of "[]"] show ?thesis by (simp add: digit_of_def)
qed

text \<open>\<open>sqlite3GetInt32\<close> on a signed decimal number followed by anything but a digit returns the
  number if it fits 32 signed bits and fails otherwise, for any number of digits and leading zeros.\<close>

theorem GetInt32_decimal_exact:
  assumes "sg = [45] \<or> sg = [43]" "ds \<noteq> []" "list_all is_dec ds" "\<not> is_dec c"
  shows "sqlite3GetInt32 (sg @ ds @ c # rest) =
    (let N = (if sg = [45] then - int (dec_val ds) else int (dec_val ds)) in
     if - 2147483648 \<le> N \<and> N \<le> 2147483647 then Some N else None)"
proof -
  let ?z = "sg @ ds @ c # rest"
  have w: "window ?z 1 ds" "byte_at ?z (1 + length ds) = c" "byte_at ?z 0 = hd sg"
    using assms(1) window_self [of "sg @ ds" "c # rest"] by (auto simp: window_append byte_at_append byte_at_Cons)
  have "GetInt32_decimal ?z 1 neg =
    (let N = (if neg then - int (dec_val ds) else int (dec_val ds)) in
     if - 2147483648 \<le> N \<and> N \<le> 2147483647 then Some N else None)" for neg
    using w assms by (intro GetInt32_decimal_correct) auto
  then show ?thesis using assms(1) w(3) by (elim disjE) (simp_all add: sqlite3GetInt32_def)
qed

theorem GetInt32_decimal_exact_witness:
  "sqlite3GetInt32 ([45] @ [50, 49, 52, 55, 52, 56, 51, 54, 52, 56] @ 0 # []) = Some (- 2147483648)"
proof -
  have "[45] = [45 :: u8] \<or> [45] = [43 :: u8]" "[50, 49, 52, 55, 52, 56, 51, 54, 52, 56 :: u8] \<noteq> []"
    "list_all is_dec [50, 49, 52, 55, 52, 56, 51, 54, 52, 56]" "\<not> is_dec 0" by (simp_all add: is_dec_def)
  from GetInt32_decimal_exact [OF this, of "[]"] show ?thesis by (simp add: digit_of_def)
qed

text \<open>Decoding the hexadecimal text of a blob literal, in any mixture of cases, gives the
  bytes back; only a failed allocation gives nothing.\<close>

theorem HexToBlob_roundtrip:
  "sqlite3HexToBlob malloc (hex_text upper bs @ 39 # rest) (length (hex_text upper bs) + 1) = (if malloc then Some bs else None)"
  using HexToBlob_loop_text [of "hex_text upper bs @ 39 # rest" 0 upper bs] window_self [of "hex_text upper bs" "39 # rest"]
  by (simp add: sqlite3HexToBlob_def)

end
