(* ===== verification/Utf.thy ===== *)
theory Utf
  imports Num_Text
begin

section \<open>Text encodings (utf.c)\<close>

text \<open>
  Encoding and decoding of characters in UTF-8 and UTF-16, the translation of a string value
  between encodings, and the character counts. Code points are 32-bit words, as \<open>unsigned int c\<close> is,
  so that shifting over-long sequences wraps. An input pointer is an offset into the input, a
  write appends to the output.
\<close>

subsection \<open>Single characters\<close>

definition sqlite3Utf8Trans1 :: "u8 list" where
  "sqlite3Utf8Trans1 =
   [0x00, 0x01, 0x02, 0x03, 0x04, 0x05, 0x06, 0x07,
    0x08, 0x09, 0x0a, 0x0b, 0x0c, 0x0d, 0x0e, 0x0f,
    0x10, 0x11, 0x12, 0x13, 0x14, 0x15, 0x16, 0x17,
    0x18, 0x19, 0x1a, 0x1b, 0x1c, 0x1d, 0x1e, 0x1f,
    0x00, 0x01, 0x02, 0x03, 0x04, 0x05, 0x06, 0x07,
    0x08, 0x09, 0x0a, 0x0b, 0x0c, 0x0d, 0x0e, 0x0f,
    0x00, 0x01, 0x02, 0x03, 0x04, 0x05, 0x06, 0x07,
    0x00, 0x01, 0x02, 0x03, 0x00, 0x01, 0x00, 0x00]"

text \<open>\<open>lead + (u8)((c >> s) & m)\<close>.\<close>

definition utf_byte :: "u8 \<Rightarrow> u32 \<Rightarrow> nat \<Rightarrow> u32 \<Rightarrow> u8" where
  "utf_byte lead c s m = lead + ucast (drop_bit s c AND m)"

definition WRITE_UTF8 :: "u32 \<Rightarrow> bytes" where
  "WRITE_UTF8 c =
     (if c < 0x80 then [ucast (c AND 0xFF)]
      else if c < 0x800 then [utf_byte 0xC0 c 6 0x1F, utf_byte 0x80 c 0 0x3F]
      else if c < 0x10000 then [utf_byte 0xE0 c 12 0x0F, utf_byte 0x80 c 6 0x3F, utf_byte 0x80 c 0 0x3F]
      else [utf_byte 0xF0 c 18 0x07, utf_byte 0x80 c 12 0x3F, utf_byte 0x80 c 6 0x3F, utf_byte 0x80 c 0 0x3F])"

text \<open>\<open>sqlite3AppendOneUtf8Character\<close> is the same computation as a function.\<close>

definition sqlite3AppendOneUtf8Character :: "u32 \<Rightarrow> bytes" where
  "sqlite3AppendOneUtf8Character v =
     (if v < 0x80 then [ucast (v AND 0xff)]
      else if v < 0x800 then [0xc0 + ucast (drop_bit 6 v AND 0x1f), 0x80 + ucast (v AND 0x3f)]
      else if v < 0x10000 then
        [0xe0 + ucast (drop_bit 12 v AND 0x0f), 0x80 + ucast (drop_bit 6 v AND 0x3f), 0x80 + ucast (v AND 0x3f)]
      else
        [0xf0 + ucast (drop_bit 18 v AND 0x07), 0x80 + ucast (drop_bit 12 v AND 0x3f),
         0x80 + ucast (drop_bit 6 v AND 0x3f), 0x80 + ucast (v AND 0x3f)])"

definition surrogate_lead :: "u32 \<Rightarrow> bytes" where
  "surrogate_lead c =
     [ucast ((drop_bit 10 c AND 0x003F) + (drop_bit 10 (c - 0x10000) AND 0x00C0)),
      ucast (0x00D8 + (drop_bit 18 (c - 0x10000) AND 0x03))]"

definition surrogate_trail :: "u32 \<Rightarrow> bytes" where
  "surrogate_trail c = [ucast (c AND 0x00FF), ucast (0x00DC + (drop_bit 8 c AND 0x03))]"

definition WRITE_UTF16LE :: "u32 \<Rightarrow> bytes" where
  "WRITE_UTF16LE c =
     (if c \<le> 0xFFFF then [ucast (c AND 0x00FF), ucast (drop_bit 8 c AND 0x00FF)]
      else surrogate_lead c @ surrogate_trail c)"

definition WRITE_UTF16BE :: "u32 \<Rightarrow> bytes" where
  "WRITE_UTF16BE c =
     (if c \<le> 0xFFFF then [ucast (drop_bit 8 c AND 0x00FF), ucast (c AND 0x00FF)]
      else rev (surrogate_lead c) @ rev (surrogate_trail c))"

text \<open>The continuation loop, up to \<open>zTerm\<close>; returns the offset behind it.\<close>

definition is_cont :: "u8 \<Rightarrow> bool" where
  "is_cont b \<longleftrightarrow> b AND 0xc0 = 0x80"

function utf8_cont :: "bytes \<Rightarrow> nat \<Rightarrow> nat \<Rightarrow> u32 \<Rightarrow> u32 \<times> nat" where
  "utf8_cont z zTerm i c =
     (if i < zTerm \<and> is_cont (byte_at z i)
      then utf8_cont z zTerm (i + 1) (push_bit 6 c + ucast (0x3f AND byte_at z i))
      else (c, i))"
  by pat_completeness auto
termination by (relation "measure (\<lambda>(_, e, i, _). e - i)") auto

declare utf8_cont.simps [simp del]

definition utf8_check :: "u32 \<Rightarrow> u32" where
  "utf8_check c = (if c < 0x80 \<or> c AND 0xFFFFF800 = 0xD800 \<or> c AND 0xFFFFFFFE = 0xFFFE then 0xFFFD else c)"

definition READ_UTF8 :: "bytes \<Rightarrow> nat \<Rightarrow> nat \<Rightarrow> u32 \<times> nat" where
  "READ_UTF8 z zTerm i =
     (let b = byte_at z i in
      if 0xc0 \<le> b then
        (let (c, i) = utf8_cont z zTerm (i + 1) (ucast (sqlite3Utf8Trans1 ! unat (b - 0xc0))) in (utf8_check c, i))
      else (ucast b, i + 1))"

text \<open>On a zero-terminated text the loop stops at the terminator, which is no continuation byte.\<close>

definition sqlite3Utf8Read :: "bytes \<Rightarrow> nat \<Rightarrow> u32 \<times> nat" where
  "sqlite3Utf8Read z i =
     (let b = byte_at z i in
      if 0xc0 \<le> b then
        (let (c, i) = utf8_cont z (length z) (i + 1) (ucast (sqlite3Utf8Trans1 ! unat (b - 0xc0))) in (utf8_check c, i))
      else (ucast b, i + 1))"

text \<open>At most \<open>n\<close> and at most four bytes, without the checks; returns \<open>*piOut\<close> and the length.\<close>

definition sqlite3Utf8ReadLimited :: "bytes \<Rightarrow> nat \<Rightarrow> u32 \<times> nat" where
  "sqlite3Utf8ReadLimited z n =
     (let b = byte_at z 0 in
      if 0xc0 \<le> b then utf8_cont z (min n 4) 1 (ucast (sqlite3Utf8Trans1 ! unat (b - 0xc0)))
      else (ucast b, 1))"

subsection \<open>Translation between encodings\<close>

function utf8_to_utf16 :: "(u32 \<Rightarrow> bytes) \<Rightarrow> bytes \<Rightarrow> nat \<Rightarrow> nat \<Rightarrow> bytes" where
  "utf8_to_utf16 write z zTerm i =
     (if i < zTerm then
        (let (c, i') = READ_UTF8 z zTerm i in
         if i < i' then write c @ utf8_to_utf16 write z zTerm i' else write c)
      else [])"
  by pat_completeness auto
termination by (relation "measure (\<lambda>(_, _, e, i). e - i)") auto

text \<open>One UTF-16 unit at offset \<open>i\<close>, low byte first or high byte first.\<close>

definition unit16le :: "bytes \<Rightarrow> nat \<Rightarrow> u32" where
  "unit16le z i = ucast (byte_at z i) + push_bit 8 (ucast (byte_at z (i + 1)))"

definition unit16be :: "bytes \<Rightarrow> nat \<Rightarrow> u32" where
  "unit16be z i = push_bit 8 (ucast (byte_at z i)) + ucast (byte_at z (i + 1))"

definition join_surrogates :: "u32 \<Rightarrow> u32 \<Rightarrow> u32" where
  "join_surrogates c c2 = (c2 AND 0x03FF) + push_bit 10 (c AND 0x003F) + push_bit 10 ((c AND 0x03C0) + 0x0040)"

function utf16_to_utf8 :: "(bytes \<Rightarrow> nat \<Rightarrow> u32) \<Rightarrow> bytes \<Rightarrow> nat \<Rightarrow> nat \<Rightarrow> bytes" where
  "utf16_to_utf8 unit z zTerm i =
     (if i < zTerm then
        (let c = unit z i in
         if 0xd800 \<le> c \<and> c < 0xe000 \<and> i + 2 < zTerm
         then WRITE_UTF8 (join_surrogates c (unit z (i + 2))) @ utf16_to_utf8 unit z zTerm (i + 4)
         else WRITE_UTF8 c @ utf16_to_utf8 unit z zTerm (i + 2))
      else [])"
  by pat_completeness auto
termination by (relation "measure (\<lambda>(_, _, e, i). e - i)") auto

declare utf8_to_utf16.simps [simp del] utf16_to_utf8.simps [simp del]

fun swap_bytes :: "bytes \<Rightarrow> bytes" where
  "swap_bytes (a # b # z) = b # a # swap_bytes z"
| "swap_bytes z = z"

subsection \<open>Bytes and words as numbers\<close>

lemma unat_and_mask [word_unat]: "unat (w AND mask m) = unat (w :: 'a::len word) mod 2 ^ m"
  unfolding take_bit_eq_mask [symmetric] unsigned_take_bit_eq by (simp add: take_bit_eq_mod)

lemma mask6: "0x3F = (mask 6 :: u32)" "0x1F = (mask 5 :: u32)" "0x0F = (mask 4 :: u32)" "0x07 = (mask 3 :: u32)"
    "0xFF = (mask 8 :: u32)"  "0x3F = (mask 6 :: u8)"
  by (simp_all add: mask_numeral)

lemma unat_ucast_small: "unat w < 256 \<Longrightarrow> unat (ucast (w :: u32) :: u8) = unat w"
  by (simp add: unsigned_ucast_eq take_bit_eq_mod)

lemma utf_byte_nat:
  assumes "unat lead + 2 ^ m \<le> 256"
  shows "unat (utf_byte lead c s (mask m)) = unat lead + (unat c div 2 ^ s) mod 2 ^ m"
proof -
  let ?x = "(unat c div 2 ^ s) mod 2 ^ m"
  have lt: "?x < 2 ^ m" by simp
  have "2 ^ m \<le> (256::nat)" using assms by linarith
  then have u: "unat (ucast (drop_bit s c AND mask m) :: u8) = ?x"
    using less_le_trans [OF lt \<open>2 ^ m \<le> 256\<close>] by (subst unat_ucast_small) (simp_all add: word_unat)
  show ?thesis unfolding utf_byte_def using assms lt u less_le_trans [of "unat lead + ?x" "unat lead + 2 ^ m" 256]
    by (subst unat_plus_simple [THEN iffD1]) (auto simp: no_olen_add_nat)
qed

lemma trans1_table:
  "k < 32 \<Longrightarrow> sqlite3Utf8Trans1 ! k = word_of_nat k"
  "k < 16 \<Longrightarrow> sqlite3Utf8Trans1 ! (32 + k) = word_of_nat k"
  "k < 8 \<Longrightarrow> sqlite3Utf8Trans1 ! (48 + k) = word_of_nat k"
proof -
  have "list_all (\<lambda>k. sqlite3Utf8Trans1 ! k = word_of_nat k) [0..<32]" by code_simp
  then show "k < 32 \<Longrightarrow> sqlite3Utf8Trans1 ! k = word_of_nat k" by (auto simp: list_all_iff)
  have "list_all (\<lambda>k. sqlite3Utf8Trans1 ! (32 + k) = word_of_nat k) [0..<16]" by code_simp
  then show "k < 16 \<Longrightarrow> sqlite3Utf8Trans1 ! (32 + k) = word_of_nat k" by (auto simp: list_all_iff)
  have "list_all (\<lambda>k. sqlite3Utf8Trans1 ! (48 + k) = word_of_nat k) [0..<8]" by code_simp
  then show "k < 8 \<Longrightarrow> sqlite3Utf8Trans1 ! (48 + k) = word_of_nat k" by (auto simp: list_all_iff)
qed

lemma u8_cases:
  assumes "\<And>n. n < 256 \<Longrightarrow> P (word_of_nat n)"
  shows "P (b :: u8)"
  using assms [OF unat_u8 [of b]] by simp

lemma is_cont_nat: "is_cont b = (unat b div 64 = 2)"
proof (rule u8_cases [of _ b])
  fix n :: nat assume "n < 256"
  moreover have "list_all (\<lambda>n. is_cont (word_of_nat n) = (unat (word_of_nat n :: u8) div 64 = 2)) [0..<256]"
    by code_simp
  ultimately show "is_cont (word_of_nat n) = (unat (word_of_nat n :: u8) div 64 = 2)" by (simp add: list_all_iff)
qed

lemma unat_cont: "unat (0x3f AND b :: u8) = unat b mod 64"
  unfolding mask6(6) by (subst and.commute) (simp add: word_unat)

lemma cont_step:
  assumes "unat c < 2 ^ 26"
  shows "unat (push_bit 6 c + ucast (0x3f AND b :: u8) :: u32) = unat c * 64 + unat b mod 64"
proof -
  have "unat (push_bit 6 c) = unat c * 64" using assms
    by (simp add: push_bit_eq_mult unat_word_ariths)
  moreover have "unat (ucast (0x3f AND b :: u8) :: u32) = unat b mod 64"
    using unat_cont [of b] by (simp add: unsigned_ucast_eq take_bit_eq_mod)
  ultimately show ?thesis using assms by (subst unat_plus_simple [THEN iffD1]) (auto simp: no_olen_add_nat)
qed

lemma WRITE_UTF8_masks:
  "WRITE_UTF8 c =
     (if unat c < 0x80 then [ucast (c AND mask 8)]
      else if unat c < 0x800 then [utf_byte 0xC0 c 6 (mask 5), utf_byte 0x80 c 0 (mask 6)]
      else if unat c < 0x10000 then [utf_byte 0xE0 c 12 (mask 4), utf_byte 0x80 c 6 (mask 6), utf_byte 0x80 c 0 (mask 6)]
      else [utf_byte 0xF0 c 18 (mask 3), utf_byte 0x80 c 12 (mask 6), utf_byte 0x80 c 6 (mask 6), utf_byte 0x80 c 0 (mask 6)])"
  unfolding WRITE_UTF8_def mask6 word_less_nat_alt by simp

lemmas utf_byte_leads =
  utf_byte_nat [of "0x80" 6, simplified] utf_byte_nat [of "0xC0" 5, simplified]
  utf_byte_nat [of "0xE0" 4, simplified] utf_byte_nat [of "0xF0" 3, simplified]

lemma utf8_check_nat:
  "utf8_check c = (if unat c < 0x80 \<or> unat c div 2048 = 27 \<or> unat c div 2 = 32767 then 0xFFFD else c)"
proof -
  have *: "(c AND NOT (mask k) = push_bit k d) = (drop_bit k c = d)" if "unat d < 2 ^ (32 - k)" "k < 32" for k and d :: u32
  proof
    assume "drop_bit k c = d"
    then show "c AND NOT (mask k) = push_bit k d" by (auto simp: bit_simps intro!: bit_word_eqI simp flip: \<open>drop_bit k c = d\<close>)
  next
    assume a: "c AND NOT (mask k) = push_bit k d"
    have "bit (drop_bit k c) i = bit d i" if "i < 32" for i
    proof (cases "k + i < 32")
      case True
      have "bit (c AND NOT (mask k)) (k + i) = bit (push_bit k d) (k + i)" using a by simp
      then show ?thesis using True by (simp add: bit_simps)
    next
      case False
      have "\<not> bit d i"
      proof
        assume "bit d i"
        then have "bit (unat d) i" by (simp add: bit_unsigned_iff)
        then have "odd (unat d div 2 ^ i)" by (simp add: bit_iff_odd)
        moreover have "(2::nat) ^ (32 - k) \<le> 2 ^ i" using False by (intro power_increasing) auto
        then have "unat d div 2 ^ i = 0" using \<open>unat d < 2 ^ (32 - k)\<close> by (meson div_less less_le_trans)
        ultimately show False by simp
      qed
      then show ?thesis using False bit_imp_le_length [of c "k + i"] by (auto simp: bit_simps)
    qed
    then show "drop_bit k c = d" by (auto intro!: bit_word_eqI)
  qed
  have 1: "(c AND 0xFFFFF800 = 0xD800) = (unat c div 2048 = 27)"
  proof -
    have "0xFFFFF800 = NOT (mask 11 :: u32)" "0xD800 = (push_bit 11 27 :: u32)" by (simp_all add: mask_numeral)
    then have "(c AND 0xFFFFF800 = 0xD800) = (drop_bit 11 c = 27)" using * [of 27 11] by simp
    also have "\<dots> = (unat (drop_bit 11 c) = unat (27 :: u32))" by (simp only: word_unat_eq_iff [symmetric])
    finally show ?thesis by (simp add: word_unat)
  qed
  have 2: "(c AND 0xFFFFFFFE = 0xFFFE) = (unat c div 2 = 32767)"
  proof -
    have "0xFFFFFFFE = NOT (mask 1 :: u32)" "0xFFFE = (push_bit 1 32767 :: u32)" by (simp_all add: mask_numeral)
    then have "(c AND 0xFFFFFFFE = 0xFFFE) = (drop_bit 1 c = 32767)" using * [of 32767 1] by (simp del: One_nat_def)
    also have "\<dots> = (unat (drop_bit 1 c) = unat (32767 :: u32))" by (simp only: word_unat_eq_iff [symmetric])
    finally show ?thesis by (simp add: word_unat del: One_nat_def)
  qed
  have 3: "(c < 0x80) = (unat c < 0x80)" by (simp add: word_less_nat_alt)
  show ?thesis unfolding utf8_check_def 1 2 3 by simp
qed

subsection \<open>Decoding what was encoded\<close>

abbreviation cont_fold :: "u32 \<Rightarrow> bytes \<Rightarrow> u32" where
  "cont_fold \<equiv> foldl (\<lambda>c b. push_bit 6 c + ucast (0x3f AND b))"

lemma cont_fold_nat:
  "(unat c + 1) * 64 ^ length bs \<le> 2 ^ 32
   \<Longrightarrow> unat (cont_fold c bs) = foldl (\<lambda>n b. n * 64 + unat b mod 64) (unat c) bs"
proof (induction bs arbitrary: c)
  case (Cons b bs)
  let ?c = "push_bit 6 c + ucast (0x3f AND b)"
  have p: "((unat c + 1) * 64) * 64 ^ length bs \<le> 2 ^ 32" using Cons.prems by (simp add: algebra_simps)
  have q: "((unat c + 1) * 64) * 1 \<le> ((unat c + 1) * 64) * 64 ^ length bs" by (intro mult_le_mono) auto
  from order_trans [OF q p] have "unat c < 2 ^ 26" by simp
  then have u: "unat ?c = unat c * 64 + unat b mod 64" by (rule cont_step)
  have "(unat ?c + 1) * 64 ^ length bs \<le> ((unat c + 1) * 64) * 64 ^ length bs"
    unfolding u using mod_less_divisor [of 64 "unat b"] by (intro mult_le_mono) auto
  then have "(unat ?c + 1) * 64 ^ length bs \<le> 2 ^ 32" using p by linarith
  from Cons.IH [OF this] show ?case by (simp add: u)
qed simp

lemma utf8_cont_list:
  assumes "list_all is_cont bs" "length pre + length bs \<le> zTerm"
    "zTerm = length pre + length bs \<or> \<not> is_cont (byte_at rest 0)"
  shows "utf8_cont (pre @ bs @ rest) zTerm (length pre) c = (cont_fold c bs, length pre + length bs)"
  using assms
proof (induction bs arbitrary: pre c)
  case Nil
  then show ?case by (subst utf8_cont.simps) (auto simp: byte_simps)
next
  case (Cons b bs)
  have "utf8_cont ((pre @ [b]) @ bs @ rest) zTerm (length (pre @ [b])) (push_bit 6 c + ucast (0x3f AND b))
    = (cont_fold (push_bit 6 c + ucast (0x3f AND b)) bs, length (pre @ [b]) + length bs)"
    by (rule Cons.IH) (use Cons.prems in auto)
  moreover have "byte_at (pre @ (b # bs) @ rest) (length pre) = b" by (simp add: byte_simps)
  ultimately show ?case using Cons.prems by (subst utf8_cont.simps) simp
qed

lemma READ_UTF8_list:
  assumes "list_all is_cont bs" "length pre + 1 + length bs \<le> zTerm"
    "zTerm = length pre + 1 + length bs \<or> \<not> is_cont (byte_at rest 0)"
    "unat b = 192 + k" "sqlite3Utf8Trans1 ! k = word_of_nat m" "m < 32"
  shows "READ_UTF8 (pre @ (b # bs) @ rest) zTerm (length pre)
    = (utf8_check (cont_fold (word_of_nat m) bs), length pre + length (b # bs))"
proof -
  have "utf8_cont ((pre @ [b]) @ bs @ rest) zTerm (length (pre @ [b])) (word_of_nat m)
     = (cont_fold (word_of_nat m) bs, length (pre @ [b]) + length bs)"
    by (rule utf8_cont_list) (use assms in auto)
  moreover have "ucast (word_of_nat m :: u8) = (word_of_nat m :: u32)"
    using \<open>m < 32\<close> by (simp add: word_unat_eq_iff unsigned_ucast_eq take_bit_eq_mod unsigned_of_nat)
  moreover have "unat (b - 0xc0) = k"
    using assms(4) by (simp add: unat_sub word_le_nat_alt)
  moreover have "0xc0 \<le> b" using assms(4) by (simp add: word_le_nat_alt)
  moreover have "byte_at (pre @ (b # bs) @ rest) (length pre) = b" by (simp add: byte_simps)
  ultimately show ?thesis using assms(5) by (simp add: READ_UTF8_def)
qed

lemma is_cont_utf_byte: "is_cont (utf_byte 0x80 c s (mask 6))"
  by (simp add: is_cont_nat utf_byte_leads)

lemma unat_small_word32: "k < 64 \<Longrightarrow> unat (word_of_nat k :: u32) = k"
  by (simp add: unsigned_of_nat take_bit_eq_mod)

lemma mod64: "(128 + k) mod 64 = k mod (64 :: nat)"
  using mod_mult_self1 [of k 2 64] by (simp add: add.commute)

lemma split64_3: "((n div 4096) * 64 + n div 2 ^ 6 mod 64) * 64 + n div 2 ^ 0 mod 64 = (n :: nat)"
  using div_mult_mod_eq [of n 64] div_mult_mod_eq [of "n div 64" 64] by (simp add: div_mult2_eq [of n 64 64, simplified])

lemma split64_4: "((n div 262144 * 64 + n div 2 ^ 12 mod 64) * 64 + n div 2 ^ 6 mod 64) * 64 + n div 2 ^ 0 mod 64 = (n :: nat)"
  using split64_3 [of n] div_mult_mod_eq [of "n div 4096" 64] by (simp add: div_mult2_eq [of n 4096 64, simplified])

theorem READ_WRITE_UTF8:
  assumes "unat c < 0x200000" "length pre + length (WRITE_UTF8 c) \<le> zTerm"
    "zTerm = length pre + length (WRITE_UTF8 c) \<or> \<not> is_cont (byte_at rest 0)"
  shows "READ_UTF8 (pre @ WRITE_UTF8 c @ rest) zTerm (length pre)
    = (if unat c < 0x80 then c else utf8_check c, length pre + length (WRITE_UTF8 c))"
proof -
  let ?n = "unat c"
  let ?d = "\<lambda>k. (?n div 2 ^ k) mod 64"
  have n: "?n < 0x200000" by fact
  have eq: "c' = c" if "unat c' = ?n" for c' :: u32 using that by (simp add: word_unat_eq_iff)
  consider (a) "?n < 0x80" | (b) "0x80 \<le> ?n" "?n < 0x800" | (c) "0x800 \<le> ?n" "?n < 0x10000" | (d) "0x10000 \<le> ?n"
    by linarith
  then show ?thesis
  proof cases
    case a
    define b :: u8 where "b = ucast (c AND mask 8)"
    have u: "unat b = ?n" unfolding b_def using a
      by (subst unat_ucast_small) (simp_all add: word_unat)
    have "(ucast b :: u32) = c" using u a by (intro eq) (simp add: unsigned_ucast_eq take_bit_eq_mod)
    moreover have "\<not> 0xc0 \<le> b" using u a by (simp add: word_le_nat_alt)
    moreover have w: "WRITE_UTF8 c = [b]" using a by (simp add: WRITE_UTF8_masks b_def)
    ultimately show ?thesis using a unfolding w by (simp add: READ_UTF8_def byte_simps)
  next
    case b
    let ?m = "?n div 64"
    have m: "?m < 32" using b by simp
    have u: "unat (utf_byte 0xC0 c 6 (mask 5)) = 192 + ?m" using m by (simp add: utf_byte_leads)
    have f: "cont_fold (word_of_nat ?m) [utf_byte 0x80 c 0 (mask 6)] = c"
      using m by (intro eq) (simp add: cont_fold_nat unat_small_word32 utf_byte_leads mod64 del: foldl_Cons foldl_Nil cong: if_cong, simp add: utf_byte_leads mod64)
    have w: "WRITE_UTF8 c = [utf_byte 0xC0 c 6 (mask 5), utf_byte 0x80 c 0 (mask 6)]"
      using b by (simp add: WRITE_UTF8_masks)
    show ?thesis using b assms(2,3) READ_UTF8_list [OF _ _ _ u trans1_table(1) [OF m] m, of "[utf_byte 0x80 c 0 (mask 6)]" pre zTerm rest]
      unfolding w f by (simp add: is_cont_utf_byte)
  next
    case c
    let ?m = "?n div 4096"
    have m: "?m < 16" using c by simp
    have u: "unat (utf_byte 0xE0 c 12 (mask 4)) = 192 + (32 + ?m)" using m by (simp add: utf_byte_leads)
    have s: "(?m * 64 + ?d 6) * 64 + ?d 0 = ?n" by (rule split64_3)
    have f: "cont_fold (word_of_nat ?m) [utf_byte 0x80 c 6 (mask 6), utf_byte 0x80 c 0 (mask 6)] = c"
      using m s by (intro eq) (simp add: cont_fold_nat unat_small_word32 utf_byte_leads mod64 del: foldl_Cons foldl_Nil cong: if_cong, simp add: utf_byte_leads mod64)
    have w: "WRITE_UTF8 c = [utf_byte 0xE0 c 12 (mask 4), utf_byte 0x80 c 6 (mask 6), utf_byte 0x80 c 0 (mask 6)]"
      using c by (simp add: WRITE_UTF8_masks)
    have m': "?m < 32" using m by simp
    show ?thesis using c assms(2,3) READ_UTF8_list [OF _ _ _ u trans1_table(2) [OF m] m', of "[utf_byte 0x80 c 6 (mask 6), utf_byte 0x80 c 0 (mask 6)]" pre zTerm rest]
      unfolding w f by (simp add: is_cont_utf_byte)
  next
    case d
    let ?m = "?n div 262144"
    have m: "?m < 8" using n by simp
    have u: "unat (utf_byte 0xF0 c 18 (mask 3)) = 192 + (48 + ?m)" using m by (simp add: utf_byte_leads)
    have s: "((?m * 64 + ?d 12) * 64 + ?d 6) * 64 + ?d 0 = ?n" by (rule split64_4)
    have f: "cont_fold (word_of_nat ?m) [utf_byte 0x80 c 12 (mask 6), utf_byte 0x80 c 6 (mask 6), utf_byte 0x80 c 0 (mask 6)] = c"
      using m s by (intro eq) (simp add: cont_fold_nat unat_small_word32 utf_byte_leads mod64 del: foldl_Cons foldl_Nil cong: if_cong, simp add: utf_byte_leads mod64)
    have w: "WRITE_UTF8 c = [utf_byte 0xF0 c 18 (mask 3), utf_byte 0x80 c 12 (mask 6), utf_byte 0x80 c 6 (mask 6), utf_byte 0x80 c 0 (mask 6)]"
      using d by (simp add: WRITE_UTF8_masks)
    have m': "?m < 32" using m by simp
    show ?thesis using d assms(2,3) READ_UTF8_list [OF _ _ _ u trans1_table(3) [OF m] m', of "[utf_byte 0x80 c 12 (mask 6), utf_byte 0x80 c 6 (mask 6), utf_byte 0x80 c 0 (mask 6)]" pre zTerm rest]
      unfolding w f by (simp add: is_cont_utf_byte)
  qed
qed

subsection \<open>UTF-16 units\<close>

lemma unat_and_shifted_mask [word_unat]:
  "unat (w AND push_bit k (mask m)) = (unat (w :: 'a::len word) div 2 ^ k mod 2 ^ m) * 2 ^ k"
proof -
  have e: "w AND push_bit k (mask m) = push_bit k (take_bit m (drop_bit k w))"
    by (auto simp: bit_eq_iff bit_simps bit_mask_iff dest: bit_imp_le_length)
  let ?t = "take_bit m (drop_bit k w)"
  have u: "unat ?t = unat w div 2 ^ k mod 2 ^ m"
    unfolding unsigned_take_bit_eq unfolding unat_drop_bit take_bit_eq_mod by (rule refl)
  have "unat ?t * 2 ^ k \<le> (unat w div 2 ^ k) * 2 ^ k"
    unfolding u by (intro mult_le_mono1 mod_less_eq_dividend)
  also have "\<dots> \<le> unat w" by (rule div_times_less_eq_dividend)
  finally have "unat ?t * 2 ^ k < 2 ^ LENGTH('a)" using unsigned_less [of w] by (rule le_less_trans)
  then have "unat (push_bit k ?t) = unat ?t * 2 ^ k"
    by (simp only: unsigned_push_bit_eq push_bit_eq_mult [of k "unat ?t"] take_bit_nat_eq_self)
  then show ?thesis unfolding e u .
qed

definition scalar :: "u32 \<Rightarrow> bool" where
  "scalar c \<longleftrightarrow> unat c < 0x110000 \<and> unat c div 2048 \<noteq> 27 \<and> unat c div 2 \<noteq> 32767"


lemma unat_add_less: "unat a + unat b < 2 ^ LENGTH('a) \<Longrightarrow> unat (a + b :: 'a::len word) = unat a + unat b"
  by (subst unat_plus_simple [THEN iffD1]) (auto simp: no_olen_add_nat)

lemma unat_push_less: "unat a * 2 ^ k < 2 ^ LENGTH('a) \<Longrightarrow> unat (push_bit k a :: 'a::len word) = unat a * 2 ^ k"
  by (simp only: unsigned_push_bit_eq push_bit_eq_mult [of k "unat a"] take_bit_nat_eq_self)

lemma unat_u8_u32: "unat (ucast (b :: u8) :: u32) = unat b"
  using unat_u8 [of b] by (simp add: unsigned_ucast_eq take_bit_eq_mod)

lemma unit16_nat:
  "unat (unit16le z i) = unat (byte_at z i) + 256 * unat (byte_at z (i + 1))"
  "unat (unit16be z i) = 256 * unat (byte_at z i) + unat (byte_at z (i + 1))"
proof -
  have p: "unat (push_bit 8 (ucast b :: u32)) = 256 * unat (b :: u8)" for b
    using unat_u8 [of b] by (subst unat_push_less) (simp_all add: unat_u8_u32)
  show "unat (unit16le z i) = unat (byte_at z i) + 256 * unat (byte_at z (i + 1))"
    "unat (unit16be z i) = 256 * unat (byte_at z i) + unat (byte_at z (i + 1))"
    unfolding unit16le_def unit16be_def
    using unat_u8 [of "byte_at z i"] unat_u8 [of "byte_at z (i + 1)"]
    by (subst unat_add_less; simp add: p unat_u8_u32)+
qed

lemma mask16: "0x03FF = (mask 10 :: u32)" "0x003F = (mask 6 :: u32)" "0x03C0 = (push_bit 6 (mask 4) :: u32)"
   "0x00C0 = (push_bit 6 (mask 2) :: u32)" "0x03 = (mask 2 :: u32)" "0x00FF = (mask 8 :: u32)"
  by (simp_all add: mask_numeral)

lemma join_surrogates_nat:
  "unat (join_surrogates c d)
   = unat d mod 1024 + (unat c mod 64) * 1024 + ((unat c div 64 mod 16) * 64 + 64) * 1024"
proof -
  have b: "unat d mod 1024 < 1024" "unat c mod 64 < 64" "unat c div 64 mod 16 < 16" by simp_all
  have 1: "unat (d AND 0x03FF) = unat d mod 1024" unfolding mask16(1) by (simp add: word_unat)
  have 2: "unat (push_bit 10 (c AND 0x003F)) = (unat c mod 64) * 1024"
    unfolding mask16(2) using b by (subst unat_push_less) (simp_all add: word_unat)
  have "unat (c AND 0x03C0) = (unat c div 64 mod 16) * 64"
    unfolding mask16(3) by (subst word_unat) simp
  then have "unat ((c AND 0x03C0) + 0x0040) = (unat c div 64 mod 16) * 64 + 64"
    using b by (subst unat_add_less) simp_all
  then have 3: "unat (push_bit 10 ((c AND 0x03C0) + 0x0040)) = ((unat c div 64 mod 16) * 64 + 64) * 1024"
    using b by (subst unat_push_less) simp_all
  have 4: "unat ((d AND 0x03FF) + push_bit 10 (c AND 0x003F)) = unat d mod 1024 + (unat c mod 64) * 1024"
    using b 1 2 by (subst unat_add_less) simp_all
  show ?thesis unfolding join_surrogates_def using b 3 4 by (subst unat_add_less) simp_all
qed

lemma surrogate_bytes:
  assumes "0x10000 \<le> unat c" "unat c < 0x110000"
  defines "m \<equiv> unat c - 0x10000"
  shows "map unat (surrogate_lead c) = [m div 1024 mod 256, 0xD8 + m div 262144]"
    "map unat (surrogate_trail c) = [m mod 256, 0xDC + m div 256 mod 4]"
proof -
  have n: "unat c = m + 0x10000" and m: "m < 0x100000" using assms by auto
  have s: "unat (c - 0x10000) = m" using assms by (simp add: unat_sub word_le_nat_alt)
  have "(m + 65536) div 1024 = m div 1024 + 64" using div_mult_self1 [of 1024 m 64] by simp
  then have a1: "(m + 65536) div 1024 mod 64 = m div 1024 mod 64" by (simp only: mod_add_self2)
  have a2: "(m + 65536) mod 256 = m mod 256" using mod_mult_self1 [of m 256 256] by simp
  have "(m + 65536) div 256 = m div 256 + 256" using div_mult_self1 [of 256 m 256] by simp
  then have a3: "(m + 65536) div 256 mod 4 = m div 256 mod 4" using mod_mult_self1 [of "m div 256" 64 4] by simp
  note a = a1 a2 a3
  have 1: "unat (drop_bit 10 c AND 0x003F) = m div 1024 mod 64"
    unfolding mask16(2) by (simp add: word_unat n a)
  have 2: "unat (drop_bit 10 (c - 0x10000) AND 0x00C0) = (m div 65536 mod 4) * 64"
    unfolding mask16(4) by (subst unat_and_shifted_mask) (simp add: unat_drop_bit s flip: div_mult2_eq)
  have 3: "unat (drop_bit 18 (c - 0x10000) AND 0x03) = m div 262144"
    unfolding mask16(5) using m by (simp add: unat_and_mask unat_drop_bit s)
  have 4: "unat (c AND 0x00FF) = m mod 256"
    unfolding mask16(6) by (simp add: word_unat n a)
  have 5: "unat (drop_bit 8 c AND 0x03) = m div 256 mod 4"
    unfolding mask16(5) by (simp add: word_unat n a)
  have d: "m div 1024 mod 64 + (m div 65536 mod 4) * 64 = m div 1024 mod 256"
    using mod_mult2_eq [of "m div 1024" 64 4] by (simp flip: div_mult2_eq)
  have 6: "unat ((drop_bit 10 c AND 0x003F) + (drop_bit 10 (c - 0x10000) AND 0x00C0)) = m div 1024 mod 256"
    using 1 2 d mod_less_divisor [of 256 "m div 1024"] by (subst unat_add_less) (simp_all del: mod_less_divisor)
  have 7: "unat (0x00D8 + (drop_bit 18 (c - 0x10000) AND 0x03)) = 0xD8 + m div 262144"
    using 3 m by (subst unat_add_less) simp_all
  have 8: "unat (0x00DC + (drop_bit 8 c AND 0x03)) = 0xDC + m div 256 mod 4"
    using 5 by (subst unat_add_less) simp_all
  show "map unat (surrogate_lead c) = [m div 1024 mod 256, 0xD8 + m div 262144]"
    using 6 7 m by (simp add: surrogate_lead_def unat_ucast_small)
  show "map unat (surrogate_trail c) = [m mod 256, 0xDC + m div 256 mod 4]"
    using 4 8 by (simp add: surrogate_trail_def unat_ucast_small)
qed


lemma eq_pair_nat: "map unat bs = [a, b] \<Longrightarrow> \<exists>x y. bs = [x, y] \<and> unat x = a \<and> unat y = b"
  by (cases bs; cases "tl bs") auto

text \<open>Reading back one written character, in both byte orders.\<close>

definition utf16_read :: "(bytes \<Rightarrow> nat \<Rightarrow> u32) \<Rightarrow> bytes \<Rightarrow> nat \<Rightarrow> nat \<Rightarrow> u32 \<times> nat" where
  "utf16_read unit z zTerm i =
     (let c = unit z i in
      if 0xd800 \<le> c \<and> c < 0xe000 \<and> i + 2 < zTerm then (join_surrogates c (unit z (i + 2)), i + 4) else (c, i + 2))"

lemma utf16_to_utf8_read:
  "utf16_to_utf8 unit z zTerm i =
     (if i < zTerm then WRITE_UTF8 (fst (utf16_read unit z zTerm i)) @ utf16_to_utf8 unit z zTerm (snd (utf16_read unit z zTerm i))
      else [])"
  by (subst utf16_to_utf8.simps) (simp add: utf16_read_def Let_def)

lemma WRITE_UTF16_short:
  assumes "unat c \<le> 0xFFFF"
  shows "\<exists>lo hi. WRITE_UTF16LE c = [lo, hi] \<and> WRITE_UTF16BE c = [hi, lo] \<and> unat lo + 256 * unat hi = unat c"
proof -
  have 1: "unat (ucast (c AND 0x00FF) :: u8) = unat c mod 256"
    unfolding mask16(6) by (subst unat_ucast_small) (simp_all add: word_unat)
  have 2: "unat (ucast (drop_bit 8 c AND 0x00FF) :: u8) = unat c div 256"
    unfolding mask16(6) using assms by (subst unat_ucast_small) (simp_all add: word_unat)
  show ?thesis using assms 1 2 by (simp add: WRITE_UTF16LE_def WRITE_UTF16BE_def word_le_nat_alt)
qed

lemma WRITE_UTF16_long:
  assumes "0x10000 \<le> unat c" "unat c < 0x110000"
  defines "m \<equiv> unat c - 0x10000"
  shows "\<exists>a b d e. WRITE_UTF16LE c = [a, b, d, e] \<and> WRITE_UTF16BE c = [b, a, e, d]
           \<and> unat a + 256 * unat b = 0xD800 + m div 1024 \<and> unat d + 256 * unat e = 0xDC00 + m mod 1024"
proof -
  have m: "m < 0x100000" using assms by auto
  obtain a b where ab: "surrogate_lead c = [a, b]" "unat a = m div 1024 mod 256" "unat b = 0xD8 + m div 262144"
    using eq_pair_nat [OF surrogate_bytes(1)] assms by blast
  obtain d e where de: "surrogate_trail c = [d, e]" "unat d = m mod 256" "unat e = 0xDC + m div 256 mod 4"
    using eq_pair_nat [OF surrogate_bytes(2)] assms by blast
  have "m div 1024 mod 256 + 256 * (m div 262144) = m div 1024"
    using mod_div_mult_eq [of "m div 1024" 256] by (simp flip: div_mult2_eq)
  moreover have "m mod 256 + 256 * (m div 256 mod 4) = m mod 1024"
    using mod_mult2_eq [of m 256 4] by simp
  ultimately show ?thesis using ab de assms
    by (simp add: WRITE_UTF16LE_def WRITE_UTF16BE_def word_le_nat_alt)
qed

lemma join_arith: "x + y = q \<Longrightarrow> x * 1024 + (y + 64) * 1024 = q * 1024 + (65536 :: nat)"
  by auto

lemma utf16_read_write:
  assumes "scalar c" "length pre + length (w c) \<le> zTerm"
    "(w, unit) = (WRITE_UTF16LE, unit16le) \<or> (w, unit) = (WRITE_UTF16BE, unit16be)"
  shows "utf16_read unit (pre @ w c @ rest) zTerm (length pre) = (c, length pre + length (w c))"
proof (cases "unat c \<le> 0xFFFF")
  case True
  then obtain lo hi where w: "WRITE_UTF16LE c = [lo, hi]" "WRITE_UTF16BE c = [hi, lo]" "unat lo + 256 * unat hi = unat c"
    using WRITE_UTF16_short by blast
  then have u: "unit (pre @ w c @ rest) (length pre) = c" and l: "length (w c) = 2"
    using assms(3) by (auto simp: word_unat_eq_iff unit16_nat byte_simps)
  have "\<not> (0xd800 \<le> c \<and> c < 0xe000)"
  proof
    assume "0xd800 \<le> c \<and> c < 0xe000"
    then have "0xd800 \<le> unat c" "unat c < 0xe000" by (simp_all add: word_le_nat_alt word_less_nat_alt)
    then have "unat c div 2048 = 27" by linarith
    then show False using assms(1) by (simp add: scalar_def)
  qed
  then show ?thesis unfolding utf16_read_def u using l by (auto simp: Let_def)
next
  case False
  define m where "m = unat c - 0x10000"
  have n: "unat c = m + 0x10000" "m < 0x100000" using False assms(1) by (auto simp: m_def scalar_def)
  obtain a b d e where w: "WRITE_UTF16LE c = [a, b, d, e]" "WRITE_UTF16BE c = [b, a, e, d]"
      "unat a + 256 * unat b = 0xD800 + m div 1024" "unat d + 256 * unat e = 0xDC00 + m mod 1024"
    using WRITE_UTF16_long [of c] False assms(1) by (auto simp: m_def scalar_def)
  let ?z = "pre @ w c @ rest" and ?i = "length pre"
  have u: "unat (unit ?z ?i) = 0xD800 + m div 1024" "unat (unit ?z (?i + 2)) = 0xDC00 + m mod 1024" "length (w c) = 4"
    using assms(3) w by (auto simp: unit16_nat byte_simps)
  have "m div 1024 < 1024" using n(2) by simp
  then have range: "0xd800 \<le> unit ?z ?i" "unit ?z ?i < 0xe000"
    using u by (simp_all add: word_le_nat_alt word_less_nat_alt)
  have "unat (join_surrogates (unit ?z ?i) (unit ?z (?i + 2))) = unat c"
  proof -
    let ?q = "m div 1024"
    have e1: "(0xD800 + ?q) mod 64 = ?q mod 64" using mod_mult_self1 [of ?q 864 64] by (simp add: add.commute)
    have e2: "(0xD800 + ?q) div 64 mod 16 = ?q div 64"
      using div_mult_self1 [of 64 ?q 864] mod_mult_self1 [of "?q div 64" 54 16] \<open>?q < 1024\<close> by (simp add: add.commute)
    have e3: "(0xDC00 + m mod 1024) mod 1024 = m mod 1024" using mod_mult_self1 [of "m mod 1024" 55 1024] by (simp add: add.commute)
    have e4: "?q mod 64 * 1024 + (?q div 64 * 64 + 64) * 1024 = ?q * 1024 + 65536"
      by (rule join_arith) (rule mod_div_mult_eq)
    have "unat (join_surrogates (unit ?z ?i) (unit ?z (?i + 2))) = m mod 1024 + ?q * 1024 + 65536"
      unfolding join_surrogates_nat u e1 e2 e3 add.assoc e4 ..
    also have "\<dots> = unat c" unfolding n(1) mod_div_mult_eq ..
    finally show ?thesis .
  qed
  then have "join_surrogates (unit ?z ?i) (unit ?z (?i + 2)) = c" by (simp add: word_unat_eq_iff)
  then show ?thesis unfolding utf16_read_def using range u(3) assms(2) by (simp add: Let_def)
qed

end
