(* ===== verification/Utf_Translate.thy ===== *)
theory Utf_Translate
  imports Utf
begin

section \<open>Translation of string values between encodings (utf.c)\<close>

text \<open>
  \<open>sqlite3VdbeMemTranslate\<close>, the byte-order mark and the character counts on the string values of the
  virtual machine, over the single-character routines of \<open>Utf\<close>.
\<close>

subsection \<open>String values (\<open>Mem\<close>)\<close>

text \<open>
  The fields of a \<open>Mem\<close> the translation reads and writes. \<open>z\<close> is the whole buffer, the first \<open>n\<close>
  bytes of which are the value; \<open>own\<close> says that \<open>z\<close> is the cell's own allocation
  (\<open>szMalloc>0 && z==zMalloc\<close>). \<open>alloc k\<close> tells whether the allocator grants \<open>k\<close> bytes. The
  values are strings, so \<open>MEM_Zero\<close> is not set.
\<close>

record Mem =
  mem_z :: bytes
  mem_n :: nat
  mem_flags :: u16
  mem_enc :: nat
  mem_own :: bool

abbreviation (input) MEM_Null :: u16 where "MEM_Null \<equiv> 0x0001"
abbreviation (input) MEM_Term :: u16 where "MEM_Term \<equiv> 0x0200"
abbreviation (input) MEM_Dyn :: u16 where "MEM_Dyn \<equiv> 0x1000"
abbreviation (input) MEM_Static :: u16 where "MEM_Static \<equiv> 0x2000"
abbreviation (input) MEM_Ephem :: u16 where "MEM_Ephem \<equiv> 0x4000"

abbreviation (input) SQLITE_OK :: nat where "SQLITE_OK \<equiv> 0"
abbreviation (input) SQLITE_NOMEM :: nat where "SQLITE_NOMEM \<equiv> 7"

text \<open>A failed growth leaves a NULL without a buffer.\<close>

definition vdbeMemAddTerminator :: "(nat \<Rightarrow> bool) \<Rightarrow> Mem \<Rightarrow> nat \<times> Mem" where
  "vdbeMemAddTerminator alloc p =
     (if alloc (mem_n p + 3)
      then (SQLITE_OK, p\<lparr>mem_z := take (mem_n p) (mem_z p) @ [0, 0, 0], mem_own := True,
              mem_flags := (mem_flags p AND NOT (MEM_Dyn OR MEM_Ephem OR MEM_Static)) OR MEM_Term\<rparr>)
      else (SQLITE_NOMEM, p\<lparr>mem_z := [], mem_own := False, mem_flags := MEM_Null\<rparr>))"

definition sqlite3VdbeMemMakeWriteable :: "(nat \<Rightarrow> bool) \<Rightarrow> Mem \<Rightarrow> nat \<times> Mem" where
  "sqlite3VdbeMemMakeWriteable alloc p =
     (let (rc, p) = (if \<not> mem_own p then vdbeMemAddTerminator alloc p else (SQLITE_OK, p)) in
      if rc \<noteq> SQLITE_OK then (rc, p) else (SQLITE_OK, p\<lparr>mem_flags := mem_flags p AND NOT MEM_Ephem\<rparr>))"



definition bom_of :: "Mem \<Rightarrow> nat" where
  "bom_of p =
     (if 1 < mem_n p then
        (let b1 = byte_at (mem_z p) 0; b2 = byte_at (mem_z p) 1 in
         if b1 = 0xFF \<and> b2 = 0xFE then SQLITE_UTF16LE
         else if b1 = 0xFE \<and> b2 = 0xFF then SQLITE_UTF16BE else 0)
      else 0)"

definition sqlite3VdbeMemHandleBom :: "(nat \<Rightarrow> bool) \<Rightarrow> Mem \<Rightarrow> nat \<times> Mem" where
  "sqlite3VdbeMemHandleBom alloc p =
     (let bom = bom_of p in
      if bom \<noteq> 0 then
        (let (rc, p) = sqlite3VdbeMemMakeWriteable alloc p in
         if rc = SQLITE_OK then
           (let n = mem_n p - 2; z = mem_z p in
            (rc, p\<lparr>mem_n := n, mem_z := take n (drop 2 z) @ [0, 0] @ drop (n + 2) z,
                   mem_flags := mem_flags p OR MEM_Term, mem_enc := bom\<rparr>))
         else (rc, p))
      else (SQLITE_OK, p))"

subsection \<open>Counting characters\<close>

function skip_cont :: "bytes \<Rightarrow> nat \<Rightarrow> nat" where
  "skip_cont z i = (if is_cont (byte_at z i) then skip_cont z (i + 1) else i)"
  by pat_completeness auto
termination
proof (relation "measure (\<lambda>(z, i). length z - i)", goal_cases)
  case (2 z i)
  then have "i < length z" by (auto simp: byte_at_def is_cont_def split: if_splits)
  then show ?case by simp
qed simp

declare skip_cont.simps [simp del]

definition SQLITE_SKIP_UTF8 :: "bytes \<Rightarrow> nat \<Rightarrow> nat" where
  "SQLITE_SKIP_UTF8 z i = (if 0xc0 \<le> byte_at z i then skip_cont z (i + 1) else i + 1)"

lemma skip_cont_ge: "i \<le> skip_cont z i"
proof (induction z i rule: skip_cont.induct)
  case (1 z i)
  then show ?case by (subst skip_cont.simps) auto
qed

lemma SKIP_UTF8_gt: "i < SQLITE_SKIP_UTF8 z i"
  using skip_cont_ge [of "i + 1" z] by (simp add: SQLITE_SKIP_UTF8_def)

function Utf8CharLen_loop :: "bytes \<Rightarrow> int \<Rightarrow> nat \<Rightarrow> nat \<Rightarrow> nat" where
  "Utf8CharLen_loop z nByte i r =
     (if byte_at z i \<noteq> 0 \<and> (nByte < 0 \<or> int i < nByte) then Utf8CharLen_loop z nByte (SQLITE_SKIP_UTF8 z i) (r + 1) else r)"
  by pat_completeness auto
termination
proof (relation "measure (\<lambda>(z, _, i, _). length z - i)", goal_cases)
  case (2 z nByte i r)
  then have "i < length z" by (auto simp: byte_at_def split: if_splits)
  then show ?case using SKIP_UTF8_gt [of i z] by simp
qed simp

declare Utf8CharLen_loop.simps [simp del]

definition sqlite3Utf8CharLen :: "bytes \<Rightarrow> int \<Rightarrow> nat" where
  "sqlite3Utf8CharLen zIn nByte = Utf8CharLen_loop zIn nByte 0 0"

text \<open>
  On a little-endian machine \<open>z\<close> starts at the high byte, offset 1; \<open>zEnd\<close> is the last byte. The
  result subtracts the odd start again.
\<close>

function Utf16ByteLen_loop :: "bytes \<Rightarrow> int \<Rightarrow> int \<Rightarrow> nat \<Rightarrow> int \<Rightarrow> nat" where
  "Utf16ByteLen_loop zIn nByte nChar i n =
     (if n < nChar \<and> int i \<le> nByte - 1 then
        (let c = byte_at zIn i; i2 = i + 2; d = byte_at zIn i2 in
         Utf16ByteLen_loop zIn nByte nChar
           (if 0xd8 \<le> c \<and> c < 0xdc \<and> int i2 \<le> nByte - 1 \<and> 0xdc \<le> d \<and> d < 0xe0 then i2 + 2 else i2) (n + 1))
      else i)"
  by pat_completeness auto
termination by (relation "measure (\<lambda>(_, _, nChar, _, n). nat (nChar - n))") (auto simp: Let_def)

declare Utf16ByteLen_loop.simps [simp del]

definition sqlite3Utf16ByteLen :: "bytes \<Rightarrow> int \<Rightarrow> int \<Rightarrow> nat" where
  "sqlite3Utf16ByteLen zIn nByte nChar = Utf16ByteLen_loop zIn nByte nChar 1 0 - 1"

subsection \<open>Strings of scalar values\<close>

definition utf8_text :: "u32 list \<Rightarrow> bytes" where
  "utf8_text cs = concat (map WRITE_UTF8 cs)"

lemma WRITE_UTF8_shape:
  assumes "unat c < 0x200000"
  obtains b bs where "WRITE_UTF8 c = b # bs" "list_all is_cont bs" "\<not> is_cont b"
    "if unat c < 0x80 then bs = [] \<and> unat b = unat c else 0xc0 \<le> b"
proof (cases "unat c < 0x80")
  case True
  then have "unat (ucast (c AND mask 8) :: u8) = unat c"
    by (subst unat_ucast_small) (simp_all add: word_unat)
  then show thesis using True by (intro that [of "ucast (c AND mask 8)" "[]"]) (simp_all add: WRITE_UTF8_masks is_cont_nat)
next
  case False
  have lead: "0xc0 \<le> b \<and> \<not> is_cont b" if "unat b = 192 + k" for b :: u8 and k
    using that unat_u8 [of b] by (simp add: is_cont_nat word_le_nat_alt)
  consider "unat c < 0x800" | "0x800 \<le> unat c" "unat c < 0x10000" | "0x10000 \<le> unat c" by linarith
  then show thesis
  proof cases
    case 1
    have "unat (utf_byte 0xC0 c 6 (mask 5)) = 192 + (unat c div 64) mod 32" by (simp add: utf_byte_leads)
    from lead [OF this] show thesis using 1 False
      by (intro that [of "utf_byte 0xC0 c 6 (mask 5)" "[utf_byte 0x80 c 0 (mask 6)]"]) (simp_all add: WRITE_UTF8_masks is_cont_utf_byte)
  next
    case 2
    have "unat (utf_byte 0xE0 c 12 (mask 4)) = 192 + (32 + (unat c div 4096) mod 16)" by (simp add: utf_byte_leads)
    from lead [OF this] show thesis using 2
      by (intro that [of "utf_byte 0xE0 c 12 (mask 4)" "[utf_byte 0x80 c 6 (mask 6), utf_byte 0x80 c 0 (mask 6)]"])
        (simp_all add: WRITE_UTF8_masks is_cont_utf_byte)
  next
    case 3
    have "unat (utf_byte 0xF0 c 18 (mask 3)) = 192 + (48 + (unat c div 262144) mod 8)" by (simp add: utf_byte_leads)
    from lead [OF this] show thesis using 3
      by (intro that [of "utf_byte 0xF0 c 18 (mask 3)" "[utf_byte 0x80 c 12 (mask 6), utf_byte 0x80 c 6 (mask 6), utf_byte 0x80 c 0 (mask 6)]"])
        (simp_all add: WRITE_UTF8_masks is_cont_utf_byte)
  qed
qed

lemma scalar_range: "scalar c \<Longrightarrow> unat c < 0x200000"
  by (simp add: scalar_def)


lemma utf8_text_next:
  assumes "list_all scalar cs" "cs \<noteq> []"
  shows "\<not> is_cont (byte_at (utf8_text cs @ rest) 0)"
proof -
  obtain c cs' where cs: "cs = c # cs'" using assms(2) by (cases cs) auto
  then obtain b bs where "WRITE_UTF8 c = b # bs" "\<not> is_cont b"
    using WRITE_UTF8_shape [OF scalar_range [of c]] assms(1) by (metis list.pred_inject(2))
  then show ?thesis by (simp add: cs utf8_text_def byte_simps)
qed















subsection \<open>Self-test and output buffer\<close>

text \<open>The self-test of the encoder and the decoder, for every code point at once: reading back what
  was written consumes exactly the written bytes and yields the character, or U+FFFD for a surrogate
  and for U+FFFE and U+FFFF.\<close>

theorem Utf8_selftest:
  assumes "i < 0x110000"
  shows "sqlite3Utf8Read (WRITE_UTF8 (word_of_nat i) @ 0 # rest) 0
    = (if 0xD800 \<le> i \<and> i \<le> 0xDFFF \<or> i = 0xFFFE \<or> i = 0xFFFF then 0xFFFD else word_of_nat i,
       length (WRITE_UTF8 (word_of_nat i)))"
proof -
  let ?c = "word_of_nat i :: u32" and ?z = "WRITE_UTF8 (word_of_nat i) @ 0 # rest"
  have n: "unat ?c = i" using assms by (simp add: unsigned_of_nat take_bit_eq_mod)
  have "is_cont (byte_at (0 # rest) 0) = False" by (simp add: byte_simps is_cont_def)
  then have "READ_UTF8 ([] @ ?z) (length ?z) (length ([] :: bytes))
     = (if unat ?c < 0x80 then ?c else utf8_check ?c, length ([] :: bytes) + length (WRITE_UTF8 ?c))"
    using assms by (intro READ_WRITE_UTF8) (auto simp: n)
  moreover have "sqlite3Utf8Read ?z 0 = READ_UTF8 ?z (length ?z) 0"
    unfolding sqlite3Utf8Read_def READ_UTF8_def ..
  moreover have "(i div 2048 = 27) = (0xD800 \<le> i \<and> i \<le> 0xDFFF)" "(i div 2 = 32767) = (i = 0xFFFE \<or> i = 0xFFFF)"
    by auto
  ultimately show ?thesis by (auto simp: utf8_check_nat n)
qed

theorem Utf8_selftest_witness:
  "sqlite3Utf8Read (WRITE_UTF8 (word_of_nat 0x20AC) @ 0 # []) 0 = (0x20AC, length (WRITE_UTF8 (word_of_nat 0x20AC)))"
  using Utf8_selftest [of "0x20AC" "[]"] by simp











subsection \<open>Counting\<close>

lemma skip_cont_list:
  assumes "list_all is_cont bs"
  shows "length pre + length bs \<le> skip_cont (pre @ bs @ rest) (length pre)
     \<and> (\<not> is_cont (byte_at rest 0) \<longrightarrow> skip_cont (pre @ bs @ rest) (length pre) = length pre + length bs)"
  using assms
proof (induction bs arbitrary: pre)
  case Nil
  then show ?case using skip_cont_ge [of "length pre" "pre @ rest"] by (subst (2) skip_cont.simps) (auto simp: byte_simps)
next
  case (Cons b bs)
  have "byte_at (pre @ (b # bs) @ rest) (length pre) = b" by (simp add: byte_simps)
  then have "skip_cont (pre @ (b # bs) @ rest) (length pre) = skip_cont ((pre @ [b]) @ bs @ rest) (length (pre @ [b]))"
    using Cons.prems by (subst skip_cont.simps) simp
  then show ?case using Cons.IH [of "pre @ [b]"] Cons.prems by simp
qed

lemma CharLen_text:
  assumes "list_all scalar cs" "0 \<notin> set cs" "nByte < 0 \<and> byte_at rest 0 = 0 \<or> nByte = int (length pre + length (utf8_text cs))"
  shows "Utf8CharLen_loop (pre @ utf8_text cs @ rest) nByte (length pre) r = r + length cs"
  using assms
proof (induction cs arbitrary: pre r)
  case Nil
  then show ?case by (subst Utf8CharLen_loop.simps) (auto simp: utf8_text_def byte_simps)
next
  case (Cons c cs)
  then have c: "scalar c" "list_all scalar cs" "c \<noteq> 0" by auto
  obtain b bs where b: "WRITE_UTF8 c = b # bs" "list_all is_cont bs" "\<not> is_cont b"
    "if unat c < 0x80 then bs = [] \<and> unat b = unat c else 0xc0 \<le> b"
    using WRITE_UTF8_shape [OF scalar_range [OF c(1)]] by blast
  let ?rest = "utf8_text cs @ rest" and ?z = "pre @ utf8_text (c # cs) @ rest"
  have z: "?z = pre @ (b # bs) @ ?rest" by (simp add: utf8_text_def b(1))
  have at: "byte_at ?z (length pre) = b" unfolding z by (simp add: byte_simps)
  have "b \<noteq> 0" using b(4) c(3) by (auto simp: word_unat_eq_iff word_le_nat_alt split: if_splits)
  have e: "length (WRITE_UTF8 c) = length (b # bs)" by (simp add: b(1))
  have lt: "nByte < 0 \<or> int (length pre) < nByte" using Cons.prems(3) b(1) by (auto simp: utf8_text_def)
  have skip: "SQLITE_SKIP_UTF8 ?z (length pre) \<ge> length pre + length (b # bs)
      \<and> (\<not> is_cont (byte_at ?rest 0) \<longrightarrow> SQLITE_SKIP_UTF8 ?z (length pre) = length pre + length (b # bs))"
    using skip_cont_list [OF b(2), of "pre @ [b]" ?rest] b(4) at
    by (auto simp: SQLITE_SKIP_UTF8_def z word_le_nat_alt split: if_splits)
  show ?case
  proof (cases "is_cont (byte_at ?rest 0)")
    case False
    have "Utf8CharLen_loop ((pre @ b # bs) @ ?rest) nByte (length (pre @ b # bs)) (r + 1) = r + 1 + length cs"
      by (rule Cons.IH) (use Cons.prems c e in \<open>auto simp: utf8_text_def\<close>)
    then have "Utf8CharLen_loop ?z nByte (SQLITE_SKIP_UTF8 ?z (length pre)) (r + 1) = r + 1 + length cs"
      using skip False z by simp
    then show ?thesis using at \<open>b \<noteq> 0\<close> lt by (subst Utf8CharLen_loop.simps) simp
  next
    case True
    then have "cs = []" using utf8_text_next c(2) by blast
    moreover from this have "byte_at rest 0 \<noteq> 0" using True by (auto simp: utf8_text_def is_cont_def)
    ultimately have "nByte = int (length pre + length (b # bs))" using Cons.prems(3) e by (auto simp: utf8_text_def)
    then have "\<not> int (SQLITE_SKIP_UTF8 ?z (length pre)) < nByte" "\<not> nByte < 0" using skip by auto
    then have "Utf8CharLen_loop ?z nByte (SQLITE_SKIP_UTF8 ?z (length pre)) (r + 1) = r + 1"
      by (subst Utf8CharLen_loop.simps) simp
    then show ?thesis using at \<open>b \<noteq> 0\<close> lt \<open>cs = []\<close> by (subst Utf8CharLen_loop.simps) simp
  qed
qed

text \<open>The character count of a UTF-8 text without NUL is its number of characters, both when the
  text is zero-terminated and when its length in bytes is given, whatever follows it.\<close>

theorem Utf8CharLen_counts:
  assumes "list_all scalar cs" "0 \<notin> set cs"
  shows "sqlite3Utf8CharLen (utf8_text cs @ 0 # rest) (-1) = length cs
     \<and> sqlite3Utf8CharLen (utf8_text cs @ rest) (int (length (utf8_text cs))) = length cs"
  using CharLen_text [OF assms, of "-1" "0 # rest" "[]" 0] CharLen_text [OF assms, of _ rest "[]" 0]
  by (simp_all add: sqlite3Utf8CharLen_def byte_simps)

theorem Utf8CharLen_counts_witness:
  "sqlite3Utf8CharLen (utf8_text [0x41, 0xE9] @ 0 # []) (-1) = 2"
  using Utf8CharLen_counts [of "[0x41, 0xE9]" "[]"] by (simp add: scalar_def)

end
