(* ===== verification/Bitvec.thy ===== *)
theory Bitvec
  imports Sqlite_Prelude Key_Set
begin

section \<open>Page sets as bit vectors (bitvec.c)\<close>

text \<open>
  A \<open>Bitvec\<close> is a set of page numbers between 1 and \<open>iSize\<close> in one of three representations: a
  straight bitmap, an open-addressing hash table, or an array of sub-vectors of \<open>iDivisor\<close> pages
  each. The union and the two tests that tell the representations apart (\<open>iDivisor\<close> is nonzero, else
  \<open>iSize<=BITVEC_NBIT\<close>) are the constructors of the datatype. The constants are those of a build
  with 8-byte pointers. A list of booleans holds the outcomes of the next allocations; when it is
  empty, allocation succeeds.
\<close>

definition BITVEC_SZ :: nat where "BITVEC_SZ = 512"
definition BITVEC_USIZE :: nat where "BITVEC_USIZE = ((BITVEC_SZ - 3 * 4) div 8) * 8"
definition BITVEC_NELEM :: nat where "BITVEC_NELEM = BITVEC_USIZE div 1"
definition BITVEC_NBIT :: nat where "BITVEC_NBIT = BITVEC_NELEM * 8"
definition BITVEC_NINT :: nat where "BITVEC_NINT = BITVEC_USIZE div 4"
definition BITVEC_MXHASH :: nat where "BITVEC_MXHASH = BITVEC_NINT div 2"
definition BITVEC_NPTR :: nat where "BITVEC_NPTR = BITVEC_USIZE div 8"

lemma BITVEC_sizes: "BITVEC_NELEM = 496" "BITVEC_NBIT = 3968" "BITVEC_NINT = 124" "BITVEC_MXHASH = 62" "BITVEC_NPTR = 62"
  by (simp_all add: BITVEC_SZ_def BITVEC_USIZE_def BITVEC_NELEM_def BITVEC_NBIT_def BITVEC_NINT_def
      BITVEC_MXHASH_def BITVEC_NPTR_def)

definition BITVEC_HASH :: "nat \<Rightarrow> nat" where "BITVEC_HASH x = (x * 1) mod BITVEC_NINT"

datatype Bitvec =
    Bitmap (iSize: nat) (aBitmap: "u8 list")
  | Hash (iSize: nat) (nSet: nat) (aHash: "nat list")
  | Sub (iSize: nat) (iDivisor: nat) (apSub: "Bitvec option list")

type_synonym heap = "bool list"

fun malloc_ok :: "heap \<Rightarrow> bool \<times> heap" where
  "malloc_ok [] = (True, [])"
| "malloc_ok (b # m) = (b, m)"

definition bitvec_zero :: "nat \<Rightarrow> Bitvec" where
  "bitvec_zero sz =
     (if sz \<le> BITVEC_NBIT then Bitmap sz (replicate BITVEC_NELEM 0) else Hash sz 0 (replicate BITVEC_NINT 0))"

definition sqlite3BitvecCreate :: "nat \<Rightarrow> heap \<Rightarrow> Bitvec option \<times> heap" where
  "sqlite3BitvecCreate sz m = (let (ok, m) = malloc_ok m in (if ok then Some (bitvec_zero sz) else None, m))"

text \<open>The probe sequence from slot \<open>h\<close> to the first slot that is empty or holds \<open>x\<close>. One round
  over the table is enough when a slot is empty; \<open>None\<close> is a loop that never ends.\<close>

fun probe :: "nat \<Rightarrow> nat list \<Rightarrow> nat \<Rightarrow> nat \<Rightarrow> nat option" where
  "probe 0 a h x = None"
| "probe (Suc f) a h x =
     (if a ! h = 0 \<or> a ! h = x then Some h else probe f a (if h + 1 \<ge> BITVEC_NINT then 0 else h + 1) x)"

lemma sub_smaller [termination_simp]:
  "subs ! k = Some q \<Longrightarrow> k < length subs \<Longrightarrow> size q < Suc (size_list (size_option size) subs)"
  using size_list_estimation' [of "Some q" subs "size q" "size_option size"] nth_mem [of k subs] by simp

text \<open>The walk down to the representation that holds bit \<open>i\<close>; \<open>bin\<close> is in range for every bit of the vector.\<close>

fun bit_test :: "Bitvec \<Rightarrow> nat \<Rightarrow> bool" where
  "bit_test (Bitmap sz bm) i = (bm ! (i div 8) AND push_bit (i mod 8) 1 \<noteq> 0)"
| "bit_test (Hash sz n a) i =
     (case probe BITVEC_NINT a (BITVEC_HASH i) (i + 1) of Some h \<Rightarrow> a ! h = i + 1 | None \<Rightarrow> False)"
| "bit_test (Sub sz d subs) i =
     (if i div d < length subs then (case subs ! (i div d) of None \<Rightarrow> False | Some q \<Rightarrow> bit_test q (i mod d)) else False)"

text \<open>\<open>i--\<close> wraps on a 32-bit unsigned.\<close>

definition sqlite3BitvecTestNotNull :: "Bitvec \<Rightarrow> nat \<Rightarrow> bool" where
  "sqlite3BitvecTestNotNull p i =
     (let i = (if i = 0 then 2 ^ 32 - 1 else i - 1) in if iSize p \<le> i then False else bit_test p i)"

definition sqlite3BitvecTest :: "Bitvec option \<Rightarrow> nat \<Rightarrow> bool" where
  "sqlite3BitvecTest p i = (case p of None \<Rightarrow> False | Some p \<Rightarrow> sqlite3BitvecTestNotNull p i)"

definition new_divisor :: "nat \<Rightarrow> nat" where
  "new_divisor sz =
     (let d = sz div BITVEC_NPTR; d = (if sz mod BITVEC_NPTR \<noteq> 0 then d + 1 else d)
      in if d < BITVEC_NBIT then BITVEC_NBIT else d)"

text \<open>
  The calls that subdivide a table nest at most nine deep for a 32-bit size; \<open>None\<close> is a call that
  ran out of this bound. The result carries \<open>rc\<close>, the vector and the allocator.
\<close>

fun BitvecSet :: "nat \<Rightarrow> heap \<Rightarrow> Bitvec \<Rightarrow> nat \<Rightarrow> (nat \<times> Bitvec \<times> heap) option" where
  "BitvecSet 0 m p i = None"
| "BitvecSet (Suc f) m (Bitmap sz bm) i =
     (let i = i - 1 in Some (0, Bitmap sz (bm[i div 8 := bm ! (i div 8) OR push_bit (i mod 8) 1]), m))"
| "BitvecSet (Suc f) m (Sub sz d subs) i =
     (let i = i - 1; bin = i div d; i = i mod d;
          (q, m) = (case subs ! bin of None \<Rightarrow> sqlite3BitvecCreate d m | Some q \<Rightarrow> (Some q, m))
      in case q of None \<Rightarrow> Some (7, Sub sz d subs, m)
         | Some q \<Rightarrow> (case BitvecSet f m q (i + 1) of None \<Rightarrow> None
             | Some (rc, q, m) \<Rightarrow> Some (rc, Sub sz d (subs[bin := Some q]), m)))"
| "BitvecSet (Suc f) m (Hash sz n a) i =
     (let rehash =
        (let (ok, m) = malloc_ok m in
         if \<not> ok then Some (7, Hash sz n a, m)
         else foldl (\<lambda>r v. case r of None \<Rightarrow> None
                | Some (rc, p, m) \<Rightarrow>
                    if v = 0 then Some (rc, p, m)
                    else (case BitvecSet f m p v of None \<Rightarrow> None | Some (rc', p, m) \<Rightarrow> Some (rc OR rc', p, m)))
                (BitvecSet f m (Sub sz (new_divisor sz) (replicate BITVEC_NPTR None)) i) a)
      in
      let h = BITVEC_HASH (i - 1) in
      if a ! h = 0 then (if n < BITVEC_NINT - 1 then Some (0, Hash sz (n + 1) (a[h := i]), m) else rehash)
      else case probe BITVEC_NINT a h i of
          None \<Rightarrow> None
        | Some h \<Rightarrow>
            if a ! h = i then Some (0, Hash sz n a, m)
            else if BITVEC_MXHASH \<le> n then rehash
            else Some (0, Hash sz (n + 1) (a[h := i]), m))"

definition sqlite3BitvecSet :: "heap \<Rightarrow> Bitvec option \<Rightarrow> nat \<Rightarrow> (nat \<times> Bitvec option \<times> heap) option" where
  "sqlite3BitvecSet m p i =
     (case p of None \<Rightarrow> Some (0, None, m)
      | Some p \<Rightarrow> (case BitvecSet 9 m p i of None \<Rightarrow> None | Some (rc, p, m) \<Rightarrow> Some (rc, Some p, m)))"

definition reinsert :: "nat \<Rightarrow> (nat \<times> nat list) \<Rightarrow> nat \<Rightarrow> (nat \<times> nat list)" where
  "reinsert i = (\<lambda>(n, a) v.
     if v \<noteq> 0 \<and> v \<noteq> i + 1 then
       (case probe BITVEC_NINT a (BITVEC_HASH (v - 1)) 0 of Some h \<Rightarrow> (n + 1, a[h := v]) | None \<Rightarrow> (n, a))
     else (n, a))"

fun bit_clear :: "Bitvec \<Rightarrow> nat \<Rightarrow> Bitvec" where
  "bit_clear (Bitmap sz bm) i = Bitmap sz (bm[i div 8 := bm ! (i div 8) AND NOT (push_bit (i mod 8) 1)])"
| "bit_clear (Hash sz n a) i =
     (let (n, a') = foldl (reinsert i) (0, replicate BITVEC_NINT 0) a in Hash sz n a')"
| "bit_clear (Sub sz d subs) i =
     (if i div d < length subs then
        (case subs ! (i div d) of None \<Rightarrow> Sub sz d subs
         | Some q \<Rightarrow> Sub sz d (subs[i div d := Some (bit_clear q (i mod d))]))
      else Sub sz d subs)"

definition sqlite3BitvecClear :: "Bitvec option \<Rightarrow> nat \<Rightarrow> Bitvec option" where
  "sqlite3BitvecClear p i = (case p of None \<Rightarrow> None | Some p \<Rightarrow> Some (bit_clear p (i - 1)))"

definition sqlite3BitvecSize :: "Bitvec \<Rightarrow> nat" where
  "sqlite3BitvecSize p = iSize p"

subsection \<open>Linear probing\<close>

abbreviation NINT :: nat where "NINT \<equiv> BITVEC_NINT"

lemma next_slot: "h < NINT \<Longrightarrow> (if h + 1 \<ge> NINT then 0 else h + 1) = (h + 1) mod NINT"
  by (auto simp: mod_if)

lemma NINT_pos [simp]: "0 < NINT" by (simp add: BITVEC_sizes)

lemma probe_Suc:
  "h < NINT \<Longrightarrow> probe (Suc f) a h x = (if a ! h = 0 \<or> a ! h = x then Some h else probe f a ((h + 1) mod NINT) x)"
  using next_slot [of h] by simp

lemma mod_shift: "((h + 1) mod NINT + j) mod NINT = (h + Suc j) mod NINT"
  by (simp add: mod_add_left_eq)

declare probe.simps(2) [simp del]

lemma probe_Some:
  assumes "probe f a h x = Some k" "h < NINT"
  shows "\<exists>d<f. k = (h + d) mod NINT \<and> (\<forall>j<d. a ! ((h + j) mod NINT) \<noteq> 0 \<and> a ! ((h + j) mod NINT) \<noteq> x)
           \<and> (a ! k = 0 \<or> a ! k = x)"
  using assms
proof (induction f arbitrary: h)
  case (Suc f)
  let ?h = "(h + 1) mod NINT"
  show ?case
  proof (cases "a ! h = 0 \<or> a ! h = x")
    case True
    then show ?thesis using Suc.prems by (intro exI [of _ 0]) (auto simp: probe_Suc)
  next
    case False
    then have "probe f a ?h x = Some k" using Suc.prems by (simp add: probe_Suc)
    from Suc.IH [OF this] obtain d where d: "d < f" "k = (?h + d) mod NINT" "a ! k = 0 \<or> a ! k = x"
      "\<forall>j<d. a ! ((?h + j) mod NINT) \<noteq> 0 \<and> a ! ((?h + j) mod NINT) \<noteq> x" by auto
    have "a ! ((h + j) mod NINT) \<noteq> 0 \<and> a ! ((h + j) mod NINT) \<noteq> x" if "j < Suc d" for j
    proof (cases j)
      case 0
      then show ?thesis using False Suc.prems by simp
    next
      case (Suc i)
      then show ?thesis using d(4) that unfolding mod_shift by simp
    qed
    then show ?thesis using d(1-3) unfolding mod_shift by (intro exI [of _ "Suc d"]) simp
  qed
qed simp

lemma probe_None:
  assumes "probe f a h x = None" "h < NINT" "j < f"
  shows "a ! ((h + j) mod NINT) \<noteq> 0"
  using assms
proof (induction f arbitrary: h j)
  case (Suc f)
  have n: "probe f a ((h + 1) mod NINT) x = None" "a ! h \<noteq> 0"
    using Suc.prems by (auto simp: probe_Suc split: if_splits)
  show ?case
  proof (cases j)
    case 0
    then show ?thesis using n Suc.prems by simp
  next
    case (Suc i)
    then show ?thesis using Suc.IH [OF n(1), of i] Suc.prems unfolding mod_shift by simp
  qed
qed simp

text \<open>A slot is reachable when its key's probe sequence meets no empty slot before it.\<close>

definition reach :: "nat list \<Rightarrow> nat \<Rightarrow> bool" where
  "reach a k \<longleftrightarrow> (\<exists>d<NINT. k = (BITVEC_HASH (a ! k - 1) + d) mod NINT \<and> (\<forall>j<d. a ! ((BITVEC_HASH (a ! k - 1) + j) mod NINT) \<noteq> 0))"

definition table :: "nat \<Rightarrow> nat list \<Rightarrow> bool" where
  "table n a \<longleftrightarrow> length a = NINT \<and> n = card {k. k < NINT \<and> a ! k \<noteq> 0} \<and> n < NINT \<and> (\<forall>k<NINT. a ! k \<noteq> 0 \<longrightarrow> reach a k)"

definition keys :: "nat list \<Rightarrow> nat set" where "keys a = set a - {0}"

lemma HASH_less [simp]: "BITVEC_HASH x < NINT" by (simp add: BITVEC_HASH_def)

lemma table_empty_slot: "table n a \<Longrightarrow> \<exists>k<NINT. a ! k = 0"
proof (rule ccontr)
  assume t: "table n a" and "\<not> (\<exists>k<NINT. a ! k = 0)"
  then have "{k. k < NINT \<and> a ! k \<noteq> 0} = {..<NINT}" by auto
  then have "card {k. k < NINT \<and> a ! k \<noteq> 0} = NINT" by simp
  moreover have "card {k. k < NINT \<and> a ! k \<noteq> 0} < NINT" using t unfolding table_def by blast
  ultimately show False by linarith
qed

lemma probe_total:
  assumes "table n a" "h < NINT"
  obtains k where "probe NINT a h x = Some k"
proof (cases "probe NINT a h x")
  case None
  obtain k where k: "k < NINT" "a ! k = 0" using table_empty_slot [OF assms(1)] by blast
  define j where "j = (k + NINT - h) mod NINT"
  have "(h + j) mod NINT = (h + (k + NINT - h)) mod NINT" unfolding j_def by (simp add: mod_add_right_eq)
  also have "\<dots> = k" using k assms(2) by simp
  finally have "a ! k \<noteq> 0" using probe_None [OF None assms(2), of j] by (simp add: j_def)
  then show thesis using k by simp
qed (use that in simp)

lemma probe_found:
  assumes "table n a" "probe NINT a (BITVEC_HASH (x - 1)) x = Some k" "0 < x"
  shows "k < NINT" "a ! k = x \<longleftrightarrow> x \<in> keys a" "a ! k = 0 \<or> a ! k = x"
proof -
  obtain d where d: "d < NINT" "k = (BITVEC_HASH (x - 1) + d) mod NINT" "a ! k = 0 \<or> a ! k = x"
    "\<forall>j<d. a ! ((BITVEC_HASH (x - 1) + j) mod NINT) \<noteq> 0 \<and> a ! ((BITVEC_HASH (x - 1) + j) mod NINT) \<noteq> x"
    using probe_Some [OF assms(2)] by auto
  show k: "k < NINT" using d(2) by simp
  show "a ! k = 0 \<or> a ! k = x" by (rule d(3))
  have len: "length a = NINT" using assms(1) by (simp add: table_def)
  have "a ! k = x" if "x \<in> keys a"
  proof -
    obtain l where l: "l < NINT" "a ! l = x" using \<open>x \<in> keys a\<close> len by (auto simp: keys_def in_set_conv_nth)
    have "reach a l" using assms(1,3) l by (simp add: table_def)
    then obtain e where e: "l = (BITVEC_HASH (x - 1) + e) mod NINT" "\<forall>j<e. a ! ((BITVEC_HASH (x - 1) + j) mod NINT) \<noteq> 0"
      unfolding reach_def l(2) by blast
    have "\<not> e < d" using d(4) e(1) l(2) by blast
    then consider "d = e" | "d < e" by linarith
    then show ?thesis
    proof cases
      case 1
      then show ?thesis using d(2) e(1) l(2) by simp
    next
      case 2
      then have "a ! k \<noteq> 0" using e(2) d(2) by blast
      then show ?thesis using d(3) by simp
    qed
  qed
  then show "a ! k = x \<longleftrightarrow> x \<in> keys a" using k len assms(3) by (auto simp: keys_def)
qed

lemma probe_zero_slot:
  assumes "table n a" "probe NINT a (BITVEC_HASH (x - 1)) 0 = Some k"
  shows "k < NINT" "a ! k = 0" "\<exists>d<NINT. k = (BITVEC_HASH (x - 1) + d) mod NINT \<and> (\<forall>j<d. a ! ((BITVEC_HASH (x - 1) + j) mod NINT) \<noteq> 0)"
  using probe_Some [OF assms(2)] by auto

lemma table_insert:
  assumes t: "table n a" and n: "n < NINT - 1" and x: "0 < x" and k: "k < NINT" "a ! k = 0"
    and d: "\<exists>d<NINT. k = (BITVEC_HASH (x - 1) + d) mod NINT \<and> (\<forall>j<d. a ! ((BITVEC_HASH (x - 1) + j) mod NINT) \<noteq> 0)"
  shows "table (n + 1) (a[k := x])" "keys (a[k := x]) = insert x (keys a)"
proof -
  let ?a = "a[k := x]"
  have len: "length a = NINT" using t by (simp add: table_def)
  have nth: "?a ! l = (if l = k then x else a ! l)" if "l < NINT" for l using that len by simp
  have keep: "?a ! (l mod NINT) \<noteq> 0" if "a ! (l mod NINT) \<noteq> 0" for l using that x by (simp add: nth)
  have "{l. l < NINT \<and> ?a ! l \<noteq> 0} = insert k {l. l < NINT \<and> a ! l \<noteq> 0}" using k x by (auto simp: nth)
  moreover have "card (insert k {l. l < NINT \<and> a ! l \<noteq> 0}) = n + 1" using t k by (simp add: table_def)
  moreover have "reach ?a l" if l: "l < NINT" "?a ! l \<noteq> 0" for l
  proof (cases "l = k")
    case True
    obtain e where e: "e < NINT" "k = (BITVEC_HASH (x - 1) + e) mod NINT" "\<forall>j<e. a ! ((BITVEC_HASH (x - 1) + j) mod NINT) \<noteq> 0"
      using d by blast
    show ?thesis unfolding reach_def nth [OF l(1)] using True e keep by auto
  next
    case False
    then have "reach a l" using l t by (simp add: table_def)
    then obtain e where e: "e < NINT" "l = (BITVEC_HASH (a ! l - 1) + e) mod NINT" "\<forall>j<e. a ! ((BITVEC_HASH (a ! l - 1) + j) mod NINT) \<noteq> 0"
      by (auto simp: reach_def)
    show ?thesis unfolding reach_def nth [OF l(1)] using False e keep by auto
  qed
  ultimately show "table (n + 1) ?a" using len n unfolding table_def by simp
  have mem: "y \<in> keys b \<longleftrightarrow> y \<noteq> 0 \<and> (\<exists>l<NINT. b ! l = y)" if "length b = NINT" for b y
    using that by (auto simp: keys_def in_set_conv_nth)
  show "keys ?a = insert x (keys a)"
  proof (rule set_eqI)
    fix y show "y \<in> keys ?a \<longleftrightarrow> y \<in> insert x (keys a)"
    proof -
      have "(\<exists>l<NINT. ?a ! l = y) \<longleftrightarrow> y = x \<or> (\<exists>l<NINT. l \<noteq> k \<and> a ! l = y)"
      proof -
        have "(\<exists>l. l < NINT \<and> ?a ! l = y) \<longleftrightarrow> (\<exists>l. l < NINT \<and> (if l = k then x else a ! l) = y)"
          by (rule ex_cong1) (use nth in auto)
        then show ?thesis using k(1) by auto
      qed
      then have A: "y \<in> keys ?a \<longleftrightarrow> y \<noteq> 0 \<and> (y = x \<or> (\<exists>l<NINT. l \<noteq> k \<and> a ! l = y))"
        using mem [of ?a y] len by simp
      have B: "y \<in> keys a \<longleftrightarrow> y \<noteq> 0 \<and> (\<exists>l<NINT. a ! l = y)" by (rule mem [OF len])
      have C: "(\<exists>l<NINT. l \<noteq> k \<and> a ! l = y) \<longleftrightarrow> (\<exists>l<NINT. a ! l = y)" if "y \<noteq> 0" using k that by auto
      show ?thesis
      proof (cases "y = 0")
        case True
        then show ?thesis using A B x by simp
      next
        case False
        then show ?thesis unfolding A B insert_iff C [OF False] by simp
      qed
    qed
  qed
qed

subsection \<open>Well-formed vectors\<close>

text \<open>
  The invariant: the representation fits the size, a hash table is probeable and never full, and
  every sub-vector has the size \<open>iDivisor\<close>.
\<close>

fun wf :: "Bitvec \<Rightarrow> bool" where
  "wf (Bitmap sz bm) \<longleftrightarrow> sz \<le> BITVEC_NBIT \<and> length bm = BITVEC_NELEM"
| "wf (Hash sz n a) \<longleftrightarrow> BITVEC_NBIT < sz \<and> table n a \<and> (\<forall>x \<in> set a. x \<le> sz)"
| "wf (Sub sz d subs) \<longleftrightarrow> BITVEC_NBIT < sz \<and> d = new_divisor sz \<and> length subs = BITVEC_NPTR
     \<and> list_all (pred_option (\<lambda>q. iSize q = d \<and> wf q)) subs"

lemma new_divisor_eq: "new_divisor sz = max 3968 (sz div 62 + (if sz mod 62 \<noteq> 0 then 1 else 0))"
  unfolding new_divisor_def Let_def BITVEC_sizes by auto

lemma new_divisor_bounds:
  "BITVEC_NBIT \<le> new_divisor sz" "sz \<le> BITVEC_NPTR * new_divisor sz"
  "BITVEC_NBIT < sz \<Longrightarrow> new_divisor sz < sz"
  "sz \<le> 62 * c \<Longrightarrow> 3968 \<le> c \<Longrightarrow> new_divisor sz \<le> c"
proof -
  have ceil: "sz div 62 + (if sz mod 62 \<noteq> 0 then 1 else 0) \<le> c \<longleftrightarrow> sz \<le> 62 * c" for c :: nat
  proof -
    define q r where "q = sz div 62" and "r = sz mod 62"
    have sz: "sz = 62 * q + r" "r < 62" by (simp_all add: q_def r_def)
    show ?thesis unfolding q_def [symmetric] r_def [symmetric] using sz by (cases "r = 0") (simp, simp, linarith)
  qed
  show "BITVEC_NBIT \<le> new_divisor sz" by (simp add: new_divisor_eq BITVEC_sizes)
  show "sz \<le> BITVEC_NPTR * new_divisor sz" using ceil [of "new_divisor sz"] by (simp add: new_divisor_eq BITVEC_sizes)
  show "BITVEC_NBIT < sz \<Longrightarrow> new_divisor sz < sz" using ceil [of "sz - 1"] by (auto simp: new_divisor_eq BITVEC_sizes)
  show "sz \<le> 62 * c \<Longrightarrow> 3968 \<le> c \<Longrightarrow> new_divisor sz \<le> c" using ceil [of c] by (simp add: new_divisor_eq)
qed

lemma bin_less:
  assumes "i < sz"
  shows "i div new_divisor sz < BITVEC_NPTR" "i mod new_divisor sz < new_divisor sz"
proof -
  have "i < BITVEC_NPTR * new_divisor sz" using assms new_divisor_bounds(2) [of sz] by linarith
  then show "i div new_divisor sz < BITVEC_NPTR" by (rule less_mult_imp_div_less)
  show "i mod new_divisor sz < new_divisor sz" using new_divisor_bounds(1) [of sz] by (simp add: BITVEC_sizes)
qed

lemma bitmap_bits: "(b :: u8) AND push_bit i 1 \<noteq> 0 \<longleftrightarrow> bit b i"
  by (simp add: push_bit_of_1 and_exp_eq_0_iff_not_bit)

lemma table_zero: "table 0 (replicate NINT 0)"
  by (simp add: table_def)

lemma wf_zero: "wf (bitvec_zero sz)" "iSize (bitvec_zero sz) = sz"
  by (auto simp: bitvec_zero_def table_zero)

lemma probe_zeros: "probe NINT (replicate NINT 0) (BITVEC_HASH i) x = Some (BITVEC_HASH i)"
proof -
  obtain f where f: "NINT = Suc f" using NINT_pos gr0_implies_Suc by blast
  have "probe (Suc f) (replicate NINT 0) (BITVEC_HASH i) x = Some (BITVEC_HASH i)"
    by (subst probe_Suc) (simp_all add: nth_replicate)
  then show ?thesis by (simp only: f)
qed

lemma bit_test_zero: "i < sz \<Longrightarrow> \<not> bit_test (bitvec_zero sz) i"
  by (auto simp: bitvec_zero_def probe_zeros BITVEC_sizes(1,2))

lemma bit_test_Bitmap: "bit_test (Bitmap sz bm) i = bit (bm ! (i div 8)) (i mod 8)"
  by (simp only: bit_test.simps bitmap_bits)

lemma bit_test_Hash: "wf (Hash sz n a) \<Longrightarrow> bit_test (Hash sz n a) i \<longleftrightarrow> i + 1 \<in> keys a"
proof -
  assume w: "wf (Hash sz n a)"
  then have t: "table n a" by simp
  obtain k where k: "probe NINT a (BITVEC_HASH i) (i + 1) = Some k" using probe_total [OF t HASH_less] by blast
  then show "bit_test (Hash sz n a) i \<longleftrightarrow> i + 1 \<in> keys a"
    using probe_found(2) [OF t, of "i + 1" k] by simp
qed

lemma bit_test_Sub:
  assumes "wf (Sub sz d subs)" "i < sz"
  shows "bit_test (Sub sz d subs) i = (case subs ! (i div d) of None \<Rightarrow> False | Some q \<Rightarrow> bit_test q (i mod d))"
  using assms bin_less(1) [OF assms(2)] by auto

subsection \<open>Setting a bit\<close>

text \<open>What a call that adds the (zero-based) bits \<open>S\<close> to \<open>p\<close> may do: it keeps the invariant and the
  size and invents no bit, and when it reports success every bit of \<open>S\<close> is set.\<close>

definition adds :: "Bitvec \<Rightarrow> nat set \<Rightarrow> (nat \<times> Bitvec \<times> heap) option \<Rightarrow> bool" where
  "adds p S r \<longleftrightarrow> (\<exists>rc p' m'. r = Some (rc, p', m') \<and> wf p' \<and> iSize p' = iSize p \<and> (is_Sub p \<longrightarrow> is_Sub p') \<and> rc \<in> {0, 7}
     \<and> (\<forall>j<iSize p. bit_test p' j \<longrightarrow> j \<in> S \<or> bit_test p j)
     \<and> (rc = 0 \<longrightarrow> (\<forall>j<iSize p. j \<in> S \<or> bit_test p j \<longrightarrow> bit_test p' j)))"

lemma addsI':
  assumes "wf p'" "iSize p' = iSize p" "is_Sub p \<Longrightarrow> is_Sub p'" "rc = 0 \<or> rc = 7"
    "\<And>j. j < iSize p \<Longrightarrow> bit_test p' j \<Longrightarrow> j \<in> S \<or> bit_test p j"
    "\<And>j. rc = 0 \<Longrightarrow> j < iSize p \<Longrightarrow> j \<in> S \<or> bit_test p j \<Longrightarrow> bit_test p' j"
  shows "adds p S (Some (rc, p', m'))"
proof -
  have "rc \<in> {0, 7}" using assms(4) by simp
  then show ?thesis unfolding adds_def
    by (intro exI [of _ rc] exI [of _ p'] exI [of _ m'] conjI allI impI refl)
      (assumption | rule assms, assumption+ | rule assms)+
qed

lemma addsI:
  assumes "wf p'" "iSize p' = iSize p" "is_Sub p \<Longrightarrow> is_Sub p'"
    "\<And>j. j < iSize p \<Longrightarrow> bit_test p' j \<longleftrightarrow> j \<in> S \<or> bit_test p j"
  shows "adds p S (Some (0, p', m'))"
  by (rule addsI') (simp_all add: assms)

lemma addsE:
  assumes "adds p S r"
  obtains rc p' m' where "r = Some (rc, p', m')" "wf p'" "iSize p' = iSize p" "is_Sub p \<Longrightarrow> is_Sub p'" "rc = 0 \<or> rc = 7"
    "\<And>j. j < iSize p \<Longrightarrow> bit_test p' j \<Longrightarrow> j \<in> S \<or> bit_test p j"
    "\<And>j. rc = 0 \<Longrightarrow> j < iSize p \<Longrightarrow> j \<in> S \<or> bit_test p j \<Longrightarrow> bit_test p' j"
proof -
  from assms obtain rc p' m' where *: "r = Some (rc, p', m') \<and> wf p' \<and> iSize p' = iSize p \<and> (is_Sub p \<longrightarrow> is_Sub p') \<and> rc \<in> {0, 7}
     \<and> (\<forall>j<iSize p. bit_test p' j \<longrightarrow> j \<in> S \<or> bit_test p j)
     \<and> (rc = 0 \<longrightarrow> (\<forall>j<iSize p. j \<in> S \<or> bit_test p j \<longrightarrow> bit_test p' j))" unfolding adds_def by (elim exE)
  show thesis by (rule that [of rc p' m']) (use * in blast)+
qed

lemma adds_fail: "wf p \<Longrightarrow> adds p S (Some (7, p, m'))"
  by (auto simp: adds_def)

definition enough :: "nat \<Rightarrow> Bitvec \<Rightarrow> bool" where
  "enough f p \<longleftrightarrow> (\<exists>k. iSize p \<le> 3968 * 62 ^ k \<and> (if is_Bitmap p then 1 \<le> f else if is_Hash p then 2 * k + 1 \<le> f else 2 * k \<le> f))"

lemma enough_Bitmap: "wf p \<Longrightarrow> is_Bitmap p \<Longrightarrow> 1 \<le> f \<Longrightarrow> enough f p"
  by (cases p) (auto simp: enough_def BITVEC_sizes intro: exI [of _ 0])

lemma pred_subs: "list_all (pred_option P) subs \<Longrightarrow> k < length subs \<Longrightarrow> subs ! k = Some q \<Longrightarrow> P q"
  by (metis list_all_length option.pred_inject(2))

lemma pred_subs_update: "list_all (pred_option P) subs \<Longrightarrow> P q \<Longrightarrow> list_all (pred_option P) (subs[k := Some q])"
  by (cases "k < length subs") (auto simp: list_all_length nth_list_update list_update_beyond)

lemma enough_sub:
  assumes "wf (Sub sz d subs)" "enough (Suc f) (Sub sz d subs)" "wf q" "iSize q = d"
  shows "enough f q"
proof -
  obtain k where k: "sz \<le> 3968 * 62 ^ k" "2 * k \<le> Suc f" using assms(2) by (auto simp: enough_def)
  have "3968 < sz" using assms(1) by (simp add: BITVEC_sizes)
  then obtain l where l: "k = Suc l" using k(1) by (cases k) auto
  have "d \<le> 3968 * 62 ^ l" using assms(1) k(1) new_divisor_bounds(4) [of sz "3968 * 62 ^ l"] by (simp add: l)
  moreover have "1 \<le> f" "2 * l + 1 \<le> f" using k(2) l by auto
  ultimately show ?thesis unfolding enough_def assms(4) [symmetric] by (intro exI [of _ l]) auto
qed

lemma adds_Sub:
  assumes w: "wf (Sub sz d subs)" and i: "i < sz"
    and q: "iSize q = d" "\<And>j. j < d \<Longrightarrow> bit_test q j = (case subs ! (i div d) of None \<Rightarrow> False | Some q \<Rightarrow> bit_test q j)"
    and a: "adds q {i mod d} r"
  shows "adds (Sub sz d subs) {i} (case r of None \<Rightarrow> None | Some (rc, q, m) \<Rightarrow> Some (rc, Sub sz d (subs[i div d := Some q]), m))"
proof -
  from a obtain rc q' m' where r: "r = Some (rc, q', m')" and q': "wf q'" "iSize q' = iSize q" and rc: "rc = 0 \<or> rc = 7"
    and imp: "\<And>j. j < iSize q \<Longrightarrow> bit_test q' j \<Longrightarrow> j \<in> {i mod d} \<or> bit_test q j"
      "\<And>j. rc = 0 \<Longrightarrow> j < iSize q \<Longrightarrow> j \<in> {i mod d} \<or> bit_test q j \<Longrightarrow> bit_test q' j"
    by (rule addsE) (rule that)
  let ?b = "i div d" and ?subs = "subs[i div d := Some q']"
  have d: "d = new_divisor sz" and len: "length subs = BITVEC_NPTR" using w by auto
  have b: "?b < length subs" using bin_less(1) [OF i] by (simp add: d len)
  have w': "wf (Sub sz d ?subs)" using w q' q(1) by (auto intro: pred_subs_update)
  have T: "bit_test (Sub sz d ?subs) j = (if j div d = ?b then bit_test q' (j mod d) else bit_test (Sub sz d subs) j)"
    if "j < sz" for j
    using that b bit_test_Sub [OF w' that] bit_test_Sub [OF w that] by simp
  have U: "bit_test (Sub sz d subs) j = bit_test q (j mod d)" if "j < sz" "j div d = ?b" for j
    using bit_test_Sub [OF w that(1)] q(2) [of "j mod d"] bin_less(2) [OF that(1)] that(2) by (simp add: d)
  have eq: "j = i \<longleftrightarrow> j mod d = i mod d" if "j div d = ?b" for j using that by (metis div_mult_mod_eq)
  have lt: "j mod d < iSize q" if "j < sz" for j using bin_less(2) [OF that] by (simp add: d q(1))
  have "j \<in> {i} \<or> bit_test (Sub sz d subs) j" if "j < sz" "bit_test (Sub sz d ?subs) j" for j
  proof (cases "j div d = ?b")
    case True
    then show ?thesis using that imp(1) [OF lt [OF that(1)]] by (simp only: T U eq singleton_iff simp_thms if_True)
  next
    case False
    then have "bit_test (Sub sz d subs) j" using that T [OF that(1)] by (simp only: if_False)
    then show ?thesis by (rule disjI2)
  qed
  moreover have "bit_test (Sub sz d ?subs) j" if "rc = 0" "j < sz" "j \<in> {i} \<or> bit_test (Sub sz d subs) j" for j
  proof (cases "j div d = ?b")
    case True
    then show ?thesis using that imp(2) [OF that(1) lt [OF that(2)]] by (simp only: T U eq singleton_iff simp_thms if_True)
  next
    case False
    then have "j \<noteq> i" by auto
    then show ?thesis using that False by (simp only: T if_False singleton_iff simp_thms)
  qed
  ultimately show ?thesis unfolding adds_def r using w' rc by (simp del: bit_test.simps wf.simps)
qed

lemma adds_fold:
  assumes step: "\<And>p m v. wf p \<Longrightarrow> is_Sub p \<Longrightarrow> iSize p = sz \<Longrightarrow> 0 < v \<Longrightarrow> v \<le> sz \<Longrightarrow> adds p {v - 1} (F m p v)"
    and "adds p0 S r" "is_Sub p0" "iSize p0 = sz" "\<forall>v\<in>set a. v \<le> sz"
  shows "adds p0 (S \<union> (\<lambda>v. v - 1) ` (set a - {0}))
    (foldl (\<lambda>r v. case r of None \<Rightarrow> None
                | Some (rc, p, m) \<Rightarrow>
                    if v = 0 then Some (rc, p, m)
                    else (case F m p v of None \<Rightarrow> None | Some (rc', p, m) \<Rightarrow> Some (rc OR rc', p, m))) r a)"
  using assms(2-5)
proof (induction a arbitrary: r S)
  case (Cons v a)
  obtain rc p m where r: "r = Some (rc, p, m)" and p: "wf p" "iSize p = sz" "is_Sub p" "rc = 0 \<or> rc = 7"
    "\<And>j. j < sz \<Longrightarrow> bit_test p j \<Longrightarrow> j \<in> S \<or> bit_test p0 j"
    "\<And>j. rc = 0 \<Longrightarrow> j < sz \<Longrightarrow> j \<in> S \<or> bit_test p0 j \<Longrightarrow> bit_test p j"
    using Cons.prems(1) by (rule addsE) (use Cons.prems(2,3) in metis)
  show ?case
  proof (cases "v = 0")
    case True
    then show ?thesis using Cons.IH [OF Cons.prems(1-3)] Cons.prems(4) by (simp add: r)
  next
    case False
    then have "adds p {v - 1} (F m p v)" using step p(1-3) Cons.prems(4) by auto
    then obtain rc' p' m' where r': "F m p v = Some (rc', p', m')" and p': "wf p'" "iSize p' = sz" "is_Sub p'" "rc' = 0 \<or> rc' = 7"
      "\<And>j. j < sz \<Longrightarrow> bit_test p' j \<Longrightarrow> j = v - 1 \<or> bit_test p j"
      "\<And>j. rc' = 0 \<Longrightarrow> j < sz \<Longrightarrow> j = v - 1 \<or> bit_test p j \<Longrightarrow> bit_test p' j"
      by (rule addsE) (use p(2,3) in \<open>metis singletonD singletonI\<close>)
    have "(7::nat) OR 7 = 7" by simp
    then have rc: "rc OR rc' \<in> {0, 7}" "rc OR rc' = 0 \<longleftrightarrow> rc = 0 \<and> rc' = 0" using p(4) p'(4) by auto
    have "adds p0 (insert (v - 1) S) (Some (rc OR rc', p', m'))"
    proof (rule addsI')
      show "rc OR rc' = 0 \<or> rc OR rc' = 7" using rc(1) by simp
      show "j \<in> insert (v - 1) S \<or> bit_test p0 j" if "j < iSize p0" "bit_test p' j" for j
        using p'(5) [of j] p(5) [of j] that Cons.prems(3) by auto
      show "bit_test p' j" if "rc OR rc' = 0" "j < iSize p0" "j \<in> insert (v - 1) S \<or> bit_test p0 j" for j
        using p'(6) [of j] p(6) [of j] that Cons.prems(3) rc(2) by auto
    qed (use p' Cons.prems(3) in auto)
    from Cons.IH [OF this Cons.prems(2,3)] Cons.prems(4) False
    show ?thesis by (simp add: r r' insert_Diff_if)
  qed
qed simp

lemma wf_sub0: "BITVEC_NBIT < sz \<Longrightarrow> wf (Sub sz (new_divisor sz) (replicate BITVEC_NPTR None))"
  by (simp add: list_all_length)

lemma bit_test_sub0: "\<not> bit_test (Sub sz (new_divisor sz) (replicate BITVEC_NPTR None)) j"
  by simp

lemma adds_Hash:
  assumes w: "wf (Hash sz n a)" and i: "1 \<le> i" "i \<le> sz" and f: "enough (Suc f) (Hash sz n a)"
    and IH: "\<And>p v m. wf p \<Longrightarrow> 1 \<le> v \<Longrightarrow> v \<le> iSize p \<Longrightarrow> enough f p \<Longrightarrow> adds p {v - 1} (BitvecSet f m p v)"
  shows "adds (Hash sz n a) {i - 1} (BitvecSet (Suc f) m (Hash sz n a) i)"
proof -
  let ?p = "Hash sz n a"
  let ?fresh = "Sub sz (new_divisor sz) (replicate BITVEC_NPTR None)"
  have t: "table n a" and sz: "BITVEC_NBIT < sz" and le: "\<forall>v\<in>set a. v \<le> sz" using w by auto
  have T: "bit_test ?p j \<longleftrightarrow> j + 1 \<in> keys a" for j by (rule bit_test_Hash [OF w])
  have en: "enough f p" if "iSize p = sz" "is_Sub p" for p
    using f that sz unfolding enough_def by (auto dest: Bitvec.distinct_disc)
  define F where "F m = foldl (\<lambda>r v. case r of None \<Rightarrow> None
                | Some (rc, p, m) \<Rightarrow>
                    if v = 0 then Some (rc, p, m)
                    else (case BitvecSet f m p v of None \<Rightarrow> None | Some (rc', p, m) \<Rightarrow> Some (rc OR rc', p, m)))
                (BitvecSet f m ?fresh i) a" for m
  have re: "adds ?p {i - 1} (F m)" for m
  proof -
    have "adds ?fresh {i - 1} (BitvecSet f m ?fresh i)" by (rule IH) (use wf_sub0 [OF sz] en [of ?fresh] i in auto)
    then have "adds ?fresh ({i - 1} \<union> (\<lambda>v. v - 1) ` (set a - {0})) (F m)" unfolding F_def
      by (rule adds_fold [where F = "BitvecSet f", rotated]) (use le en IH in auto)
    then obtain rc p' m' where r: "F m = Some (rc, p', m')" and p': "wf p'" "iSize p' = iSize ?fresh" and rc: "rc = 0 \<or> rc = 7"
      and imp: "\<And>j. j < iSize ?fresh \<Longrightarrow> bit_test p' j \<Longrightarrow> j \<in> {i - 1} \<union> (\<lambda>v. v - 1) ` (set a - {0}) \<or> bit_test ?fresh j"
        "\<And>j. rc = 0 \<Longrightarrow> j < iSize ?fresh \<Longrightarrow> j \<in> {i - 1} \<union> (\<lambda>v. v - 1) ` (set a - {0}) \<or> bit_test ?fresh j \<Longrightarrow> bit_test p' j"
      by (rule addsE) (rule that)
    have img: "j \<in> (\<lambda>v. v - 1) ` (set a - {0}) \<longleftrightarrow> bit_test ?p j" for j
      unfolding T keys_def by (auto simp: image_iff intro: bexI [of _ "Suc j"]) (metis Suc_pred neq0_conv)
    show ?thesis unfolding r
    proof (rule addsI')
      show "j \<in> {i - 1} \<or> bit_test ?p j" if "j < iSize ?p" "bit_test p' j" for j
        using imp(1) [of j] that bit_test_sub0 img [of j] unfolding Un_iff by (simp del: bit_test.simps)
      show "bit_test p' j" if "rc = 0" "j < iSize ?p" "j \<in> {i - 1} \<or> bit_test ?p j" for j
        using imp(2) [of j] that img [of j] unfolding Un_iff by (auto simp del: bit_test.simps)
    qed (use p' rc in auto)
  qed
  have ins: "adds ?p {i - 1} (Some (0, Hash sz (n + 1) (a[k := i]), m))"
    if n: "n < NINT - 1" and k: "k < NINT" "a ! k = 0"
      and d: "\<exists>d<NINT. k = (BITVEC_HASH (i - 1) + d) mod NINT \<and> (\<forall>j<d. a ! ((BITVEC_HASH (i - 1) + j) mod NINT) \<noteq> 0)"
    for k m
  proof (rule addsI)
    have x: "0 < i" using i by simp
    note t' = table_insert [OF t n x k d]
    show w': "wf (Hash sz (n + 1) (a[k := i]))"
      using t'(1) sz le i set_update_subset_insert [of a k i] by auto
    show "bit_test (Hash sz (n + 1) (a[k := i])) j \<longleftrightarrow> j \<in> {i - 1} \<or> bit_test ?p j" for j
      unfolding bit_test_Hash [OF w'] T t'(2) using i by auto
  qed auto
  obtain k where k: "probe NINT a (BITVEC_HASH (i - 1)) i = Some k" using probe_total [OF t HASH_less] by blast
  have x: "0 < i" using i by simp
  note kp = probe_found [OF t k x]
  have here: "\<exists>d<NINT. BITVEC_HASH (i - 1) = (BITVEC_HASH (i - 1) + d) mod NINT \<and> (\<forall>j<d. a ! ((BITVEC_HASH (i - 1) + j) mod NINT) \<noteq> 0)"
    by (intro exI [of _ 0]) simp
  have there: "\<exists>d<NINT. k = (BITVEC_HASH (i - 1) + d) mod NINT \<and> (\<forall>j<d. a ! ((BITVEC_HASH (i - 1) + j) mod NINT) \<noteq> 0)"
    using probe_Some [OF k HASH_less] by blast
  have same: "adds ?p {i - 1} (Some (0, ?p, m))" if "a ! k = i" for m
    by (rule addsI) (use w T kp(2) that x in \<open>auto simp del: bit_test.simps\<close>)
  have mx: "BITVEC_MXHASH < NINT" "n < NINT - 1 \<or> BITVEC_MXHASH \<le> n" by (auto simp: BITVEC_sizes)
  have re': "adds ?p {i - 1} (let (ok, m) = malloc_ok m in if \<not> ok then Some (7, ?p, m) else F m)" for m
    using re adds_fail [OF w] by (simp add: case_prod_beta Let_def)
  define R where "R = (let (ok, m) = malloc_ok m in if \<not> ok then Some (7, ?p, m) else F m)"
  have eq: "BitvecSet (Suc f) m ?p i =
      (if a ! BITVEC_HASH (i - 1) = 0
       then (if n < NINT - 1 then Some (0, Hash sz (n + 1) (a[BITVEC_HASH (i - 1) := i]), m) else R)
       else if a ! k = i then Some (0, ?p, m) else if BITVEC_MXHASH \<le> n then R else Some (0, Hash sz (n + 1) (a[k := i]), m))"
    unfolding BitvecSet.simps R_def F_def Let_def k by simp
  have "adds ?p {i - 1} R" using re' unfolding R_def .
  moreover have "a ! k = 0" if "a ! k \<noteq> i" using kp(3) that by blast
  ultimately show ?thesis unfolding eq
    using ins [OF _ HASH_less _ here] ins [OF _ kp(1) _ there] same mx by (auto simp del: bit_test.simps wf.simps)
qed

lemma BitvecSet_adds:
  "wf p \<Longrightarrow> 1 \<le> i \<Longrightarrow> i \<le> iSize p \<Longrightarrow> enough f p \<Longrightarrow> adds p {i - 1} (BitvecSet f m p i)"
proof (induction f arbitrary: p i m)
  case 0
  then show ?case by (cases p) (auto simp: enough_def BITVEC_sizes)
next
  case (Suc f)
  show ?case
  proof (cases p)
    case (Bitmap sz bm)
    let ?i = "i - 1"
    have len: "length bm = BITVEC_NELEM" and i: "?i < sz" "?i div 8 < length bm" using Suc.prems Bitmap by (auto simp: BITVEC_sizes)
    have b: "bit (bm ! k OR push_bit (?i mod 8) 1 :: u8) (j mod 8) \<longleftrightarrow> bit (bm ! k) (j mod 8) \<or> j mod 8 = ?i mod 8" for k j
      by (auto simp: bit_simps)
    show ?thesis unfolding Bitmap BitvecSet.simps Let_def
    proof (rule addsI)
      show "wf (Bitmap sz (bm[?i div 8 := bm ! (?i div 8) OR push_bit (?i mod 8) 1]))" using Suc.prems Bitmap by simp
      fix j
      have "j = ?i \<longleftrightarrow> j div 8 = ?i div 8 \<and> j mod 8 = ?i mod 8" by (metis div_mult_mod_eq)
      then show "bit_test (Bitmap sz (bm[?i div 8 := bm ! (?i div 8) OR push_bit (?i mod 8) 1])) j
          \<longleftrightarrow> j \<in> {?i} \<or> bit_test (Bitmap sz bm) j"
        unfolding bit_test_Bitmap using i(2) by (cases "j div 8 = ?i div 8") (auto simp: b simp del: One_nat_def push_bit_of_1)
    qed auto
  next
    case (Hash sz n a)
    show ?thesis using Suc.prems unfolding Hash by (intro adds_Hash Suc.IH) auto
  next
    case (Sub sz d subs)
    let ?i = "i - 1"
    have w: "wf (Sub sz d subs)" and i: "?i < sz" using Suc.prems Sub by auto
    have d: "d = new_divisor sz" and len: "length subs = BITVEC_NPTR" using w by auto
    have b: "?i div d < length subs" using bin_less(1) [OF i] by (simp add: d len)
    have sub: "adds (Sub sz d subs) {?i} (case BitvecSet f m q (?i mod d + 1) of None \<Rightarrow> None
        | Some (rc, q, m) \<Rightarrow> Some (rc, Sub sz d (subs[?i div d := Some q]), m))"
      if q: "wf q" "iSize q = d" "\<And>j. j < d \<Longrightarrow> bit_test q j = (case subs ! (?i div d) of None \<Rightarrow> False | Some q \<Rightarrow> bit_test q j)"
      for q m
    proof (rule adds_Sub [OF w i q(2,3)])
      have "adds q {?i mod d + 1 - 1} (BitvecSet f m q (?i mod d + 1))"
        using Suc.prems bin_less(2) [OF i] q enough_sub [OF w _ q(1,2), of f]
        by (intro Suc.IH) (auto simp: Sub d)
      then show "adds q {?i mod d} (BitvecSet f m q (?i mod d + 1))" by simp
    qed
    show ?thesis
    proof (cases "subs ! (?i div d)")
      case (Some q)
      then have "wf q" "iSize q = d" using w b by (auto dest: pred_subs)
      from sub [OF this] Some show ?thesis unfolding Sub by (simp add: Let_def del: One_nat_def)
    next
      case None
      have z: "bit_test (bitvec_zero d) j = (case subs ! (?i div d) of None \<Rightarrow> False | Some q \<Rightarrow> bit_test q j)" if "j < d" for j
        using bit_test_zero [OF that] None by simp
      show ?thesis unfolding Sub using None sub [OF wf_zero z] adds_fail [OF w]
        by (simp add: sqlite3BitvecCreate_def case_prod_beta Let_def del: wf.simps One_nat_def)
    qed
  qed
qed

lemma enough_9: "wf p \<Longrightarrow> iSize p < 2 ^ 32 \<Longrightarrow> enough 9 p"
  unfolding enough_def by (intro exI [of _ 4]) (auto simp: BITVEC_sizes)


subsection \<open>Clearing a bit\<close>

lemma reinsert_table:
  assumes "table n a" "n < NINT - 1"
  shows "table (fst (reinsert i (n, a) v)) (snd (reinsert i (n, a) v))"
    "keys (snd (reinsert i (n, a) v)) = keys a \<union> ({v} - {0, i + 1})" "fst (reinsert i (n, a) v) \<le> n + 1"
proof -
  consider "v = 0 \<or> v = i + 1" | "0 < v" "v \<noteq> i + 1" by blast
  then have "table (fst (reinsert i (n, a) v)) (snd (reinsert i (n, a) v))
    \<and> keys (snd (reinsert i (n, a) v)) = keys a \<union> ({v} - {0, i + 1}) \<and> fst (reinsert i (n, a) v) \<le> n + 1"
  proof cases
    case 1
    then show ?thesis using assms by (auto simp: reinsert_def)
  next
    case 2
    obtain k where k: "probe NINT a (BITVEC_HASH (v - 1)) 0 = Some k" using probe_total [OF assms(1) HASH_less] by blast
    note z = probe_zero_slot [OF assms(1) k]
    show ?thesis using table_insert [OF assms 2(1) z] 2 by (simp add: reinsert_def k del: One_nat_def)
  qed
  then show "table (fst (reinsert i (n, a) v)) (snd (reinsert i (n, a) v))"
    "keys (snd (reinsert i (n, a) v)) = keys a \<union> ({v} - {0, i + 1})" "fst (reinsert i (n, a) v) \<le> n + 1" by simp_all
qed

text \<open>Only nonzero values count towards \<open>nSet\<close>.\<close>

lemma reinsert_zero: "reinsert i r 0 = r"
  by (cases r) (simp add: reinsert_def)

lemma reinsert_fold:
  assumes "table n a" "n + length (filter (\<lambda>v. v \<noteq> 0) vs) < NINT"
  shows "table (fst (foldl (reinsert i) (n, a) vs)) (snd (foldl (reinsert i) (n, a) vs))
    \<and> keys (snd (foldl (reinsert i) (n, a) vs)) = keys a \<union> (set vs - {0, i + 1})"
  using assms
proof (induction vs arbitrary: n a)
  case (Cons v vs)
  show ?case
  proof (cases "v = 0")
    case True
    then show ?thesis using Cons by (simp add: reinsert_zero)
  next
    case False
    then have n: "n < NINT - 1" using Cons.prems(2) by simp
    obtain n' a' where r: "reinsert i (n, a) v = (n', a')" by fastforce
    note t = reinsert_table [OF Cons.prems(1) n, of i v, unfolded r, simplified]
    have "n' + length (filter (\<lambda>v. v \<noteq> 0) vs) < NINT" using t(3) Cons.prems(2) False by simp
    from Cons.IH [OF t(1) this] show ?thesis using t(2) by (auto simp: r)
  qed
qed simp

lemma filter_nonzero_card: "length (filter (\<lambda>v. v \<noteq> 0) a) = card {k. k < length a \<and> a ! k \<noteq> 0}"
  by (rule length_filter_conv_card)

lemma keys_zero [simp]: "keys (replicate k 0) = {}"
  by (auto simp: keys_def)

lemma bit_clear_ok:
  "wf p \<Longrightarrow> i < iSize p \<Longrightarrow> wf (bit_clear p i) \<and> iSize (bit_clear p i) = iSize p
     \<and> (\<forall>j<iSize p. bit_test (bit_clear p i) j \<longleftrightarrow> j \<noteq> i \<and> bit_test p j)"
proof (induction p i rule: bit_clear.induct)
  case (1 sz bm i)
  then have i: "i div 8 < length bm" by (auto simp: BITVEC_sizes)
  have "bit (b AND NOT (push_bit (i mod 8) 1) :: u8) (j mod 8) \<longleftrightarrow> bit b (j mod 8) \<and> j mod 8 \<noteq> i mod 8" for b j
    by (auto simp: bit_simps)
  moreover have "j = i \<longleftrightarrow> j div 8 = i div 8 \<and> j mod 8 = i mod 8" for j by (metis div_mult_mod_eq)
  ultimately have "bit_test (bit_clear (Bitmap sz bm) i) j \<longleftrightarrow> j \<noteq> i \<and> bit_test (Bitmap sz bm) j" for j
    unfolding bit_clear.simps bit_test_Bitmap using i
    by (cases "j div 8 = i div 8") (auto simp del: push_bit_of_1)
  then show ?case using 1 by (simp del: bit_test.simps)
next
  case (2 sz n a i)
  let ?r = "foldl (reinsert i) (0, replicate NINT 0) a"
  have t: "table n a" and w: "wf (Hash sz n a)" using 2 by auto
  have "0 + length (filter (\<lambda>v. v \<noteq> 0) a) < NINT"
    using t by (simp add: filter_nonzero_card table_def del: neq0_conv)
  from reinsert_fold [OF table_zero this, of i]
  have r: "table (fst ?r) (snd ?r)" "keys (snd ?r) = set a - {0, i + 1}" by simp_all
  have e: "bit_clear (Hash sz n a) i = Hash sz (fst ?r) (snd ?r)" by (simp add: case_prod_beta)
  have "set (snd ?r) \<subseteq> insert 0 (set a)" using r(2) by (auto simp: keys_def)
  then have w': "wf (Hash sz (fst ?r) (snd ?r))" using 2 r(1) by auto
  have "bit_test (Hash sz (fst ?r) (snd ?r)) j \<longleftrightarrow> j \<noteq> i \<and> bit_test (Hash sz n a) j" for j
    unfolding bit_test_Hash [OF w'] bit_test_Hash [OF w] r(2) by (auto simp: keys_def)
  then show ?case unfolding e using w' by (simp del: bit_test.simps wf.simps)
next
  case (3 sz d subs i)
  have w: "wf (Sub sz d subs)" and i: "i < sz" using 3 by auto
  have d: "d = new_divisor sz" and len: "length subs = BITVEC_NPTR" using w by auto
  have b: "i div d < length subs" using bin_less(1) [OF i] by (simp add: d len)
  have eq: "j = i \<longleftrightarrow> j div d = i div d \<and> j mod d = i mod d" for j by (metis div_mult_mod_eq)
  show ?case
  proof (cases "subs ! (i div d)")
    case None
    have "\<not> bit_test (Sub sz d subs) i" using bit_test_Sub [OF w i] None by simp
    then show ?thesis using w b None by (auto simp del: bit_test.simps wf.simps)
  next
    case (Some q)
    let ?q = "bit_clear q (i mod d)" and ?subs = "subs[i div d := Some (bit_clear q (i mod d))]"
    have q: "wf q" "iSize q = d" using pred_subs [of _ subs, OF _ b Some] w by auto
    have ih: "wf ?q" "iSize ?q = d" "\<And>j. j < d \<Longrightarrow> bit_test ?q j \<longleftrightarrow> j \<noteq> i mod d \<and> bit_test q j"
      using "3.IH" [OF b Some q(1)] q(2) bin_less(2) [OF i] by (auto simp: d)
    have e: "bit_clear (Sub sz d subs) i = Sub sz d ?subs" using b Some by simp
    have w': "wf (Sub sz d ?subs)" using w ih by (auto intro: pred_subs_update)
    have "bit_test (Sub sz d ?subs) j \<longleftrightarrow> j \<noteq> i \<and> bit_test (Sub sz d subs) j" if j: "j < sz" for j
    proof -
      have "j mod d < d" using bin_less(2) [OF j] by (simp add: d)
      then show ?thesis unfolding bit_test_Sub [OF w' j] bit_test_Sub [OF w j]
        using b Some ih(3) [of "j mod d"] eq [of j] by (cases "j div d = i div d") auto
    qed
    then show ?thesis unfolding e using w' by (simp del: bit_test.simps wf.simps)
  qed
qed

subsection \<open>Without allocation failures\<close>

lemma fold_None: "foldl (\<lambda>r v. case r of None \<Rightarrow> None | Some x \<Rightarrow> g x v) None vs = None"
  by (induction vs) auto

lemma BitvecSet_unlimited: "BitvecSet f [] p i = Some (rc, p', m') \<Longrightarrow> rc = 0 \<and> m' = []"
proof (induction f arbitrary: p i rc p' m')
  case (Suc f)
  have fold: "foldl (\<lambda>r v. case r of None \<Rightarrow> None
                | Some (rc, p, m) \<Rightarrow>
                    if v = 0 then Some (rc, p, m)
                    else (case BitvecSet f m p v of None \<Rightarrow> None | Some (rc', p, m) \<Rightarrow> Some (rc OR rc', p, m))) r a
      = Some (rc, p', m') \<Longrightarrow> (\<And>rc p m. r = Some (rc, p, m) \<Longrightarrow> rc = 0 \<and> m = []) \<Longrightarrow> rc = 0 \<and> m' = []" for r a rc p' m'
  proof (induction a arbitrary: r)
    case (Cons v a)
    show ?case
    proof (rule Cons.IH [OF Cons.prems(1) [unfolded foldl.simps]])
      fix rc p m
      assume *: "(case r of None \<Rightarrow> None | Some (rc, p, m) \<Rightarrow> if v = 0 then Some (rc, p, m)
         else (case BitvecSet f m p v of None \<Rightarrow> None | Some (rc', p, m) \<Rightarrow> Some (rc OR rc', p, m))) = Some (rc, p, m)"
      then obtain rc0 q m0 where r: "r = Some (rc0, q, m0)" by (auto split: option.splits)
      with Cons.prems(2) have "rc0 = 0" "m0 = []" by auto
      then show "rc = 0 \<and> m = []" using * Suc.IH [of q v] by (auto simp: r split: if_splits option.splits)
    qed
  qed simp
  show ?case
  proof (cases p)
    case (Bitmap sz bm)
    then show ?thesis using Suc.prems by (auto simp: Let_def)
  next
    case (Hash sz n a)
    then show ?thesis using Suc.prems fold [OF _ Suc.IH]
      by (auto simp: Let_def split: if_splits option.splits)
  next
    case (Sub sz d subs)
    then show ?thesis using Suc.prems Suc.IH
      by (auto simp: Let_def sqlite3BitvecCreate_def split: if_splits option.splits)
  qed
qed simp

subsection \<open>The set of a vector\<close>

definition bits :: "Bitvec \<Rightarrow> nat set" where
  "bits p = {i. sqlite3BitvecTest (Some p) i}"

definition valid :: "Bitvec \<Rightarrow> bool" where
  "valid p \<longleftrightarrow> wf p \<and> iSize p < 2 ^ 32"

lemma Test_eq: "iSize p < 2 ^ 32 \<Longrightarrow> sqlite3BitvecTest (Some p) i \<longleftrightarrow> 1 \<le> i \<and> i \<le> iSize p \<and> bit_test p (i - 1)"
  by (auto simp: sqlite3BitvecTest_def sqlite3BitvecTestNotNull_def Let_def)

lemma valid_zero: "sz < 2 ^ 32 \<Longrightarrow> valid (bitvec_zero sz)" "sz < 2 ^ 32 \<Longrightarrow> bits (bitvec_zero sz) = {}"
  using wf_zero [of sz] bit_test_zero [of _ sz] by (auto simp: valid_def bits_def Test_eq)

lemma BitvecSet_adds_bits:
  assumes "valid p" "1 \<le> i" "i \<le> iSize p"
  shows "\<exists>rc p' m'. sqlite3BitvecSet m (Some p) i = Some (rc, Some p', m') \<and> valid p' \<and> iSize p' = iSize p
    \<and> bits p' \<subseteq> insert i (bits p) \<and> (rc = 0 \<longrightarrow> bits p' = insert i (bits p)) \<and> (m = [] \<longrightarrow> rc = 0)"
proof -
  have p: "wf p" "iSize p < 2 ^ 32" using assms(1) by (simp_all add: valid_def)
  from BitvecSet_adds [OF p(1) assms(2,3) enough_9 [OF p], of m]
  obtain rc p' m' where r: "BitvecSet 9 m p i = Some (rc, p', m')" and p': "wf p'" "iSize p' = iSize p"
    and imp: "\<And>j. j < iSize p \<Longrightarrow> bit_test p' j \<Longrightarrow> j \<in> {i - 1} \<or> bit_test p j"
      "\<And>j. rc = 0 \<Longrightarrow> j < iSize p \<Longrightarrow> j \<in> {i - 1} \<or> bit_test p j \<Longrightarrow> bit_test p' j"
    by (rule addsE) (rule that)
  have T: "j \<in> bits q \<longleftrightarrow> 1 \<le> j \<and> j \<le> iSize p \<and> bit_test q (j - 1)" if "iSize q = iSize p" for q j
    using Test_eq [of q j] p(2) that by (simp add: bits_def)
  have "bits p' \<subseteq> insert i (bits p)"
  proof
    fix j assume "j \<in> bits p'"
    then have j: "1 \<le> j" "j \<le> iSize p" "bit_test p' (j - 1)" by (simp_all only: T [OF p'(2)])
    then have "j - 1 < iSize p" by linarith
    from imp(1) [OF this j(3)] j assms(2) show "j \<in> insert i (bits p)" by (auto simp: T [OF refl])
  qed
  moreover have "insert i (bits p) \<subseteq> bits p'" if "rc = 0"
  proof
    fix j assume "j \<in> insert i (bits p)"
    then have j: "1 \<le> j" "j \<le> iSize p" "j - 1 \<in> {i - 1} \<or> bit_test p (j - 1)" using assms(2,3) by (auto simp: T [OF refl])
    then have "j - 1 < iSize p" by linarith
    from imp(2) [OF that this j(3)] j show "j \<in> bits p'" by (simp only: T [OF p'(2)])
  qed
  moreover have "rc = 0" if "m = []" using BitvecSet_unlimited r that by blast
  ultimately show ?thesis using r p' p(2) by (auto simp: sqlite3BitvecSet_def valid_def)
qed

text \<open>C15: Setting a page: in every representation, through every subdivision of a full table and under
  every pattern of allocation failures, the call ends, keeps the vector well formed and its size,
  invents no page, and when it reports success the set is the old one with the page inserted; without
  an allocation failure it succeeds.\<close>

theorem BitvecSet_refines_insert:
  assumes "valid p" "1 \<le> i" "i \<le> iSize p"
  shows "\<exists>rc p' m'. sqlite3BitvecSet m (Some p) i = Some (rc, Some p', m') \<and> valid p' \<and> iSize p' = iSize p
    \<and> bits p' \<subseteq> insert i (bits p) \<and> (rc = 0 \<longrightarrow> bits p' = insert i (bits p)) \<and> (m = [] \<longrightarrow> rc = 0)"
  by (rule BitvecSet_adds_bits [OF assms])

theorem BitvecSet_refines_insert_witness:
  "\<exists>rc p' m'. sqlite3BitvecSet [] (Some (bitvec_zero 5000)) 7 = Some (rc, Some p', m') \<and> rc = 0 \<and> bits p' = {7}"
  using BitvecSet_refines_insert [of "bitvec_zero 5000" 7 "[]"] valid_zero [of 5000] wf_zero(2) [of 5000] by auto

text \<open>C27: Clearing a page removes exactly that page.\<close>

theorem BitvecClear_refines_delete:
  assumes "valid p" "1 \<le> i" "i \<le> iSize p"
  shows "\<exists>p'. sqlite3BitvecClear (Some p) i = Some p' \<and> valid p' \<and> iSize p' = iSize p \<and> bits p' = bits p - {i}"
proof -
  have p: "wf p" "iSize p < 2 ^ 32" "i - 1 < iSize p" using assms by (auto simp: valid_def)
  let ?q = "bit_clear p (i - 1)"
  have q: "wf ?q" "iSize ?q = iSize p" "\<And>j. j < iSize p \<Longrightarrow> bit_test ?q j \<longleftrightarrow> j \<noteq> i - 1 \<and> bit_test p j"
    using bit_clear_ok [OF p(1,3)] by auto
  have "j \<in> bits ?q \<longleftrightarrow> j \<in> bits p - {i}" for j
  proof (cases "1 \<le> j \<and> j \<le> iSize p")
    case True
    then have "j - 1 < iSize p" "j - 1 = i - 1 \<longleftrightarrow> j = i" using assms(2) by auto
    then show ?thesis using Test_eq [of ?q j] Test_eq [of p j] p(2) q(2) q(3) [of "j - 1"] True by (auto simp: bits_def)
  next
    case False
    then show ?thesis using Test_eq [of ?q j] Test_eq [of p j] p(2) q(2) by (auto simp: bits_def)
  qed
  then show ?thesis using q p(2) by (auto simp: sqlite3BitvecClear_def valid_def)
qed

theorem BitvecClear_refines_delete_witness:
  "\<exists>p'. sqlite3BitvecClear (Some (bitvec_zero 5000)) 7 = Some p' \<and> bits p' = {}"
  using BitvecClear_refines_delete [of "bitvec_zero 5000" 7] valid_zero [of 5000] wf_zero(2) [of 5000] by auto

subsection \<open>The interface\<close>

text \<open>One insertion, with and without a failing allocator; a failed insertion leaves no set.\<close>

definition bitvec_add :: "heap \<Rightarrow> Bitvec \<Rightarrow> nat \<Rightarrow> Bitvec option" where
  "bitvec_add m p i = (case sqlite3BitvecSet m (Some p) i of Some (rc, p', _) \<Rightarrow> if rc = 0 then p' else None | None \<Rightarrow> None)"

lemma bitvec_add_cases:
  assumes "valid p" "1 \<le> i \<and> i \<le> iSize p"
  shows "bitvec_add m p i = Some p' \<Longrightarrow> valid p' \<and> iSize p' = iSize p \<and> bits p' = insert i (bits p)"
    "m = [] \<Longrightarrow> bitvec_add m p i \<noteq> None"
  using BitvecSet_adds_bits [of p i m] assms by (auto simp: bitvec_add_def split: if_splits)

interpretation bv: key_set valid "\<lambda>p i. 1 \<le> i \<and> i \<le> iSize p" bits "bitvec_add m" for m
  by unfold_locales (auto dest: bitvec_add_cases(1))

interpretation bvt: total_key_set valid "\<lambda>p i. 1 \<le> i \<and> i \<le> iSize p" bits "bitvec_add []"
  by unfold_locales (auto dest: bitvec_add_cases(2))

text \<open>A fresh vector of any size up to \<open>2^32-1\<close> to which a list of pages is added, in any order and with
  repetitions, holds exactly the pages of the list, whatever subdivisions happened on the way.\<close>

theorem Bitvec_collects_pages:
  assumes "sz < 2 ^ 32" "\<forall>i \<in> set is. 1 \<le> i \<and> i \<le> sz"
  shows "\<exists>p. add_all (bitvec_add []) is (bitvec_zero sz) = Some p
     \<and> (\<forall>j. sqlite3BitvecTest (Some p) j \<longleftrightarrow> j \<in> set is)"
  using bvt.add_all_total [of "bitvec_zero sz" "is"] valid_zero [of sz] wf_zero(2) [of sz] assms
  by (auto simp: list_all_iff bits_def set_eq_iff)

theorem Bitvec_collects_pages_witness:
  "\<exists>p. add_all (bitvec_add []) [4000, 17, 4000, 3] (bitvec_zero 5000) = Some p
     \<and> (\<forall>j. sqlite3BitvecTest (Some p) j \<longleftrightarrow> j \<in> set [4000, 17, 4000, 3])"
  using Bitvec_collects_pages [of 5000 "[4000, 17, 4000, 3]"] by simp

end
