(* ===== verification/RowSet.thy ===== *)
theory RowSet
  imports Key_Set "HOL-Library.Tree"
begin

section \<open>Sets of rowids (rowset.c)\<close>

text \<open>
  A \<open>RowSet\<close> collects rowids. Entries are appended to a list; a test of a new batch moves the list
  into a forest of binary search trees, and extraction sorts it. The linked lists of entries are HOL
  lists and the trees are those of \<open>HOL-Library.Tree\<close>; \<open>v\<close> is an \<open>i64\<close> that is only compared. A tree of
  the forest that is \<open>NULL\<close> is \<open>Leaf\<close>. \<open>pLast\<close> is the last element of the entry list.
\<close>

definition ROWSET_ENTRY_PER_CHUNK :: nat where "ROWSET_ENTRY_PER_CHUNK = (1024 - 8) div 24"

record RowSet =
  pEntry :: "int list"
  pForest :: "int tree list"
  rs_sorted :: bool
  rs_next :: bool
  iBatch :: int
  nFresh :: nat
  nChunk :: nat

text \<open>\<open>N\<close> is the size the allocator really granted, at least the 56 bytes of the structure.\<close>

definition sqlite3RowSetInit :: "nat \<Rightarrow> RowSet" where
  "sqlite3RowSetInit N =
     \<lparr>pEntry = [], pForest = [], rs_sorted = True, rs_next = False, iBatch = 0,
      nFresh = ((N - 56) div 24) mod 2 ^ 16, nChunk = 0\<rparr>"

definition sqlite3RowSetClear :: "RowSet \<Rightarrow> RowSet" where
  "sqlite3RowSetClear p =
     p\<lparr>nChunk := 0, nFresh := 0, pEntry := [], pForest := [], rs_sorted := True, rs_next := False\<rparr>"

text \<open>\<open>ok\<close> tells whether the allocation of a new chunk would succeed.\<close>

definition rowSetEntryAlloc :: "bool \<Rightarrow> RowSet \<Rightarrow> bool \<times> RowSet" where
  "rowSetEntryAlloc ok p =
     (if nFresh p = 0 then
        (if \<not> ok then (False, p)
         else (True, p\<lparr>nChunk := nChunk p + 1, nFresh := ROWSET_ENTRY_PER_CHUNK - 1\<rparr>))
      else (True, p\<lparr>nFresh := nFresh p - 1\<rparr>))"

definition sqlite3RowSetInsert :: "bool \<Rightarrow> RowSet \<Rightarrow> int \<Rightarrow> RowSet" where
  "sqlite3RowSetInsert ok p rowid =
     (case rowSetEntryAlloc ok p of
        (False, p) \<Rightarrow> p
      | (True, p) \<Rightarrow>
          (let p = (if pEntry p \<noteq> [] \<and> rowid \<le> last (pEntry p) then p\<lparr>rs_sorted := False\<rparr> else p)
           in p\<lparr>pEntry := pEntry p @ [rowid]\<rparr>))"

fun rowSetEntryMerge :: "int list \<Rightarrow> int list \<Rightarrow> int list" where
  "rowSetEntryMerge (a # as) (b # bs) =
     (if a \<le> b then
        (if a < b then [a] else []) @ (if as = [] then b # bs else rowSetEntryMerge as (b # bs))
      else b # (if bs = [] then a # as else rowSetEntryMerge (a # as) bs))"
| "rowSetEntryMerge as [] = as"
| "rowSetEntryMerge [] bs = bs"

text \<open>The 40 buckets of the merge sort; \<open>None\<close> is a carry out of the array.\<close>

fun bucket_carry :: "int list list \<Rightarrow> int list \<Rightarrow> int list list option" where
  "bucket_carry [] p = None"
| "bucket_carry (b # bs) p =
     (if b = [] then Some (p # bs)
      else (case bucket_carry bs (rowSetEntryMerge b p) of None \<Rightarrow> None | Some bs' \<Rightarrow> Some ([] # bs')))"

fun bucket_fill :: "int list list \<Rightarrow> int list \<Rightarrow> int list list option" where
  "bucket_fill bs [] = Some bs"
| "bucket_fill bs (x # xs) = (case bucket_carry bs [x] of None \<Rightarrow> None | Some bs' \<Rightarrow> bucket_fill bs' xs)"

definition bucket_join :: "int list \<Rightarrow> int list \<Rightarrow> int list" where
  "bucket_join p b = (if b = [] then p else if p = [] then b else rowSetEntryMerge p b)"

definition rowSetEntrySort :: "int list \<Rightarrow> int list option" where
  "rowSetEntrySort p =
     (case bucket_fill (replicate 40 []) p of None \<Rightarrow> None | Some bs \<Rightarrow> Some (foldl bucket_join (hd bs) (tl bs)))"

fun rowSetTreeToList :: "int tree \<Rightarrow> int list" where
  "rowSetTreeToList Leaf = []"
| "rowSetTreeToList (Node l v r) =
     (if l \<noteq> Leaf then rowSetTreeToList l @ [v] else [v]) @ (if r \<noteq> Leaf then rowSetTreeToList r else [])"

text \<open>The tree and the unused rest of the list.\<close>

function rowSetNDeepTree :: "int list \<Rightarrow> nat \<Rightarrow> int tree \<times> int list" where
  "rowSetNDeepTree ps iDepth =
     (if ps = [] then (Leaf, [])
      else if 1 < iDepth then
        (let (pLeft, rest) = rowSetNDeepTree ps (iDepth - 1) in
         case rest of [] \<Rightarrow> (pLeft, [])
         | v # rest \<Rightarrow> (let (pRight, rest) = rowSetNDeepTree rest (iDepth - 1) in (Node pLeft v pRight, rest)))
      else (Node Leaf (hd ps) Leaf, tl ps))"
  by pat_completeness auto
termination by (relation "measure snd") auto

declare rowSetNDeepTree.simps [simp del]

lemma NDeepTree_inorder: "inorder (fst (rowSetNDeepTree ps d)) @ snd (rowSetNDeepTree ps d) = ps"
proof (induction d arbitrary: ps rule: less_induct)
  case (less d)
  show ?case
  proof (cases "ps = [] \<or> \<not> 1 < d")
    case True
    then show ?thesis by (subst (1 2) rowSetNDeepTree.simps) (cases ps; auto)
  next
    case False
    obtain l rest where l: "rowSetNDeepTree ps (d - 1) = (l, rest)" by fastforce
    have il: "inorder l @ rest = ps" using less.IH [of "d - 1" ps] False by (simp add: l del: One_nat_def)
    show ?thesis
    proof (cases rest)
      case Nil
      then show ?thesis using False il l by (subst (1 2) rowSetNDeepTree.simps) (simp del: One_nat_def)
    next
      case (Cons v rest')
      obtain r rest2 where r: "rowSetNDeepTree rest' (d - 1) = (r, rest2)" by fastforce
      have "inorder r @ rest2 = rest'" using less.IH [of "d - 1" rest'] False by (simp add: r del: One_nat_def)
      then show ?thesis using False il l r Cons by (subst (1 2) rowSetNDeepTree.simps) (simp del: One_nat_def)
    qed
  qed
qed

lemma NDeepTree_rest: "length (snd (rowSetNDeepTree ps d)) \<le> length ps"
  using arg_cong [OF NDeepTree_inorder [of ps d], of length] by simp

function rowSetListToTree_loop :: "int tree \<Rightarrow> int list \<Rightarrow> nat \<Rightarrow> int tree" where
  "rowSetListToTree_loop p pList iDepth =
     (case pList of [] \<Rightarrow> p
      | v # rest \<Rightarrow> (let (pRight, rest) = rowSetNDeepTree rest iDepth in rowSetListToTree_loop (Node p v pRight) rest (iDepth + 1)))"
  by pat_completeness auto
termination
proof (relation "measure (\<lambda>(_, xs, _). length xs)", goal_cases)
  case (2 p pList iDepth v rest x pRight rest')
  then have "rest' = snd (rowSetNDeepTree rest iDepth)" by (metis snd_conv)
  then show ?case using 2 NDeepTree_rest [of rest iDepth] by simp
qed simp

declare rowSetListToTree_loop.simps [simp del]

definition rowSetListToTree :: "int list \<Rightarrow> int tree" where
  "rowSetListToTree pList = rowSetListToTree_loop (Node Leaf (hd pList) Leaf) (tl pList) 1"

text \<open>The smallest element. The list is sorted on the first call.\<close>

definition sqlite3RowSetNext :: "RowSet \<Rightarrow> (int option \<times> RowSet) option" where
  "sqlite3RowSetNext p =
     (let sorted = (if rs_next p \<or> rs_sorted p then Some (pEntry p) else rowSetEntrySort (pEntry p)) in
      case sorted of None \<Rightarrow> None
      | Some es \<Rightarrow>
          (let p = (if \<not> rs_next p then p\<lparr>pEntry := es, rs_sorted := True, rs_next := True\<rparr> else p) in
           case es of [] \<Rightarrow> Some (None, p)
           | v # es' \<Rightarrow> Some (Some v, if es' = [] then sqlite3RowSetClear p else p\<lparr>pEntry := es'\<rparr>)))"

text \<open>The new list goes into the first empty tree; the trees before it are merged into it.\<close>

fun forest_add :: "int list \<Rightarrow> int tree list \<Rightarrow> int tree list \<times> int list option" where
  "forest_add p [] = ([], Some p)"
| "forest_add p (t # ts) =
     (if t = Leaf then (rowSetListToTree p # ts, None)
      else (let (ts', r) = forest_add (rowSetEntryMerge (rowSetTreeToList t) p) ts in (Leaf # ts', r)))"

definition rowset_flush :: "bool \<Rightarrow> RowSet \<Rightarrow> RowSet option" where
  "rowset_flush ok q =
     (if pEntry q = [] then Some q
      else case (if rs_sorted q then Some (pEntry q) else rowSetEntrySort (pEntry q)) of
        None \<Rightarrow> None
      | Some p \<Rightarrow>
          (let (ts, r) = forest_add p (pForest q);
               q = q\<lparr>pForest := ts\<rparr>;
               q = (case r of None \<Rightarrow> q
                    | Some p \<Rightarrow> (case rowSetEntryAlloc ok q of
                          (False, q) \<Rightarrow> q
                        | (True, q) \<Rightarrow> q\<lparr>pForest := pForest q @ [rowSetListToTree p]\<rparr>))
           in Some (q\<lparr>pEntry := [], rs_sorted := True\<rparr>)))"

fun rowset_search :: "int tree \<Rightarrow> int \<Rightarrow> bool" where
  "rowset_search Leaf iRowid = False"
| "rowset_search (Node l v r) iRowid =
     (if v < iRowid then rowset_search r iRowid else if iRowid < v then rowset_search l iRowid else True)"

definition sqlite3RowSetTest :: "bool \<Rightarrow> RowSet \<Rightarrow> int \<Rightarrow> int \<Rightarrow> (bool \<times> RowSet) option" where
  "sqlite3RowSetTest ok q batch iRowid =
     (case (if batch \<noteq> iBatch q then map_option (\<lambda>q. q\<lparr>iBatch := batch\<rparr>) (rowset_flush ok q) else Some q) of
        None \<Rightarrow> None
      | Some q \<Rightarrow> Some (list_ex (\<lambda>t. rowset_search t iRowid) (pForest q), q))"

subsection \<open>Merging and sorting\<close>

abbreviation strict :: "int list \<Rightarrow> bool" where "strict xs \<equiv> sorted_wrt (<) xs"

lemma merge_simps:
  "rowSetEntryMerge (a # as) (b # bs) =
     (if a < b then a # rowSetEntryMerge as (b # bs)
      else if a = b then rowSetEntryMerge as (b # bs) else b # rowSetEntryMerge (a # as) bs)"
  by (cases as; cases bs) auto

declare rowSetEntryMerge.simps(1) [simp del]

lemma merge_set: "set (rowSetEntryMerge as bs) = set as \<union> set bs"
proof (induction as bs rule: rowSetEntryMerge.induct)
  case (1 a as b bs)
  have "set (rowSetEntryMerge as (b # bs)) = set as \<union> set (b # bs)" if "a \<le> b"
    using "1.IH"(1) that by (cases "as = []") auto
  moreover have "set (rowSetEntryMerge (a # as) bs) = set (a # as) \<union> set bs" if "\<not> a \<le> b"
    using "1.IH"(2) that by (cases "bs = []") auto
  ultimately show ?case unfolding merge_simps by (cases "a < b"; cases "a = b") auto
qed simp_all

lemma merge_nonempty: "rowSetEntryMerge as bs = [] \<longleftrightarrow> as = [] \<and> bs = []"
  using merge_set [of as bs] by (metis Un_empty set_empty)

lemma merge_strict: "strict as \<Longrightarrow> strict bs \<Longrightarrow> strict (rowSetEntryMerge as bs)"
proof (induction as bs rule: rowSetEntryMerge.induct)
  case (1 a as b bs)
  have "strict (rowSetEntryMerge as (b # bs))" if "a \<le> b"
    using "1.IH"(1) that "1.prems" by (cases "as = []") auto
  moreover have "strict (rowSetEntryMerge (a # as) bs)" if "\<not> a \<le> b"
    using "1.IH"(2) that "1.prems" by (cases "bs = []") auto
  ultimately show ?case unfolding merge_simps using "1.prems"
    by (cases "a < b"; cases "a = b") (auto simp: merge_set)
qed simp_all

lemma carry_ok:
  "bucket_carry bs p = Some bs' \<Longrightarrow> list_all strict bs \<Longrightarrow> strict p \<Longrightarrow> p \<noteq> [] \<Longrightarrow>
   list_all strict bs' \<and> \<Union> (set ` set bs') = set p \<union> \<Union> (set ` set bs) \<and> length bs' = length bs"
proof (induction bs p arbitrary: bs' rule: bucket_carry.induct)
  case (2 b bs p)
  show ?case
  proof (cases "b = []")
    case True
    then show ?thesis using 2 by auto
  next
    case False
    then obtain cs where cs: "bucket_carry bs (rowSetEntryMerge b p) = Some cs" "bs' = [] # cs"
      using 2(2) by (auto split: option.splits)
    from 2(1) [OF False cs(1)] 2(3-5) show ?thesis using cs(2) merge_nonempty [of b p] by (auto simp: merge_strict merge_set)
  qed
qed simp

text \<open>The buckets count in binary the elements put in.\<close>

fun bucket_count :: "int list list \<Rightarrow> nat" where
  "bucket_count [] = 0"
| "bucket_count (b # bs) = (if b = [] then 0 else 1) + 2 * bucket_count bs"

lemma carry_count:
  "p \<noteq> [] \<Longrightarrow> (case bucket_carry bs p of None \<Rightarrow> bucket_count bs + 1 = 2 ^ length bs | Some bs' \<Rightarrow> bucket_count bs' = bucket_count bs + 1)"
proof (induction bs p rule: bucket_carry.induct)
  case (2 b bs p)
  show ?case using 2 merge_nonempty [of b p] by (auto split: option.splits)
qed simp

lemma fill_ok:
  assumes "bucket_count bs + length xs < 2 ^ length bs" "list_all strict bs"
  shows "\<exists>bs'. bucket_fill bs xs = Some bs' \<and> list_all strict bs' \<and> \<Union> (set ` set bs') = set xs \<union> \<Union> (set ` set bs)
    \<and> length bs' = length bs"
  using assms
proof (induction xs arbitrary: bs)
  case (Cons x xs)
  obtain cs where cs: "bucket_carry bs [x] = Some cs"
    using carry_count [of "[x]" bs] Cons.prems(1) by (cases "bucket_carry bs [x]") auto
  note ok = carry_ok [OF cs Cons.prems(2)]
  have "bucket_count cs = bucket_count bs + 1" using carry_count [of "[x]" bs] cs by simp
  then show ?case using Cons.IH [of cs] Cons.prems cs ok by auto
qed simp

lemma join_ok:
  "list_all strict bs \<Longrightarrow> strict p \<Longrightarrow> strict (foldl bucket_join p bs) \<and> set (foldl bucket_join p bs) = set p \<union> \<Union> (set ` set bs)"
proof (induction bs arbitrary: p)
  case (Cons b bs)
  have "strict (bucket_join p b)" "set (bucket_join p b) = set p \<union> set b"
    using Cons.prems by (auto simp: bucket_join_def merge_strict merge_set)
  then show ?case using Cons.IH [of "bucket_join p b"] Cons.prems by auto
qed simp

lemma count_empty: "bucket_count (replicate n []) = 0"
  by (induction n) auto

lemma sort_ok:
  assumes "length xs < 2 ^ 40"
  obtains ys where "rowSetEntrySort xs = Some ys" "strict ys" "set ys = set xs"
proof -
  have l: "length (replicate 40 ([] :: int list)) = 40" by simp
  obtain bs where bs: "bucket_fill (replicate 40 []) xs = Some bs" "list_all strict bs" "\<Union> (set ` set bs) = set xs" "length bs = 40"
    using fill_ok [of "replicate 40 []" xs] assms unfolding count_empty l by (auto simp: list_all_iff)
  then obtain b cs where "bs = b # cs" by (cases bs) auto
  then show thesis using join_ok [of cs b] bs by (intro that [of "foldl bucket_join b cs"]) (auto simp: rowSetEntrySort_def)
qed


subsection \<open>Trees\<close>

lemma TreeToList_inorder: "rowSetTreeToList t = inorder t"
  by (induction t) auto

lemma ListToTree_loop_inorder: "inorder (rowSetListToTree_loop p xs d) = inorder p @ xs"
proof (induction p xs d rule: rowSetListToTree_loop.induct)
  case (1 p xs d)
  show ?case
  proof (cases xs)
    case (Cons v rest)
    obtain r rest' where r: "rowSetNDeepTree rest d = (r, rest')" by fastforce
    then show ?thesis using "1.IH" [OF Cons refl] NDeepTree_inorder [of rest d] Cons
      by (subst rowSetListToTree_loop.simps) (simp add: r)
  qed (subst rowSetListToTree_loop.simps, simp)
qed

lemma ListToTree_inorder: "xs \<noteq> [] \<Longrightarrow> inorder (rowSetListToTree xs) = xs"
  by (simp add: rowSetListToTree_def ListToTree_loop_inorder)

lemma ListToTree_set: "xs \<noteq> [] \<Longrightarrow> set_tree (rowSetListToTree xs) = set xs"
  using set_inorder [of "rowSetListToTree xs"] ListToTree_inorder [of xs] by simp

lemma NDeepTree_shape:
  "1 \<le> d \<Longrightarrow> height (fst (rowSetNDeepTree ps d)) \<le> d
     \<and> (snd (rowSetNDeepTree ps d) \<noteq> [] \<longrightarrow> size (fst (rowSetNDeepTree ps d)) + 1 = 2 ^ d)"
proof (induction d arbitrary: ps rule: less_induct)
  case (less d)
  consider "ps = []" | "ps \<noteq> []" "d = 1" | "ps \<noteq> []" "1 < d" using less.prems by linarith
  then show ?case
  proof cases
    case 3
    obtain l rest where l: "rowSetNDeepTree ps (d - 1) = (l, rest)" by fastforce
    have il: "height l \<le> d - 1" "rest \<noteq> [] \<Longrightarrow> size l + 1 = 2 ^ (d - 1)"
      using less.IH [of "d - 1" ps] 3(2) by (simp_all add: l del: One_nat_def)
    obtain e where e: "d = Suc e" "1 \<le> e" using 3(2) by (cases d) auto
    show ?thesis
    proof (cases rest)
      case Nil
      then show ?thesis using 3 il l by (subst (1 2 3) rowSetNDeepTree.simps) (simp del: One_nat_def)
    next
      case (Cons v rest')
      obtain r rest2 where r: "rowSetNDeepTree rest' (d - 1) = (r, rest2)" by fastforce
      have "height r \<le> d - 1" "rest2 \<noteq> [] \<Longrightarrow> size r + 1 = 2 ^ (d - 1)"
        using less.IH [of "d - 1" rest'] 3(2) by (simp_all add: r del: One_nat_def)
      then show ?thesis using 3 il l r Cons e by (subst (1 2 3) rowSetNDeepTree.simps) auto
    qed
  qed (subst (1 2 3) rowSetNDeepTree.simps, simp)+
qed

lemma ListToTree_loop_height:
  assumes "1 \<le> d" "height p \<le> d" "2 ^ (d - 1) \<le> size p" "xs \<noteq> [] \<longrightarrow> size p + 1 = 2 ^ d"
  shows "2 ^ (height (rowSetListToTree_loop p xs d) - 1) \<le> size (rowSetListToTree_loop p xs d)"
  using assms
proof (induction p xs d rule: rowSetListToTree_loop.induct)
  case (1 p xs d)
  show ?case
  proof (cases xs)
    case Nil
    have "(2::nat) ^ (height p - 1) \<le> 2 ^ (d - 1)" using "1.prems" by (intro power_increasing) auto
    then have "2 ^ (height p - 1) \<le> size p" using "1.prems"(3) by (rule le_trans)
    then show ?thesis using Nil by (subst (1 2) rowSetListToTree_loop.simps) simp
  next
    case (Cons v rest)
    obtain r rest' where r: "rowSetNDeepTree rest d = (r, rest')" by fastforce
    have h: "height r \<le> d" "rest' \<noteq> [] \<Longrightarrow> size r + 1 = 2 ^ d"
      using NDeepTree_shape [OF "1.prems"(1), of rest] by (simp_all add: r)
    have s: "size p + 1 = 2 ^ d" using "1.prems" Cons by simp
    have "2 ^ (height (rowSetListToTree_loop (Node p v r) rest' (d + 1)) - 1) \<le> size (rowSetListToTree_loop (Node p v r) rest' (d + 1))"
      by (rule "1.IH" [OF Cons r [symmetric] refl]) (use "1.prems" h s in auto)
    then show ?thesis using Cons by (subst (1 2) rowSetListToTree_loop.simps) (simp add: r)
  qed
qed

text \<open>C35: A list of entries becomes a search tree with the same entries in order whose depth is the
  least a binary tree of that many entries can have, so a test takes a logarithmic number of steps.\<close>

theorem ListToTree_balanced:
  assumes "xs \<noteq> []"
  shows "inorder (rowSetListToTree xs) = xs \<and> 2 ^ (height (rowSetListToTree xs) - 1) \<le> length xs"
proof -
  have "2 ^ (height (rowSetListToTree xs) - 1) \<le> size (rowSetListToTree xs)"
    unfolding rowSetListToTree_def by (rule ListToTree_loop_height) auto
  moreover have "size (rowSetListToTree xs) = length xs"
    using ListToTree_inorder [OF assms] length_inorder [of "rowSetListToTree xs"] by simp
  ultimately show ?thesis using ListToTree_inorder [OF assms] by simp
qed

theorem ListToTree_balanced_witness:
  "inorder (rowSetListToTree [1, 2, 3, 5, 8]) = [1, 2, 3, 5, 8] \<and> 2 ^ (height (rowSetListToTree [1, 2, 3, 5, 8]) - 1) \<le> (5 :: nat)"
  using ListToTree_balanced [of "[1, 2, 3, 5, 8]"] by simp

lemma search_inorder: "strict (inorder t) \<Longrightarrow> rowset_search t x \<longleftrightarrow> x \<in> set (inorder t)"
  by (induction t) (auto simp: sorted_wrt_append)

subsection \<open>The set of a RowSet\<close>

definition pending :: "RowSet \<Rightarrow> int set" where "pending p = set (pEntry p)"
definition tested :: "RowSet \<Rightarrow> int set" where "tested p = \<Union> (set ` inorder ` set (pForest p))"

definition rs_valid :: "RowSet \<Rightarrow> bool" where
  "rs_valid p \<longleftrightarrow> (rs_sorted p \<longrightarrow> strict (pEntry p)) \<and> list_all (\<lambda>t. strict (inorder t)) (pForest p)"

lemma Alloc_same:
  "rowSetEntryAlloc ok p = (b, q) \<Longrightarrow> pEntry q = pEntry p \<and> pForest q = pForest p \<and> rs_sorted q = rs_sorted p
     \<and> rs_next q = rs_next p \<and> iBatch q = iBatch p \<and> (ok \<longrightarrow> b)"
  by (auto simp: rowSetEntryAlloc_def split: if_splits)

lemma strict_snoc: "strict xs \<Longrightarrow> xs \<noteq> [] \<longrightarrow> last xs < x \<Longrightarrow> strict (xs @ [x])"
proof (cases xs rule: rev_cases)
  case (snoc ys y)
  moreover assume "strict xs" "xs \<noteq> [] \<longrightarrow> last xs < x"
  ultimately show ?thesis by (simp add: sorted_wrt_append) (meson less_trans)
qed simp

lemma Insert_ok:
  assumes "rs_valid p"
  shows "rs_valid (sqlite3RowSetInsert True p x)" "pending (sqlite3RowSetInsert True p x) = insert x (pending p)"
    "tested (sqlite3RowSetInsert True p x) = tested p" "iBatch (sqlite3RowSetInsert True p x) = iBatch p"
    "pEntry (sqlite3RowSetInsert True p x) = pEntry p @ [x]" "rs_next (sqlite3RowSetInsert True p x) = rs_next p"
    "pForest (sqlite3RowSetInsert True p x) = pForest p"
proof -
  obtain b q where q: "rowSetEntryAlloc True p = (b, q)" by fastforce
  note s = Alloc_same [OF q]
  have i: "sqlite3RowSetInsert True p x = (if pEntry q \<noteq> [] \<and> x \<le> last (pEntry q) then q\<lparr>rs_sorted := False\<rparr> else q)\<lparr>pEntry := pEntry q @ [x]\<rparr>"
    using q s by (auto simp: sqlite3RowSetInsert_def Let_def)
  show "rs_valid (sqlite3RowSetInsert True p x)" unfolding i using assms s strict_snoc [of "pEntry p" x] by (auto simp: rs_valid_def)
  show "pending (sqlite3RowSetInsert True p x) = insert x (pending p)" "tested (sqlite3RowSetInsert True p x) = tested p"
    "iBatch (sqlite3RowSetInsert True p x) = iBatch p" "pEntry (sqlite3RowSetInsert True p x) = pEntry p @ [x]"
    "rs_next (sqlite3RowSetInsert True p x) = rs_next p" "pForest (sqlite3RowSetInsert True p x) = pForest p"
    unfolding i using s by (auto simp: pending_def tested_def)
qed

lemma forest_add_ok:
  assumes "forest_add p ts = (ts', r)" "strict p" "p \<noteq> []" "list_all (\<lambda>t. strict (inorder t)) ts"
  shows "list_all (\<lambda>t. strict (inorder t)) ts' \<and>
     (case r of None \<Rightarrow> \<Union> (set ` inorder ` set ts') = set p \<union> \<Union> (set ` inorder ` set ts)
      | Some q \<Rightarrow> strict q \<and> q \<noteq> [] \<and> \<Union> (set ` inorder ` set ts') = {} \<and> set q = set p \<union> \<Union> (set ` inorder ` set ts))"
  using assms
proof (induction p ts arbitrary: ts' r rule: forest_add.induct)
  case (2 p t ts)
  show ?case
  proof (cases "t = Leaf")
    case True
    then show ?thesis using 2 by (auto simp: ListToTree_inorder ListToTree_set)
  next
    case False
    obtain us where us: "forest_add (rowSetEntryMerge (rowSetTreeToList t) p) ts = (us, r)" "ts' = Leaf # us"
      using "2.prems"(1) False by (auto split: prod.splits)
    have m: "strict (rowSetEntryMerge (rowSetTreeToList t) p)" "rowSetEntryMerge (rowSetTreeToList t) p \<noteq> []"
      using "2.prems" by (simp_all add: merge_strict merge_nonempty TreeToList_inorder)
    show ?thesis using "2.IH" [OF False us(1) m] "2.prems"(4) us(2)
      by (auto simp: merge_set TreeToList_inorder split: option.splits)
  qed
qed auto

lemma flush_ok:
  assumes "rs_valid q" "length (pEntry q) < 2 ^ 40"
  shows "\<exists>q'. rowset_flush True q = Some q' \<and> rs_valid q' \<and> pending q' = {} \<and> tested q' = tested q \<union> pending q
     \<and> rs_next q' = rs_next q"
proof (cases "pEntry q = []")
  case True
  then show ?thesis using assms by (simp add: rowset_flush_def pending_def)
next
  case False
  obtain p where p: "(if rs_sorted q then Some (pEntry q) else rowSetEntrySort (pEntry q)) = Some p" "strict p" "set p = pending q"
  proof (cases "rs_sorted q")
    case True
    then show thesis using assms(1) by (intro that [of "pEntry q"]) (auto simp: rs_valid_def pending_def)
  next
    case False
    then show thesis using sort_ok [OF assms(2)] that by (metis pending_def)
  qed
  have "p \<noteq> []" using p(3) False by (auto simp: pending_def)
  obtain ts r where f: "forest_add p (pForest q) = (ts, r)" by fastforce
  have ok: "list_all (\<lambda>t. strict (inorder t)) (pForest q)" using assms(1) by (simp add: rs_valid_def)
  note fa = forest_add_ok [OF f p(2) \<open>p \<noteq> []\<close> ok]
  show ?thesis
  proof (cases r)
    case None
    then show ?thesis using False p f fa by (auto simp: rowset_flush_def rs_valid_def pending_def tested_def)
  next
    case (Some e)
    obtain b q1 where a: "rowSetEntryAlloc True (q\<lparr>pForest := ts\<rparr>) = (b, q1)" by fastforce
    note s = Alloc_same [OF a]
    have e: "strict e" "e \<noteq> []" "\<Union> (set ` inorder ` set ts) = {}" "set e = pending q \<union> tested q"
      using fa Some p(3) by (auto simp: tested_def)
    have "rowset_flush True q = Some (q1\<lparr>pForest := ts @ [rowSetListToTree e], pEntry := [], rs_sorted := True\<rparr>)"
      using False p(1) f Some a s by (simp add: rowset_flush_def)
    then show ?thesis using e fa s ListToTree_inorder [OF e(2)] ListToTree_set [OF e(2)]
      by (auto simp: rs_valid_def pending_def tested_def)
  qed
qed

lemma Test_search:
  "rs_valid q \<Longrightarrow> list_ex (\<lambda>t. rowset_search t x) (pForest q) \<longleftrightarrow> x \<in> tested q"
  by (auto simp: rs_valid_def list_ex_iff list_all_iff search_inorder tested_def)


lemma Test_ok:
  assumes "rs_valid q" "length (pEntry q) < 2 ^ 40"
  shows "\<exists>q'. sqlite3RowSetTest True q batch x = Some (x \<in> tested q', q') \<and> rs_valid q' \<and> iBatch q' = batch
     \<and> tested q' = (if batch \<noteq> iBatch q then tested q \<union> pending q else tested q)
     \<and> pEntry q' = (if batch \<noteq> iBatch q then [] else pEntry q)"
proof (cases "batch = iBatch q")
  case True
  then show ?thesis using assms by (simp add: sqlite3RowSetTest_def Test_search)
next
  case False
  obtain q1 where q1: "rowset_flush True q = Some q1" "rs_valid q1" "pending q1 = {}" "tested q1 = tested q \<union> pending q"
    using flush_ok [OF assms] by blast
  have "rs_valid (q1\<lparr>iBatch := batch\<rparr>)" "tested (q1\<lparr>iBatch := batch\<rparr>) = tested q1" using q1(2) by (simp_all add: rs_valid_def tested_def)
  then show ?thesis using False q1 Test_search [of "q1\<lparr>iBatch := batch\<rparr>" x]
    by (auto simp: sqlite3RowSetTest_def pending_def)
qed

text \<open>
  The contract of the header comment, as a machine over the inserted rowids: those of earlier batches,
  those of the current one and the batch number.
\<close>

datatype rowset_op = Insert int | Test int int

fun spec_run :: "rowset_op list \<Rightarrow> int set \<times> int set \<times> int \<Rightarrow> bool list" where
  "spec_run [] s = []"
| "spec_run (Insert x # ops) (old, new, b) = spec_run ops (old, insert x new, b)"
| "spec_run (Test b' x # ops) (old, new, b) =
     (if b' \<noteq> b then (x \<in> old \<union> new) # spec_run ops (old \<union> new, {}, b') else (x \<in> old) # spec_run ops (old, new, b))"

fun rowset_run :: "rowset_op list \<Rightarrow> RowSet \<Rightarrow> bool list option" where
  "rowset_run [] q = Some []"
| "rowset_run (Insert x # ops) q = rowset_run ops (sqlite3RowSetInsert True q x)"
| "rowset_run (Test b x # ops) q =
     (case sqlite3RowSetTest True q b x of None \<Rightarrow> None | Some (r, q) \<Rightarrow> map_option ((#) r) (rowset_run ops q))"

lemma run_refines:
  "rs_valid q \<Longrightarrow> length (pEntry q) + length ops < 2 ^ 40 \<Longrightarrow>
   rowset_run ops q = Some (spec_run ops (tested q, pending q, iBatch q))"
proof (induction ops q rule: rowset_run.induct)
  case (2 x ops q)
  then show ?case using Insert_ok [OF "2.prems"(1), of x] by simp
next
  case (3 b x ops q)
  then have len: "length (pEntry q) < 2 ^ 40" by simp
  obtain q' where t: "sqlite3RowSetTest True q b x = Some (x \<in> tested q', q')" and q': "rs_valid q'" "iBatch q' = b"
    "tested q' = (if b \<noteq> iBatch q then tested q \<union> pending q else tested q)"
    "pEntry q' = (if b \<noteq> iBatch q then [] else pEntry q)"
    using Test_ok [OF "3.prems"(1) len, of b x] by blast
  have p: "pending q' = (if b \<noteq> iBatch q then {} else pending q)" using q'(4) by (simp add: pending_def)
  have "length (pEntry q') + length ops < 2 ^ 40" using "3.prems"(2) q'(4) by auto
  from "3.IH" [OF t refl q'(1) this] show ?case using t q'(2,3) p by auto
qed simp

text \<open>C17: A fresh row set answers every sequence of insertions and tests as the contract does: a test
  sees exactly the rowids inserted before the batch of the test began. No bucket of the sort overflows
  below \<open>2^40\<close> entries.\<close>

theorem RowSet_refines_batches:
  assumes "length ops < 2 ^ 40"
  shows "rowset_run ops (sqlite3RowSetInit N) = Some (spec_run ops ({}, {}, 0))"
proof -
  have "rs_valid (sqlite3RowSetInit N)" "tested (sqlite3RowSetInit N) = {}" "pending (sqlite3RowSetInit N) = {}"
      "iBatch (sqlite3RowSetInit N) = 0" "pEntry (sqlite3RowSetInit N) = []"
    by (simp_all add: sqlite3RowSetInit_def rs_valid_def tested_def pending_def)
  then show ?thesis using run_refines [of "sqlite3RowSetInit N" ops] assms by simp
qed

theorem RowSet_refines_batches_witness:
  "rowset_run [Insert 5, Insert 3, Test 1 5, Insert 9, Test 1 9, Test 2 9] (sqlite3RowSetInit 1024) = Some [True, False, True]"
  using RowSet_refines_batches [of "[Insert 5, Insert 3, Test 1 5, Insert 9, Test 1 9, Test 2 9]" 1024] by simp

interpretation rs: total_key_set rs_valid "\<lambda>p i. True" "\<lambda>p. tested p \<union> pending p" "\<lambda>p x. Some (sqlite3RowSetInsert True p x)"
  by unfold_locales (auto simp: Insert_ok)

subsection \<open>Extraction in order\<close>

text \<open>Calls of \<open>sqlite3RowSetNext\<close> until it returns 0, at most \<open>n\<close> of them.\<close>

fun rowset_drain :: "nat \<Rightarrow> RowSet \<Rightarrow> int list option" where
  "rowset_drain 0 q = None"
| "rowset_drain (Suc n) q =
     (case sqlite3RowSetNext q of None \<Rightarrow> None | Some (None, q) \<Rightarrow> Some []
      | Some (Some v, q) \<Rightarrow> map_option ((#) v) (rowset_drain n q))"

lemma drain_next:
  assumes "rs_next q \<or> pEntry q = []" "rs_sorted q" "length (pEntry q) < n"
  shows "rowset_drain n q = Some (pEntry q)"
  using assms
proof (induction "pEntry q" arbitrary: q n)
  case Nil
  then obtain m where "n = Suc m" by (cases n) auto
  then show ?case using Nil by (simp add: sqlite3RowSetNext_def)
next
  case (Cons v es)
  have q: "pEntry q = v # es" "rs_next q" using Cons.hyps(2) Cons.prems(1) by auto
  obtain m where m: "n = Suc m" "length es < m" using Cons.prems(3) q(1) by (cases n) auto
  define q' where "q' = (if es = [] then sqlite3RowSetClear q else q\<lparr>pEntry := es\<rparr>)"
  have n: "sqlite3RowSetNext q = Some (Some v, q')" using q by (simp add: sqlite3RowSetNext_def q'_def)
  have e: "pEntry q' = es" "rs_next q' \<or> pEntry q' = []" "rs_sorted q'" using q(2) Cons.prems(2) by (auto simp: q'_def sqlite3RowSetClear_def)
  have "rowset_drain m q' = Some (pEntry q')"
    by (rule Cons.hyps(1)) (use e m(2) in simp_all)
  then show ?case using n e(1) q(1) m(1) by simp
qed

lemma strict_sorted_list: "strict xs \<Longrightarrow> set xs = A \<Longrightarrow> xs = sorted_list_of_set A"
  using strict_sorted_iff [of xs] sorted_list_of_set.idem_if_sorted_distinct [of xs] by auto

text \<open>C28: Extraction from a row set that was only inserted into returns every rowid once, in increasing
  order, and then reports the end.\<close>

theorem RowSet_extracts_sorted:
  assumes "length xs < 2 ^ 40" "length xs < n"
  shows "rowset_drain n (foldl (sqlite3RowSetInsert True) (sqlite3RowSetInit N) xs) = Some (sorted_list_of_set (set xs))"
proof -
  define q where "q = foldl (sqlite3RowSetInsert True) (sqlite3RowSetInit N) xs"
  have gen: "rs_valid (foldl (sqlite3RowSetInsert True) p xs) \<and> pEntry (foldl (sqlite3RowSetInsert True) p xs) = pEntry p @ xs
      \<and> rs_next (foldl (sqlite3RowSetInsert True) p xs) = rs_next p" if "rs_valid p" for p
    using that by (induction xs arbitrary: p) (simp_all add: Insert_ok)
  have q: "rs_valid q" "pEntry q = xs" "\<not> rs_next q"
    using gen [of "sqlite3RowSetInit N"] by (auto simp: q_def sqlite3RowSetInit_def rs_valid_def)
  obtain es where es: "(if rs_next q \<or> rs_sorted q then Some (pEntry q) else rowSetEntrySort (pEntry q)) = Some es"
      "strict es" "set es = set xs"
  proof (cases "rs_sorted q")
    case True
    then show thesis using q by (intro that [of xs]) (auto simp: rs_valid_def)
  next
    case False
    then show thesis using sort_ok [OF assms(1)] q that by metis
  qed
  have "length es = card (set xs)" using es(2,3) by (metis distinct_card strict_sorted_iff)
  then have len: "length es < n" using card_length [of xs] assms(2) by linarith
  define p where "p = q\<lparr>pEntry := es, rs_sorted := True, rs_next := True\<rparr>"
  have "sqlite3RowSetNext q = sqlite3RowSetNext p"
    using es(1) q(3) unfolding sqlite3RowSetNext_def p_def by (simp add: Let_def)
  moreover have "rowset_drain n p = Some es" using drain_next [of p n] len by (simp add: p_def)
  moreover obtain m where "n = Suc m" using assms(2) by (cases n) auto
  ultimately show ?thesis using strict_sorted_list [OF es(2,3)] by (simp add: q_def)
qed

theorem RowSet_extracts_sorted_witness:
  "rowset_drain 5 (foldl (sqlite3RowSetInsert True) (sqlite3RowSetInit 1024) [7, 3, 7, 5]) = Some (sorted_list_of_set {3, 5, 7})"
  using RowSet_extracts_sorted [of "[7, 3, 7, 5]" 5 1024] by (simp add: insert_commute)

end
