(* ===== verification/File_Interface.thy ===== *)
theory File_Interface
  imports Sqlite_Prelude
begin

section \<open>The interface of a file\<close>

text \<open>
  What the pager and the journal rely on of an open file (\<open>sqlite3_io_methods\<close>): a file has a content,
  a sequence of bytes; a write that reports success replaces the bytes at its offset and extends the
  file when it reaches behind its end, and a read that lies within the file returns its bytes and
  changes nothing. \<open>admits\<close> says which writes the implementation supports.
\<close>

definition write_at :: "bytes \<Rightarrow> bytes \<Rightarrow> nat \<Rightarrow> bytes" where
  "write_at c d off = take off (c @ replicate (off - length c) 0) @ d @ drop (off + length d) c"

definition read_at :: "bytes \<Rightarrow> nat \<Rightarrow> nat \<Rightarrow> bytes" where
  "read_at c n off = take n (drop off c)"

text \<open>The C library's \<open>memcpy\<close> into a block at an offset, and the contract of \<open>realloc\<close>: the new block has
  the new size and begins with the old bytes, the bytes behind them are unspecified.\<close>

definition memcpy_at :: "bytes \<Rightarrow> nat \<Rightarrow> bytes \<Rightarrow> bytes" where
  "memcpy_at b off d = take off b @ d @ drop (off + length d) b"

definition realloc_ok :: "(bytes \<Rightarrow> nat \<Rightarrow> bytes option) \<Rightarrow> bool" where
  "realloc_ok r \<longleftrightarrow> (\<forall>old n new. r old n = Some new \<longrightarrow> length new = n \<and> take (length old) new = take n old)"

lemma length_memcpy_at [simp]: "off + length d \<le> length b \<Longrightarrow> length (memcpy_at b off d) = length b"
  by (simp add: memcpy_at_def)

lemma take_memcpy_at:
  assumes "n \<le> off" "off + length d \<le> length b"
  shows "take n (memcpy_at b off d) = take n b"
  using assms by (simp add: memcpy_at_def)

lemma memcpy_at_write_at:
  assumes "off \<le> n" "off + length d \<le> length b" "n \<le> length b"
  shows "take (max n (off + length d)) (memcpy_at b off d) = write_at (take n b) d off"
  using assms by (auto simp: memcpy_at_def write_at_def max_def min_def take_drop)

lemma realloc_okD: "realloc_ok r \<Longrightarrow> r old n = Some new \<Longrightarrow> length new = n \<and> take (length old) new = take n old"
  by (auto simp: realloc_ok_def)

lemma write_at_end [simp]: "write_at c d (length c) = c @ d"
  by (simp add: write_at_def)

lemma length_write_at: "length (write_at c d off) = max (length c) (off + length d)"
  by (auto simp: write_at_def)

lemma read_write_at_same: "read_at (write_at c d off) (length d) off = d"
  by (simp add: read_at_def write_at_def)

lemma read_write_at_before: "off' + n \<le> off \<Longrightarrow> off \<le> length c \<Longrightarrow> read_at (write_at c d off) n off' = read_at c n off'"
  by (auto simp: read_at_def write_at_def drop_take min_def)

lemma read_write_at_after: "off + length d \<le> off' \<Longrightarrow> off \<le> length c \<Longrightarrow> read_at (write_at c d off) n off' = read_at c n off'"
  by (simp add: read_at_def write_at_def min_def)

lemma write_at_write_at: "write_at (write_at c a off) b (off + length a) = write_at c (a @ b) off"
proof -
  have l: "length (take off (c @ replicate (off - length c) 0)) = off" by simp
  have "take (off + length a) (write_at c a off) = take off (c @ replicate (off - length c) 0) @ a"
    using l by (simp add: write_at_def)
  moreover have "drop (off + length a + length b) (write_at c a off) = drop (off + length (a @ b)) c"
    using l by (simp add: write_at_def ac_simps)
  moreover have "off + length a - length (write_at c a off) = 0" by (simp add: length_write_at)
  ultimately show ?thesis by (subst write_at_def) (simp add: write_at_def)
qed

text \<open>The SQLite result codes the file layer uses.\<close>

definition SQLITE_BUSY :: nat where "SQLITE_BUSY = 5"
definition SQLITE_NOMEM :: nat where "SQLITE_NOMEM = 7"
definition SQLITE_READONLY :: nat where "SQLITE_READONLY = 8"
definition SQLITE_IOERR :: nat where "SQLITE_IOERR = 10"
definition SQLITE_CORRUPT :: nat where "SQLITE_CORRUPT = 11"
definition SQLITE_NOTFOUND :: nat where "SQLITE_NOTFOUND = 12"
definition SQLITE_FULL :: nat where "SQLITE_FULL = 13"
definition SQLITE_CANTOPEN :: nat where "SQLITE_CANTOPEN = 14"
definition SQLITE_IOERR_READ :: nat where "SQLITE_IOERR_READ = 266"
definition SQLITE_IOERR_SHORT_READ :: nat where "SQLITE_IOERR_SHORT_READ = 522"
definition SQLITE_IOERR_WRITE :: nat where "SQLITE_IOERR_WRITE = 778"
definition SQLITE_IOERR_FSYNC :: nat where "SQLITE_IOERR_FSYNC = 1034"
definition SQLITE_IOERR_FSTAT :: nat where "SQLITE_IOERR_FSTAT = 1802"
definition SQLITE_IOERR_DELETE :: nat where "SQLITE_IOERR_DELETE = 2570"
definition SQLITE_IOERR_NOMEM :: nat where "SQLITE_IOERR_NOMEM = 3082"

lemmas result_codes = SQLITE_BUSY_def SQLITE_NOMEM_def SQLITE_READONLY_def SQLITE_IOERR_def SQLITE_CORRUPT_def SQLITE_NOTFOUND_def SQLITE_FULL_def SQLITE_CANTOPEN_def SQLITE_IOERR_READ_def SQLITE_IOERR_SHORT_READ_def SQLITE_IOERR_WRITE_def SQLITE_IOERR_FSYNC_def SQLITE_IOERR_FSTAT_def SQLITE_IOERR_DELETE_def SQLITE_IOERR_NOMEM_def

text \<open>Records written one behind the other from the end of the file on.\<close>

fun append_all :: "('f \<Rightarrow> bytes \<Rightarrow> nat \<Rightarrow> nat \<times> 'f) \<Rightarrow> 'f \<Rightarrow> nat \<Rightarrow> bytes list \<Rightarrow> nat \<times> 'f" where
  "append_all wr f off [] = (0, f)"
| "append_all wr f off (d # ds) =
     (case wr f d off of (rc, f) \<Rightarrow> if rc \<noteq> 0 then (rc, f) else append_all wr f (off + length d) ds)"

locale byte_file =
  fixes inv :: "'f \<Rightarrow> bool" and content :: "'f \<Rightarrow> bytes" and admits :: "'f \<Rightarrow> bytes \<Rightarrow> nat \<Rightarrow> bool"
    and wr :: "'f \<Rightarrow> bytes \<Rightarrow> nat \<Rightarrow> nat \<times> 'f" and rd :: "'f \<Rightarrow> nat \<Rightarrow> nat \<Rightarrow> nat \<times> bytes \<times> 'f"
  assumes write_inv: "inv f \<Longrightarrow> admits f d off \<Longrightarrow> wr f d off = (0, f') \<Longrightarrow> inv f'"
    and write_content: "inv f \<Longrightarrow> admits f d off \<Longrightarrow> wr f d off = (0, f') \<Longrightarrow> content f' = write_at (content f) d off"
    and admits_end: "inv f \<Longrightarrow> admits f d (length (content f))"
    and read_content: "inv f \<Longrightarrow> 0 < n \<Longrightarrow> off + n \<le> length (content f) \<Longrightarrow>
      \<exists>f'. rd f n off = (0, read_at (content f) n off, f') \<and> inv f' \<and> content f' = content f"
begin

lemma append_all_content:
  "inv f \<Longrightarrow> off = length (content f) \<Longrightarrow> append_all wr f off ds = (0, f') \<Longrightarrow> inv f' \<and> content f' = content f @ concat ds"
proof (induction ds arbitrary: f off)
  case (Cons d ds)
  obtain g where g: "wr f d off = (0, g)" "append_all wr g (off + length d) ds = (0, f')"
    using Cons.prems(3) by (cases "wr f d off") (auto split: if_splits)
  have c: "inv g" "content g = content f @ d"
    using write_inv [OF Cons.prems(1) _ g(1)] write_content [OF Cons.prems(1) _ g(1)] admits_end [OF Cons.prems(1)] Cons.prems(2) by auto
  then show ?case using Cons.IH [OF c(1) _ g(2)] Cons.prems(2) by simp
qed simp

text \<open>What was appended is read back, record by record.\<close>

lemma append_all_read:
  assumes "inv f" "append_all wr f (length (content f)) (ds @ d # es) = (0, f')" "d \<noteq> []"
  shows "\<exists>f''. rd f' (length d) (length (content f) + length (concat ds)) = (0, d, f'')"
proof -
  have c: "inv f'" "content f' = content f @ concat ds @ d @ concat es"
    using append_all_content [OF assms(1) refl assms(2)] by simp_all
  have "0 < length d" using assms(3) by simp
  from read_content [OF c(1) this, of "length (content f) + length (concat ds)"] c(2)
  show ?thesis by (auto simp: read_at_def)
qed

end

end
