(* ===== verification/MemJournal.thy ===== *)
theory MemJournal
  imports File_Interface
begin

section \<open>In-memory journals (memjournal.c)\<close>

text \<open>
  A rollback journal that lives in a list of chunks of \<open>nChunkSize\<close> bytes and moves to a real file
  when it outgrows \<open>nSpill\<close>. A pointer to a chunk is its index in the list. The operations on the
  real file (\<open>sqlite3OsOpen\<close>, \<open>sqlite3OsWrite\<close>, \<open>sqlite3OsClose\<close>) belong to the VFS and are
  parameters. \<open>alloc k\<close> is the memory of the \<open>k\<close>-th chunk, whose initial bytes are unspecified, or
  \<open>None\<close> when the allocation fails.
\<close>

record FilePoint =
  iOffset :: nat
  pChunk :: "nat option"

record MemJournal =
  nChunkSize :: nat
  nSpill :: int
  chunks :: "bytes list"
  endpoint :: FilePoint
  readpoint :: FilePoint
  mj_flags :: nat

text \<open>The chunk that holds offset \<open>iOfst\<close>, searched from the first one.\<close>

function find_chunk :: "nat \<Rightarrow> nat \<Rightarrow> nat \<Rightarrow> nat \<Rightarrow> nat \<Rightarrow> nat" where
  "find_chunk cs n iOfst i iOff = (if i < n \<and> iOff + cs \<le> iOfst then find_chunk cs n iOfst (i + 1) (iOff + cs) else i)"
  by pat_completeness auto
termination by (relation "measure (\<lambda>(_, n, _, i, _). n - i)") auto

text \<open>The copy loop; the second component is \<open>pChunk\<close> after it. \<open>nRead\<close> becomes negative exactly
  when the rest of the chunk is longer than what is still to be read.\<close>

function read_loop :: "nat \<Rightarrow> bytes list \<Rightarrow> nat \<Rightarrow> nat \<Rightarrow> nat \<Rightarrow> bytes \<times> nat option" where
  "read_loop cs ch i off nRead =
     (let iSpace = cs - off; d = take (min nRead iSpace) (drop off (ch ! i)) in
      if iSpace \<le> nRead then
        (if i + 1 < length ch then
           (if iSpace < nRead then (case read_loop cs ch (i + 1) 0 (nRead - iSpace) of (ds, q) \<Rightarrow> (d @ ds, q)) else (d, Some (i + 1)))
         else (d, None))
      else (d, Some i))"
  by pat_completeness auto
termination by (relation "measure (\<lambda>(_, ch, i, _, _). length ch - i)") auto

declare find_chunk.simps [simp del] read_loop.simps [simp del]

definition memjrnlRead :: "MemJournal \<Rightarrow> nat \<Rightarrow> nat \<Rightarrow> nat \<times> bytes \<times> MemJournal" where
  "memjrnlRead p iAmt iOfst =
     (if iOffset (endpoint p) < iAmt + iOfst then (SQLITE_IOERR_SHORT_READ, [], p)
      else
        (let i = (if iOffset (readpoint p) \<noteq> iOfst \<or> iOfst = 0
                  then find_chunk (nChunkSize p) (length (chunks p)) iOfst 0 0
                  else the (pChunk (readpoint p)));
             (d, q) = read_loop (nChunkSize p) (chunks p) i (iOfst mod nChunkSize p) iAmt
         in (0, d, p\<lparr>readpoint := \<lparr>iOffset = (case q of Some _ \<Rightarrow> iOfst + iAmt | None \<Rightarrow> 0), pChunk = q\<rparr>\<rparr>)))"

text \<open>The loop that finds the chunk which holds the last byte kept.\<close>

function trunc_chunk :: "nat \<Rightarrow> nat \<Rightarrow> nat \<Rightarrow> nat \<Rightarrow> nat \<Rightarrow> nat" where
  "trunc_chunk cs n nSize i iOff = (if i < n \<and> iOff < nSize then trunc_chunk cs n nSize (i + 1) (iOff + cs) else i)"
  by pat_completeness auto
termination by (relation "measure (\<lambda>(_, n, _, i, _). n - i)") auto

declare trunc_chunk.simps [simp del]

definition memjrnlTruncate :: "MemJournal \<Rightarrow> nat \<Rightarrow> MemJournal" where
  "memjrnlTruncate p nSize =
     (if nSize < iOffset (endpoint p) then
        (let (ch, q) =
           (if nSize = 0 then ([], None)
            else (let i = trunc_chunk (nChunkSize p) (length (chunks p)) nSize 0 (nChunkSize p) in
                  if i < length (chunks p) then (take (i + 1) (chunks p), Some i) else (chunks p, None)))
         in p\<lparr>chunks := ch, endpoint := \<lparr>iOffset = nSize, pChunk = q\<rparr>, readpoint := \<lparr>iOffset = 0, pChunk = None\<rparr>\<rparr>)
      else p)"

text \<open>The append loop. A chunk is there to take the next bytes: the last one, or a fresh one behind it.
  \<open>nChunkSize\<close> is positive; with zero the C code would divide by zero.\<close>

definition with_room :: "(nat \<Rightarrow> bytes option) \<Rightarrow> MemJournal \<Rightarrow> MemJournal option" where
  "with_room alloc p =
     (if iOffset (endpoint p) mod nChunkSize p = 0 then
        (let k = (case pChunk (endpoint p) of None \<Rightarrow> 0 | Some e \<Rightarrow> e + 1) in
         case alloc k of None \<Rightarrow> None
         | Some b \<Rightarrow> Some (p\<lparr>chunks := take k (chunks p) @ [b], endpoint := (endpoint p)\<lparr>pChunk := Some k\<rparr>\<rparr>))
      else Some p)"

definition put_bytes :: "MemJournal \<Rightarrow> bytes \<Rightarrow> MemJournal" where
  "put_bytes q d =
     (let c = the (pChunk (endpoint q)) in
      q\<lparr>chunks := (chunks q)[c := memcpy_at (chunks q ! c) (iOffset (endpoint q) mod nChunkSize q) d],
        endpoint := (endpoint q)\<lparr>iOffset := iOffset (endpoint q) + length d\<rparr>\<rparr>)"

function write_loop :: "(nat \<Rightarrow> bytes option) \<Rightarrow> MemJournal \<Rightarrow> bytes \<Rightarrow> nat \<times> MemJournal" where
  "write_loop alloc p z =
     (if z = [] \<or> nChunkSize p = 0 then (0, p)
      else
        (let iSpace = min (length z) (nChunkSize p - iOffset (endpoint p) mod nChunkSize p) in
         case with_room alloc p of None \<Rightarrow> (SQLITE_IOERR_NOMEM, p)
         | Some q \<Rightarrow> write_loop alloc (put_bytes q (take iSpace z)) (drop iSpace z)))"
  by pat_completeness auto
termination
proof (relation "measure (\<lambda>(_, _, z). length z)", goal_cases)
  case (2 alloc p z iSpace q)
  then have "0 < iSpace" by (auto simp: min_def)
  then show ?case using 2(1) by simp
qed simp

declare write_loop.simps [simp del]

text \<open>A write that stays in memory.\<close>

definition memjrnlWrite_mem :: "(nat \<Rightarrow> bytes option) \<Rightarrow> MemJournal \<Rightarrow> bytes \<Rightarrow> nat \<Rightarrow> nat \<times> MemJournal" where
  "memjrnlWrite_mem alloc p z iOfst =
     (let p = (if 0 < iOfst \<and> iOfst \<noteq> iOffset (endpoint p) then memjrnlTruncate p iOfst else p) in
      if iOfst = 0 \<and> chunks p \<noteq> [] then (0, p\<lparr>chunks := (chunks p)[0 := memcpy_at (chunks p ! 0) 0 z]\<rparr>)
      else write_loop alloc p z)"

text \<open>An open journal is the structure above or, after a spill, a file of the VFS.\<close>

datatype 'f journal = InMemory MemJournal | OnDisk 'f

fun spill_loop :: "('f \<Rightarrow> bytes \<Rightarrow> nat \<Rightarrow> nat \<times> 'f) \<Rightarrow> nat \<Rightarrow> nat \<Rightarrow> nat \<Rightarrow> bytes list \<Rightarrow> 'f \<Rightarrow> nat \<times> 'f" where
  "spill_loop os_write nChunk iOff endOff [] f = (0, f)"
| "spill_loop os_write nChunk iOff endOff (c # cs) f =
     (let nChunk = (if endOff < iOff + nChunk then endOff - iOff else nChunk) in
      case os_write f (take nChunk c) iOff of
        (rc, f) \<Rightarrow> if rc \<noteq> 0 then (rc, f) else spill_loop os_write nChunk (iOff + nChunk) endOff cs f)"

text \<open>On an error the file is closed and the journal stays in memory.\<close>

definition memjrnlCreateFile :: "(nat \<times> 'f) \<Rightarrow> ('f \<Rightarrow> bytes \<Rightarrow> nat \<Rightarrow> nat \<times> 'f) \<Rightarrow> MemJournal \<Rightarrow> nat \<times> 'f journal" where
  "memjrnlCreateFile os_open os_write p =
     (case os_open of (rc, f) \<Rightarrow>
        if rc \<noteq> 0 then (rc, InMemory p)
        else (case spill_loop os_write (nChunkSize p) 0 (iOffset (endpoint p)) (chunks p) f of
               (rc, f) \<Rightarrow> if rc = 0 then (0, OnDisk f) else (rc, InMemory p)))"


definition memjrnlFileSize :: "MemJournal \<Rightarrow> nat" where
  "memjrnlFileSize p = iOffset (endpoint p)"

definition memjrnlClose :: "MemJournal \<Rightarrow> nat" where "memjrnlClose p = 0"
definition memjrnlSync :: "MemJournal \<Rightarrow> nat" where "memjrnlSync p = 0"

definition MEMJOURNAL_DFLT_FILECHUNKSIZE :: nat where "MEMJOURNAL_DFLT_FILECHUNKSIZE = 1024"

text \<open>\<open>sizeof(FileChunk)\<close> is 16 with 8-byte pointers.\<close>

definition sqlite3JournalOpen :: "(nat \<times> 'f) \<Rightarrow> nat \<Rightarrow> int \<Rightarrow> nat \<times> 'f journal" where
  "sqlite3JournalOpen os_open flags spill =
     (if spill = 0 then (case os_open of (rc, f) \<Rightarrow> (rc, OnDisk f))
      else (0, InMemory
        \<lparr>nChunkSize = (if 0 < spill then nat spill else 8 + MEMJOURNAL_DFLT_FILECHUNKSIZE - 16), nSpill = spill, chunks = [],
         endpoint = \<lparr>iOffset = 0, pChunk = None\<rparr>, readpoint = \<lparr>iOffset = 0, pChunk = None\<rparr>, mj_flags = flags\<rparr>))"

definition sqlite3MemJournalOpen :: "nat \<times> 'f \<Rightarrow> nat \<times> 'f journal" where
  "sqlite3MemJournalOpen none = sqlite3JournalOpen none 0 (-1)"

definition sqlite3JournalIsInMemory :: "'f journal \<Rightarrow> bool" where
  "sqlite3JournalIsInMemory j = (case j of InMemory _ \<Rightarrow> True | OnDisk _ \<Rightarrow> False)"

subsection \<open>The invariant and the content\<close>

definition mj_uniform :: "nat \<Rightarrow> bytes list \<Rightarrow> bool" where
  "mj_uniform cs ch \<longleftrightarrow> (\<forall>c \<in> set ch. length c = cs)"

definition mj_ok :: "MemJournal \<Rightarrow> bool" where
  "mj_ok p \<longleftrightarrow> (let cs = nChunkSize p; n = length (chunks p); e = iOffset (endpoint p) in
     0 < cs \<and> mj_uniform cs (chunks p) \<and> e \<le> n * cs \<and> n * cs < e + cs
     \<and> pChunk (endpoint p) = (if n = 0 then None else Some (n - 1))
     \<and> (iOffset (readpoint p) \<noteq> 0 \<longrightarrow> pChunk (readpoint p) = Some (iOffset (readpoint p) div cs) \<and> iOffset (readpoint p) div cs < n))"

definition mj_content :: "MemJournal \<Rightarrow> bytes" where
  "mj_content p = take (iOffset (endpoint p)) (concat (chunks p))"

lemma uniform_length: "mj_uniform cs ch \<Longrightarrow> length (concat ch) = length ch * cs"
  by (induction ch) (auto simp: mj_uniform_def)

lemma uniform_drop: "mj_uniform cs ch \<Longrightarrow> drop (i * cs) (concat ch) = concat (drop i ch)"
proof (induction i arbitrary: ch)
  case (Suc i)
  then show ?case
  proof (cases ch)
    case (Cons c cs')
    then have "length c = cs" "mj_uniform cs cs'" using Suc.prems by (auto simp: mj_uniform_def)
    then show ?thesis using Suc.IH [of cs'] Cons by simp
  qed simp
qed simp

lemma mj_okD:
  assumes "mj_ok p"
  shows "0 < nChunkSize p" "mj_uniform (nChunkSize p) (chunks p)" "iOffset (endpoint p) \<le> length (chunks p) * nChunkSize p"
    "length (chunks p) * nChunkSize p < iOffset (endpoint p) + nChunkSize p"
    "pChunk (endpoint p) = (if length (chunks p) = 0 then None else Some (length (chunks p) - 1))"
    "iOffset (readpoint p) \<noteq> 0 \<Longrightarrow> pChunk (readpoint p) = Some (iOffset (readpoint p) div nChunkSize p) \<and> iOffset (readpoint p) div nChunkSize p < length (chunks p)"
  using assms unfolding mj_ok_def Let_def by auto

lemma mj_length: "mj_ok p \<Longrightarrow> length (mj_content p) = iOffset (endpoint p)"
  using mj_okD(2,3) [of p] uniform_length [of "nChunkSize p" "chunks p"] by (simp add: mj_content_def)

subsection \<open>Reading\<close>

lemma find_chunk_eq:
  assumes "0 < cs" "i \<le> iOfst div cs" "iOfst div cs < n"
  shows "find_chunk cs n iOfst i (i * cs) = iOfst div cs"
  using assms
proof (induction "iOfst div cs - i" arbitrary: i)
  case 0
  then have i: "i = iOfst div cs" by simp
  have "iOfst < iOfst div cs * cs + cs" using div_mult_mod_eq [of iOfst cs] mod_less_divisor [OF 0(2), of iOfst] by linarith
  then show ?case using i by (subst find_chunk.simps) simp
next
  case (Suc k)
  have "(i + 1) * cs \<le> (iOfst div cs) * cs" using Suc.hyps(2) by (intro mult_le_mono1) simp
  also have "\<dots> \<le> iOfst" by simp
  finally have le: "i * cs + cs \<le> iOfst" by simp
  have "find_chunk cs n iOfst (i + 1) ((i + 1) * cs) = iOfst div cs"
    by (rule Suc.hyps(1)) (use Suc in auto)
  then show ?case using le Suc by (subst find_chunk.simps) (simp add: add.commute)
qed

lemma read_loop_eq:
  assumes "0 < cs" "mj_uniform cs ch" "i < length ch" "off < cs" "0 < n" "i * cs + off + n \<le> length ch * cs"
  shows "read_loop cs ch i off n = (take n (drop off (concat (drop i ch))),
     if (i * cs + off + n) div cs < length ch then Some ((i * cs + off + n) div cs) else None)"
  using assms
proof (induction cs ch i off n rule: read_loop.induct)
  case (1 cs ch i off n)
  let ?R = "concat (drop (i + 1) ch)"
  have c: "length (ch ! i) = cs" using "1.prems"(2,3) by (auto simp: mj_uniform_def)
  have split: "concat (drop i ch) = ch ! i @ ?R" using "1.prems"(3) by (simp add: Cons_nth_drop_Suc [symmetric])
  consider (lt) "n < cs - off" | (eq) "n = cs - off" | (gt) "cs - off < n" by linarith
  then show ?case
  proof cases
    case lt
    have "(i * cs + (off + n)) div cs = i" using lt "1.prems"(1,4) by (intro div_mult_self3 [THEN trans]) auto
    then show ?thesis using lt "1.prems"(3,4) c by (subst read_loop.simps) (simp add: split Let_def add.assoc)
  next
    case eq
    have "i * cs + off + n = (i + 1) * cs" using eq "1.prems"(4) by simp
    then have "(i * cs + off + n) div cs = i + 1" using "1.prems"(1) by (simp only: div_mult_self_is_m)
    then show ?thesis using eq "1.prems"(3,4) c by (subst read_loop.simps) (auto simp: split Let_def)
  next
    case gt
    let ?n = "n - (cs - off)"
    have lt: "i + 1 < length ch"
    proof (rule ccontr)
      assume "\<not> i + 1 < length ch"
      then have "length ch = i + 1" using "1.prems"(3) by simp
      then show False using "1.prems"(4,6) gt by simp
    qed
    have sum: "(i + 1) * cs + 0 + ?n = i * cs + off + n" using gt "1.prems"(4) by simp
    have ih: "read_loop cs ch (i + 1) 0 ?n = (take ?n (drop 0 ?R),
        if ((i + 1) * cs + 0 + ?n) div cs < length ch then Some (((i + 1) * cs + 0 + ?n) div cs) else None)"
      by (rule "1.IH" [OF refl refl]) (use gt lt "1.prems" sum in auto)
    have "take n (drop off (concat (drop i ch))) = drop off (ch ! i) @ take ?n ?R"
      using gt c "1.prems"(4) by (simp add: split)
    moreover have "read_loop cs ch i off n = (case read_loop cs ch (i + 1) 0 ?n of (ds, q) \<Rightarrow> (drop off (ch ! i) @ ds, q))"
      using gt lt c by (subst read_loop.simps) (simp add: Let_def)
    ultimately show ?thesis unfolding ih sum by simp
  qed
qed

lemma Read_in_range:
  assumes "mj_ok p" "0 < n" "off + n \<le> iOffset (endpoint p)"
  shows "\<exists>p'. memjrnlRead p n off = (0, read_at (mj_content p) n off, p') \<and> mj_ok p' \<and> mj_content p' = mj_content p"
proof -
  note ok = mj_okD [OF assms(1)]
  let ?cs = "nChunkSize p" and ?ch = "chunks p" and ?i = "off div nChunkSize p"
  have tot: "off + n \<le> length ?ch * ?cs" using ok(3) assms(3) by linarith
  then have i: "?i < length ?ch" using assms(2) by (intro less_mult_imp_div_less) linarith
  have pick: "(if iOffset (readpoint p) \<noteq> off \<or> off = 0 then find_chunk ?cs (length ?ch) off 0 0 else the (pChunk (readpoint p))) = ?i"
    using find_chunk_eq [OF ok(1), of 0 off "length ?ch"] i ok(6) by auto
  have sum: "?i * ?cs + off mod ?cs + n = off + n" by simp
  have r: "read_loop ?cs ?ch ?i (off mod ?cs) n = (take n (drop (off mod ?cs) (concat (drop ?i ?ch))),
      if (off + n) div ?cs < length ?ch then Some ((off + n) div ?cs) else None)"
    using read_loop_eq [OF ok(1,2) i, of "off mod ?cs" n] ok(1) assms(2) tot unfolding sum by simp
  have "drop (off mod ?cs) (concat (drop ?i ?ch)) = drop off (concat ?ch)"
    unfolding uniform_drop [OF ok(2), symmetric] drop_drop by simp
  then have d: "take n (drop (off mod ?cs) (concat (drop ?i ?ch))) = read_at (mj_content p) n off"
    using assms(3) by (simp add: read_at_def mj_content_def drop_take min_def)
  let ?q = "if (off + n) div ?cs < length ?ch then Some ((off + n) div ?cs) else None"
  let ?p = "p\<lparr>readpoint := \<lparr>iOffset = (case ?q of Some _ \<Rightarrow> off + n | None \<Rightarrow> 0), pChunk = ?q\<rparr>\<rparr>"
  have "memjrnlRead p n off = (0, read_at (mj_content p) n off, ?p)"
    using assms(3) unfolding memjrnlRead_def pick Let_def r d by (simp add: add.commute)
  moreover have "mj_ok ?p" using ok unfolding mj_ok_def Let_def by simp
  moreover have "mj_content ?p = mj_content p" by (simp add: mj_content_def)
  ultimately show ?thesis by blast
qed


subsection \<open>Writing\<close>

lemma mj_okI:
  assumes "0 < nChunkSize p" "mj_uniform (nChunkSize p) (chunks p)" "iOffset (endpoint p) \<le> length (chunks p) * nChunkSize p"
    "length (chunks p) * nChunkSize p < iOffset (endpoint p) + nChunkSize p"
    "pChunk (endpoint p) = (if length (chunks p) = 0 then None else Some (length (chunks p) - 1))"
    "iOffset (readpoint p) \<noteq> 0 \<Longrightarrow> pChunk (readpoint p) = Some (iOffset (readpoint p) div nChunkSize p) \<and> iOffset (readpoint p) div nChunkSize p < length (chunks p)"
  shows "mj_ok p"
  using assms unfolding mj_ok_def Let_def by simp

lemma mult_less_cancel_nat: "a * c < b * c \<Longrightarrow> a < (b :: nat)"
  by simp

lemma mult_le_cancel_nat: "a * c \<le> b * c \<Longrightarrow> 0 < c \<Longrightarrow> a \<le> (b :: nat)"
  by simp

text \<open>The number of chunks, by the position of the end.\<close>

lemma chunk_count:
  assumes "mj_ok p"
  shows "length (chunks p) = iOffset (endpoint p) div nChunkSize p + (if iOffset (endpoint p) mod nChunkSize p = 0 then 0 else 1)"
proof -
  note ok = mj_okD [OF assms]
  define cs c r n where "cs = nChunkSize p" and "c = iOffset (endpoint p) div nChunkSize p"
    and "r = iOffset (endpoint p) mod nChunkSize p" and "n = length (chunks p)"
  have e: "iOffset (endpoint p) = c * cs + r" "r < cs" using ok(1) by (simp_all add: c_def cs_def r_def)
  have le: "c * cs + r \<le> n * cs" "n * cs < c * cs + r + cs" using ok(3,4) unfolding e(1) cs_def [symmetric] n_def [symmetric] by simp_all
  have "(c + 1) * cs = c * cs + 1 * cs" "(c + 2) * cs = c * cs + 2 * cs" by (rule distrib_right)+
  then have c1: "(c + 1) * cs = c * cs + cs" "(c + 2) * cs = c * cs + 2 * cs" by (simp only: mult_1)+
  have "n = c + (if r = 0 then 0 else 1)"
  proof (cases "r = 0")
    case True
    have "c \<le> n" by (rule mult_le_cancel_nat [of _ cs]) (use le(1) e(2) True in auto)
    moreover have "n * cs < (c + 1) * cs" unfolding c1 using le(2) True by linarith
    then have "n < c + 1" by (rule mult_less_cancel_nat)
    ultimately show ?thesis using True by simp
  next
    case False
    have "c < n" by (rule mult_less_cancel_nat [of _ cs]) (use le(1) False in linarith)
    moreover have "n * cs < (c + 2) * cs" unfolding c1 using le(2) e(2) by linarith
    then have "n < c + 2" by (rule mult_less_cancel_nat)
    ultimately show ?thesis using False by simp
  qed
  then show ?thesis by (simp add: n_def c_def r_def)
qed

lemma write_loop_step:
  assumes "z \<noteq> []" "0 < nChunkSize p"
  defines "n \<equiv> min (length z) (nChunkSize p - iOffset (endpoint p) mod nChunkSize p)"
  shows "write_loop alloc p z = (case with_room alloc p of None \<Rightarrow> (SQLITE_IOERR_NOMEM, p)
     | Some q \<Rightarrow> write_loop alloc (put_bytes q (take n z)) (drop n z))"
  unfolding write_loop.simps [of alloc p z] n_def Let_def using assms by simp

lemma with_room_ok:
  assumes "mj_ok p" "with_room alloc p = Some q" "\<And>k b. alloc k = Some b \<Longrightarrow> length b = nChunkSize p"
  defines "c \<equiv> iOffset (endpoint p) div nChunkSize p"
  shows "nChunkSize q = nChunkSize p" "nSpill q = nSpill p" "iOffset (endpoint q) = iOffset (endpoint p)" "readpoint q = readpoint p"
    "mj_uniform (nChunkSize p) (chunks q)" "length (chunks q) = c + 1" "pChunk (endpoint q) = Some c"
    "mj_content q = mj_content p"
proof -
  note ok = mj_okD [OF assms(1)]
  let ?cs = "nChunkSize p" and ?e = "iOffset (endpoint p)"
  have "nChunkSize q = nChunkSize p \<and> nSpill q = nSpill p \<and> iOffset (endpoint q) = iOffset (endpoint p) \<and> readpoint q = readpoint p \<and>
    mj_uniform (nChunkSize p) (chunks q) \<and> length (chunks q) = c + 1 \<and> pChunk (endpoint q) = Some c \<and> mj_content q = mj_content p"
  proof (cases "?e mod ?cs = 0")
    case False
    have "q = p" using assms(2) False by (simp add: with_room_def)
    moreover have "length (chunks p) = c + 1" using chunk_count [OF assms(1)] False by (simp add: c_def)
    ultimately show ?thesis using ok(2,5) by simp
  next
    case True
    have n: "length (chunks p) = c" using chunk_count [OF assms(1)] True by (simp add: c_def)
    have k: "(case pChunk (endpoint p) of None \<Rightarrow> 0 | Some e \<Rightarrow> e + 1) = c" using ok(5) n by (cases "c = 0") auto
    have w: "with_room alloc p = (case alloc c of None \<Rightarrow> None
       | Some b \<Rightarrow> Some (p\<lparr>chunks := chunks p @ [b], endpoint := (endpoint p)\<lparr>pChunk := Some c\<rparr>\<rparr>))"
      using True n unfolding with_room_def Let_def k by (simp cong: option.case_cong)
    obtain b where b: "alloc c = Some b" "q = p\<lparr>chunks := chunks p @ [b], endpoint := (endpoint p)\<lparr>pChunk := Some c\<rparr>\<rparr>"
      using assms(2) unfolding w by (cases "alloc c") auto
    have len: "length b = ?cs" using assms(3) b(1) by simp
    have "?e \<le> length (concat (chunks p))" using uniform_length [OF ok(2)] ok(3) by simp
    then have "mj_content q = mj_content p" unfolding b(2) mj_content_def by simp
    moreover have "mj_uniform ?cs (chunks q)" unfolding b(2) using ok(2) len by (simp add: mj_uniform_def)
    ultimately show ?thesis using n by (simp add: b(2))
  qed
  then show "nChunkSize q = nChunkSize p" "nSpill q = nSpill p" "iOffset (endpoint q) = iOffset (endpoint p)" "readpoint q = readpoint p"
    "mj_uniform (nChunkSize p) (chunks q)" "length (chunks q) = c + 1" "pChunk (endpoint q) = Some c" "mj_content q = mj_content p"
    by simp_all
qed

lemma concat_update_last:
  assumes "length ch = c + 1"
  shows "concat (ch[c := b]) = concat (take c ch) @ b" "concat ch = concat (take c ch) @ ch ! c"
proof -
  have "ch = take c ch @ [ch ! c]" using assms by (metis Suc_eq_plus1 lessI take_Suc_conv_app_nth take_all order_refl)
  then show "concat ch = concat (take c ch) @ ch ! c" by (metis concat.simps concat_append append_Nil2)
  have "ch[c := b] = take c ch @ [b]" using assms by (simp add: upd_conv_take_nth_drop)
  then show "concat (ch[c := b]) = concat (take c ch) @ b" by simp
qed

lemma take_append_len: "n = length a + k \<Longrightarrow> take n (a @ b) = a @ take k b"
  by simp

lemma put_bytes_ok:
  assumes "0 < nChunkSize q" "mj_uniform (nChunkSize q) (chunks q)" "d \<noteq> []"
    "length (chunks q) = iOffset (endpoint q) div nChunkSize q + 1" "pChunk (endpoint q) = Some (iOffset (endpoint q) div nChunkSize q)"
    "length d \<le> nChunkSize q - iOffset (endpoint q) mod nChunkSize q"
    "iOffset (readpoint q) \<noteq> 0 \<longrightarrow> pChunk (readpoint q) = Some (iOffset (readpoint q) div nChunkSize q) \<and> iOffset (readpoint q) div nChunkSize q < length (chunks q)"
  shows "mj_ok (put_bytes q d)" "mj_content (put_bytes q d) = mj_content q @ d"
proof -
  let ?cs = "nChunkSize q" and ?e = "iOffset (endpoint q)"
  let ?c = "?e div ?cs" and ?o = "?e mod ?cs"
  let ?b = "chunks q ! ?c"
  let ?b' = "memcpy_at ?b ?o d"
  have o: "?o < ?cs" using assms(1) by simp
  have e: "?e = ?c * ?cs + ?o" by simp
  have b: "length ?b = ?cs" using assms(2,4) by (simp add: mj_uniform_def)
  have b': "length ?b' = ?cs" using b assms(6) o by (simp add: memcpy_at_def)
  have ch: "chunks (put_bytes q d) = (chunks q)[?c := ?b']" by (simp add: put_bytes_def assms(5) Let_def)
  have "0 < length d" using assms(3) by simp
  moreover have "(?c + 1) * ?cs = ?c * ?cs + ?cs" by (simp add: distrib_right)
  ultimately have bounds: "?e + length d \<le> (?c + 1) * ?cs" "(?c + 1) * ?cs < ?e + length d + ?cs"
    using e assms(6) o by linarith+
  show "mj_ok (put_bytes q d)"
  proof (rule mj_okI)
    show "mj_uniform (nChunkSize (put_bytes q d)) (chunks (put_bytes q d))"
      unfolding ch using assms(2) b' set_update_subset_insert [of "chunks q" ?c ?b'] by (auto simp: mj_uniform_def put_bytes_def Let_def)
  qed (use assms bounds ch in \<open>auto simp: put_bytes_def Let_def\<close>)
  have A: "length (concat (take ?c (chunks q))) = ?c * ?cs"
    using uniform_length [of ?cs "take ?c (chunks q)"] assms(2,4) by (auto simp: mj_uniform_def dest: in_set_takeD)
  have "mj_content (put_bytes q d) = take (?e + length d) (concat (take ?c (chunks q)) @ ?b')"
    unfolding mj_content_def ch concat_update_last(1) [OF assms(4)] by (simp add: put_bytes_def Let_def)
  also have "\<dots> = concat (take ?c (chunks q)) @ take (?o + length d) ?b'"
  proof -
    have "?e + length d = length (concat (take ?c (chunks q))) + (?o + length d)" using A e by linarith
    then show ?thesis by (rule take_append_len)
  qed
  also have "take (?o + length d) ?b' = take ?o ?b @ d" using b o by (simp add: memcpy_at_def)
  also have "concat (take ?c (chunks q)) @ take ?o ?b @ d = mj_content q @ d"
  proof -
    have "?e = length (concat (take ?c (chunks q))) + ?o" using A e by linarith
    then have "take ?e (concat (take ?c (chunks q)) @ ?b) = concat (take ?c (chunks q)) @ take ?o ?b" by (rule take_append_len)
    then show ?thesis unfolding mj_content_def concat_update_last(2) [OF assms(4)] by simp
  qed
  finally show "mj_content (put_bytes q d) = mj_content q @ d" .
qed

lemma write_loop_ok:
  assumes "mj_ok p" "\<And>k b. alloc k = Some b \<Longrightarrow> length b = nChunkSize p" "write_loop alloc p z = (rc, p')"
  shows "mj_ok p' \<and> nChunkSize p' = nChunkSize p \<and> nSpill p' = nSpill p
    \<and> (if rc = 0 then mj_content p' = mj_content p @ z
       else rc = SQLITE_IOERR_NOMEM \<and> (\<exists>k < length z. mj_content p' = mj_content p @ take k z) \<and> (\<exists>k. alloc k = None))"
  using assms
proof (induction "length z" arbitrary: z p rule: less_induct)
  case less
  show ?case
  proof (cases "z = []")
    case True
    then show ?thesis using less.prems by (subst (asm) write_loop.simps) auto
  next
    case False
    note ok = mj_okD [OF less.prems(1)]
    define n where "n = min (length z) (nChunkSize p - iOffset (endpoint p) mod nChunkSize p)"
    have n: "0 < n" "n \<le> length z" "n \<le> nChunkSize p - iOffset (endpoint p) mod nChunkSize p"
      using False ok(1) by (auto simp: n_def)
    have step: "write_loop alloc p z = (case with_room alloc p of None \<Rightarrow> (SQLITE_IOERR_NOMEM, p)
       | Some q \<Rightarrow> write_loop alloc (put_bytes q (take n z)) (drop n z))"
      unfolding n_def by (rule write_loop_step [OF False ok(1)])
    show ?thesis
    proof (cases "with_room alloc p")
      case None
      then have "\<exists>k. alloc k = None" by (auto simp: with_room_def Let_def split: if_splits option.splits)
      moreover have "rc = SQLITE_IOERR_NOMEM" "p' = p" using less.prems(3) step None by auto
      ultimately show ?thesis using less.prems(1) False by (auto simp: SQLITE_IOERR_NOMEM_def intro: exI [of _ 0])
    next
      case (Some q)
      note r = with_room_ok [OF less.prems(1) Some less.prems(2)]
      let ?q = "put_bytes q (take n z)"
      have "n \<le> nChunkSize q - iOffset (endpoint q) mod nChunkSize q" using n(3) r by simp
      moreover have "iOffset (readpoint q) \<noteq> 0 \<longrightarrow> pChunk (readpoint q) = Some (iOffset (readpoint q) div nChunkSize q) \<and> iOffset (readpoint q) div nChunkSize q < length (chunks q)"
      proof
        assume "iOffset (readpoint q) \<noteq> 0"
        then have "pChunk (readpoint p) = Some (iOffset (readpoint p) div nChunkSize p)" "iOffset (readpoint p) div nChunkSize p < length (chunks p)"
          using ok(6) r(4) by auto
        moreover have "length (chunks p) \<le> length (chunks q)"
          using r(6) chunk_count [OF less.prems(1)] by (simp split: if_splits)
        ultimately show "pChunk (readpoint q) = Some (iOffset (readpoint q) div nChunkSize q) \<and> iOffset (readpoint q) div nChunkSize q < length (chunks q)"
          using r(1,4) by auto
      qed
      moreover have "take n z \<noteq> []" "length (take n z) = n" using n by auto
      ultimately have q: "mj_ok ?q" "mj_content ?q = mj_content p @ take n z"
        using put_bytes_ok [of q "take n z"] r ok(1) by auto
      have f: "nChunkSize ?q = nChunkSize p" "nSpill ?q = nSpill p" using r(1,2) by (simp_all add: put_bytes_def Let_def)
      have w: "write_loop alloc ?q (drop n z) = (rc, p')" using less.prems(3) step Some by simp
      have "length (drop n z) < length z" using n by simp
      then have ih: "mj_ok p' \<and> nChunkSize p' = nChunkSize p \<and> nSpill p' = nSpill p
        \<and> (if rc = 0 then mj_content p' = mj_content ?q @ drop n z
           else rc = SQLITE_IOERR_NOMEM \<and> (\<exists>k < length (drop n z). mj_content p' = mj_content ?q @ take k (drop n z)) \<and> (\<exists>k. alloc k = None))"
        using less.hyps [OF _ q(1) _ w] less.prems(2) unfolding f by blast
      show ?thesis
      proof (cases "rc = 0")
        case True
        then show ?thesis using ih q(2) by simp
      next
        case False
        then obtain k where k: "k < length (drop n z)" "mj_content p' = mj_content p @ take n z @ take k (drop n z)"
          using ih q(2) by auto
        have "take n z @ take k (drop n z) = take (n + k) z" by (simp add: take_add)
        then show ?thesis using False ih k n by (auto intro!: exI [of _ "n + k"])
      qed
    qed
  qed
qed


subsection \<open>Truncation\<close>

lemma trunc_chunk_eq:
  assumes "0 < cs" "0 < k" "i \<le> (k - 1) div cs" "(k - 1) div cs < n"
  shows "trunc_chunk cs n k i ((i + 1) * cs) = (k - 1) div cs"
  using assms
proof (induction "(k - 1) div cs - i" arbitrary: i)
  case 0
  then have i: "i = (k - 1) div cs" by simp
  have "k - 1 < (k - 1) div cs * cs + cs"
    using div_mult_mod_eq [of "k - 1" cs] mod_less_divisor [OF 0(2), of "k - 1"] by linarith
  then have "\<not> (i + 1) * cs < k" unfolding i distrib_right mult_1 by linarith
  then show ?case using i by (subst trunc_chunk.simps) simp
next
  case (Suc l)
  have "(i + 1) * cs \<le> ((k - 1) div cs) * cs" using Suc.hyps(2) by (intro mult_le_mono1) simp
  also have "\<dots> \<le> k - 1" by simp
  finally have lt: "(i + 1) * cs < k" using Suc.prems(2) by linarith
  have "trunc_chunk cs n k (i + 1) ((i + 1 + 1) * cs) = (k - 1) div cs"
    by (rule Suc.hyps(1)) (use Suc in auto)
  then have "trunc_chunk cs n k (i + 1) ((i + 1) * cs + cs) = (k - 1) div cs" unfolding distrib_right mult_1 .
  then show ?case using lt Suc by (subst trunc_chunk.simps) simp
qed

lemma Truncate_ok:
  assumes "mj_ok p"
  shows "mj_ok (memjrnlTruncate p k)" "mj_content (memjrnlTruncate p k) = take k (mj_content p)"
    "nChunkSize (memjrnlTruncate p k) = nChunkSize p" "nSpill (memjrnlTruncate p k) = nSpill p"
proof -
  note ok = mj_okD [OF assms]
  let ?cs = "nChunkSize p" and ?e = "iOffset (endpoint p)" and ?n = "length (chunks p)"
  have "mj_ok (memjrnlTruncate p k) \<and> mj_content (memjrnlTruncate p k) = take k (mj_content p)
     \<and> nChunkSize (memjrnlTruncate p k) = ?cs \<and> nSpill (memjrnlTruncate p k) = nSpill p"
  proof (cases "k < ?e")
    case False
    then show ?thesis using assms mj_length [OF assms] by (simp add: memjrnlTruncate_def)
  next
    case lt: True
    show ?thesis
    proof (cases "k = 0")
      case True
      then show ?thesis using lt ok(1) by (simp add: memjrnlTruncate_def mj_ok_def mj_content_def mj_uniform_def)
    next
      case False
      define c where "c = (k - 1) div ?cs"
      have k: "k - 1 = c * ?cs + (k - 1) mod ?cs" "(k - 1) mod ?cs < ?cs" using ok(1) by (simp_all add: c_def)
      have "c * ?cs < ?n * ?cs" using k(1) lt ok(3) False by linarith
      then have cn: "c < ?n" by (rule mult_less_cancel_nat)
      have t: "trunc_chunk ?cs ?n k 0 ?cs = c"
        using trunc_chunk_eq [OF ok(1), of k 0 ?n] False cn by (simp add: c_def)
      let ?p = "p\<lparr>chunks := take (c + 1) (chunks p), endpoint := \<lparr>iOffset = k, pChunk = Some c\<rparr>, readpoint := \<lparr>iOffset = 0, pChunk = None\<rparr>\<rparr>"
      have m: "memjrnlTruncate p k = ?p" using lt False t cn by (simp add: memjrnlTruncate_def)
      have c1: "(c + 1) * ?cs = c * ?cs + ?cs" by simp
      have kle: "k \<le> (c + 1) * ?cs" "(c + 1) * ?cs < k + ?cs" unfolding c1 using k False by linarith+
      have u: "mj_uniform ?cs (take (c + 1) (chunks p))" using ok(2) by (auto simp: mj_uniform_def dest: in_set_takeD)
      have len: "length (take (c + 1) (chunks p)) = c + 1" using cn by simp
      have "mj_ok ?p" by (rule mj_okI) (use ok(1) u len kle in simp_all)
      moreover have "mj_content ?p = take k (mj_content p)"
      proof -
        have "concat (chunks p) = concat (take (c + 1) (chunks p)) @ concat (drop (c + 1) (chunks p))"
          by (metis append_take_drop_id concat_append)
        moreover have "k \<le> length (concat (take (c + 1) (chunks p)))" using uniform_length [OF u] kle(1) len by simp
        ultimately show ?thesis using lt by (simp add: mj_content_def min_def)
      qed
      ultimately show ?thesis unfolding m by simp
    qed
  qed
  then show "mj_ok (memjrnlTruncate p k)" "mj_content (memjrnlTruncate p k) = take k (mj_content p)"
    "nChunkSize (memjrnlTruncate p k) = nChunkSize p" "nSpill (memjrnlTruncate p k) = nSpill p" by simp_all
qed

subsection \<open>The write operation\<close>

text \<open>A journal is appended to, rewritten at its head, or cut back and appended to.\<close>

definition journal_write :: "bytes \<Rightarrow> bytes \<Rightarrow> nat \<Rightarrow> bytes" where
  "journal_write c d off = (if off = 0 then d @ drop (length d) c else take off c @ d)"

lemma chunks_empty: "mj_ok p \<Longrightarrow> chunks p = [] \<longleftrightarrow> mj_content p = []"
  using mj_okD(3,4) [of p] mj_length [of p] by (cases "chunks p") auto

lemma Write_mem_ok:
  assumes "mj_ok p" "off \<le> length (mj_content p)" "\<And>k b. alloc k = Some b \<Longrightarrow> length b = nChunkSize p"
    "off = 0 \<Longrightarrow> mj_content p \<noteq> [] \<Longrightarrow> length d \<le> length (mj_content p) \<and> length d \<le> nChunkSize p"
    "memjrnlWrite_mem alloc p d off = (rc, p')"
  shows "mj_ok p' \<and> nSpill p' = nSpill p \<and> nChunkSize p' = nChunkSize p \<and>
     (if rc = 0 then mj_content p' = journal_write (mj_content p) d off else rc = SQLITE_IOERR_NOMEM \<and> (\<exists>k. alloc k = None))"
proof (cases "off = 0 \<and> mj_content p \<noteq> []")
  case True
  note ok = mj_okD [OF assms(1)]
  obtain c ch where ch: "chunks p = c # ch" using chunks_empty [OF assms(1)] True by (cases "chunks p") auto
  have len: "length d \<le> length (mj_content p)" "length d \<le> length c" using assms(4) True ok(2) ch by (auto simp: mj_uniform_def)
  let ?p = "p\<lparr>chunks := (d @ drop (length d) c) # ch\<rparr>"
  have r: "rc = 0" "p' = ?p" using assms(5) True ch by (auto simp: memjrnlWrite_mem_def memcpy_at_def)
  have "mj_ok ?p" by (rule mj_okI) (use ok ch len in \<open>auto simp: mj_uniform_def\<close>)
  moreover have "mj_content ?p = d @ drop (length d) (mj_content p)"
    using len(2) len(1) mj_length [OF assms(1)] by (simp add: mj_content_def ch drop_take)
  ultimately show ?thesis using r True by (simp add: journal_write_def)
next
  case False
  define q where "q = (if 0 < off \<and> off \<noteq> iOffset (endpoint p) then memjrnlTruncate p off else p)"
  have len: "length (mj_content p) = iOffset (endpoint p)" by (rule mj_length [OF assms(1)])
  have q: "mj_ok q" "mj_content q = take off (mj_content p)" "nChunkSize q = nChunkSize p" "nSpill q = nSpill p"
    using Truncate_ok [OF assms(1), of off] assms(1,2) False len by (auto simp: q_def)
  have "off = 0 \<Longrightarrow> chunks q = []" using False chunks_empty [OF q(1)] q(2) by simp
  then have "write_loop alloc q d = (rc, p')"
    using assms(5) unfolding memjrnlWrite_mem_def q_def [symmetric] Let_def by (auto split: if_splits)
  from write_loop_ok [OF q(1) _ this] assms(3) q
  show ?thesis using False by (cases "rc = 0") (auto simp: journal_write_def)
qed

subsection \<open>Spilling to a file\<close>

context byte_file begin

lemma spill_content:
  assumes "mj_uniform cs ch" "inv f" "length (content f) = iOff" "n = cs \<or> iOff = endOff" "iOff \<le> endOff"
    "spill_loop wr n iOff endOff ch f = (0, f')"
  shows "inv f' \<and> content f' = content f @ take (endOff - iOff) (concat ch)"
  using assms
proof (induction ch arbitrary: n iOff f)
  case (Cons c ch)
  define m where "m = (if endOff < iOff + n then endOff - iOff else n)"
  have c: "length c = cs" "mj_uniform cs ch" using Cons.prems(1) by (auto simp: mj_uniform_def)
  obtain g where g: "wr f (take m c) iOff = (0, g)" "spill_loop wr m (iOff + m) endOff ch g = (0, f')"
    using Cons.prems(6) unfolding spill_loop.simps m_def [symmetric] Let_def
    by (cases "wr f (take m c) iOff") (auto split: if_splits)
  have adm: "admits f (take m c) iOff" using admits_end [OF Cons.prems(2)] Cons.prems(3) by simp
  have i: "inv g" by (rule write_inv [OF Cons.prems(2) adm g(1)])
  have ct: "content g = content f @ take m c" using write_content [OF Cons.prems(2) adm g(1)] Cons.prems(3) by auto
  consider (full) "n = cs" "iOff + cs \<le> endOff" "m = cs" | (part) "m = endOff - iOff" "m \<le> cs"
    using Cons.prems(4,5) by (cases "n = cs \<and> iOff + cs \<le> endOff") (auto simp: m_def)
  then show ?case
  proof cases
    case full
    then have "inv f' \<and> content f' = content g @ take (endOff - (iOff + m)) (concat ch)"
      using ct c Cons.prems(3) by (intro Cons.IH [OF c(2) i _ _ _ g(2)]) auto
    then show ?thesis using full ct c(1) by simp
  next
    case part
    have "inv f' \<and> content f' = content g @ take (endOff - (iOff + m)) (concat ch)"
      using ct c Cons.prems(3,5) part by (intro Cons.IH [OF c(2) i _ _ _ g(2)]) auto
    then show ?thesis using part ct c(1) Cons.prems(5) by simp
  qed
qed simp

lemma CreateFile_content:
  assumes "mj_ok p" "fst os_open = 0 \<Longrightarrow> inv (snd os_open) \<and> content (snd os_open) = []"
    "memjrnlCreateFile os_open wr p = (rc, j)"
  shows "case j of InMemory p' \<Rightarrow> p' = p \<and> rc \<noteq> 0 | OnDisk f \<Rightarrow> rc = 0 \<and> inv f \<and> content f = mj_content p"
proof -
  obtain rc0 f0 where o: "os_open = (rc0, f0)" by (cases os_open)
  show ?thesis
  proof (cases "rc0 = 0")
    case False
    then show ?thesis using assms(3) by (auto simp: memjrnlCreateFile_def o)
  next
    case True
    then have f0: "inv f0" "content f0 = []" using assms(2) o by auto
    obtain rc1 f1 where s: "spill_loop wr (nChunkSize p) 0 (iOffset (endpoint p)) (chunks p) f0 = (rc1, f1)" by fastforce
    show ?thesis
    proof (cases "rc1 = 0")
      case False
      then show ?thesis using assms(3) True s by (auto simp: memjrnlCreateFile_def o)
    next
      case ok: True
      have "inv f1 \<and> content f1 = content f0 @ take (iOffset (endpoint p) - 0) (concat (chunks p))"
        by (rule spill_content [OF mj_okD(2) [OF assms(1)] f0(1)]) (use f0 s ok in simp_all)
      then show ?thesis using assms(3) True s ok f0(2) by (auto simp: memjrnlCreateFile_def o mj_content_def)
    qed
  qed
qed

end



definition journal_sample :: MemJournal where
  "journal_sample = \<lparr>nChunkSize = 4, nSpill = 4, chunks = [[1, 2, 3, 0]],
     endpoint = \<lparr>iOffset = 3, pChunk = Some 0\<rparr>, readpoint = \<lparr>iOffset = 0, pChunk = None\<rparr>, mj_flags = 0\<rparr>"



text \<open>Truncating a journal keeps exactly the bytes before the new end.\<close>

theorem memjrnlTruncate_refines:
  assumes "mj_ok p"
  shows "mj_ok (memjrnlTruncate p k) \<and> mj_content (memjrnlTruncate p k) = take k (mj_content p)
    \<and> memjrnlFileSize (memjrnlTruncate p k) = min k (memjrnlFileSize p)"
  using Truncate_ok [OF assms, of k] mj_length [OF assms] mj_length [OF Truncate_ok(1) [OF assms], of k]
  by (simp add: memjrnlFileSize_def min.commute)

theorem memjrnlTruncate_refines_witness: "mj_content (memjrnlTruncate journal_sample 2) = [1, 2]"
  using memjrnlTruncate_refines [of journal_sample 2]
  by (simp add: journal_sample_def mj_ok_def mj_content_def mj_uniform_def)

subsection \<open>The journal as a file\<close>

definition chunk_of :: "nat \<Rightarrow> nat \<Rightarrow> bytes option" where
  "chunk_of cs k = Some (replicate cs 0)"

interpretation mj: byte_file "\<lambda>p. mj_ok p \<and> nChunkSize p = cs" mj_content "\<lambda>p d off. off = length (mj_content p)"
    "memjrnlWrite_mem (chunk_of cs)" memjrnlRead for cs
proof unfold_locales
  fix p d off p'
  assume p: "mj_ok p \<and> nChunkSize p = cs" and off: "off = length (mj_content p)"
    and w: "memjrnlWrite_mem (chunk_of cs) p d off = (0, p')"
  have "mj_ok p' \<and> nSpill p' = nSpill p \<and> nChunkSize p' = nChunkSize p \<and>
     (if 0 = (0::nat) then mj_content p' = journal_write (mj_content p) d off else (0::nat) = SQLITE_IOERR_NOMEM \<and> (\<exists>k. chunk_of cs k = None))"
    by (rule Write_mem_ok [OF _ _ _ _ w]) (use p off in \<open>auto simp: chunk_of_def\<close>)
  then show "mj_ok p' \<and> nChunkSize p' = cs" "mj_content p' = write_at (mj_content p) d off"
    using p off by (auto simp: journal_write_def)
next
  fix p n off
  assume p: "mj_ok p \<and> nChunkSize p = cs" and "0 < n" "off + n \<le> length (mj_content p)"
  then obtain p' where p': "memjrnlRead p n off = (0, read_at (mj_content p) n off, p')" "mj_ok p'" "mj_content p' = mj_content p"
    using Read_in_range [of p n off] mj_length [of p] by auto
  have "nChunkSize p' = nChunkSize p" using p'(1) by (auto simp: memjrnlRead_def Let_def split: if_splits prod.splits)
  then show "\<exists>p'. memjrnlRead p n off = (0, read_at (mj_content p) n off, p') \<and> (mj_ok p' \<and> nChunkSize p' = cs) \<and> mj_content p' = mj_content p"
    using p p' by auto
qed auto

text \<open>C36: Records appended one behind the other to a fresh in-memory journal are read back one by one,
  whatever chunks they straddle.\<close>

theorem MemJournal_append_read:
  assumes "sqlite3MemJournalOpen none = (0, InMemory p)" "d \<noteq> []"
    "append_all (memjrnlWrite_mem (chunk_of (nChunkSize p))) p 0 (ds @ d # es) = (0, p')"
  shows "\<exists>p''. memjrnlRead p' (length d) (length (concat ds)) = (0, d, p'')"
proof -
  have p: "p = \<lparr>nChunkSize = 1016, nSpill = -1, chunks = [], endpoint = \<lparr>iOffset = 0, pChunk = None\<rparr>,
      readpoint = \<lparr>iOffset = 0, pChunk = None\<rparr>, mj_flags = 0\<rparr>"
    using assms(1) by (simp add: sqlite3MemJournalOpen_def sqlite3JournalOpen_def MEMJOURNAL_DFLT_FILECHUNKSIZE_def)
  have "mj_ok p \<and> nChunkSize p = nChunkSize p" "mj_content p = []" by (simp_all add: p mj_ok_def mj_uniform_def mj_content_def)
  from mj.append_all_read [OF this(1) _ assms(2), of ds es p'] assms(3) this(2) show ?thesis by simp
qed

theorem MemJournal_append_read_witness:
  "\<exists>p p' p''. sqlite3MemJournalOpen (0 :: nat, ()) = (0, InMemory p)
     \<and> append_all (memjrnlWrite_mem (chunk_of (nChunkSize p))) p 0 ([[1, 2]] @ [3] # []) = (0, p')
     \<and> memjrnlRead p' (length [3 :: u8]) (length (concat [[1, 2 :: u8]])) = (0, [3], p'')"
proof -
  obtain p where p: "sqlite3MemJournalOpen (0 :: nat, ()) = (0, InMemory p)"
    by (simp add: sqlite3MemJournalOpen_def sqlite3JournalOpen_def)
  have ok: "mj_ok p" "mj_content p = []"
    using p by (auto simp: sqlite3MemJournalOpen_def sqlite3JournalOpen_def MEMJOURNAL_DFLT_FILECHUNKSIZE_def mj_ok_def mj_uniform_def mj_content_def)
  have total: "\<exists>q. memjrnlWrite_mem (chunk_of cs) p d (length (mj_content p)) = (0, q) \<and> mj_ok q \<and> nChunkSize q = cs
      \<and> mj_content q = mj_content p @ d" if "mj_ok p" "nChunkSize p = cs" for p d cs
  proof -
    obtain rc q where w: "memjrnlWrite_mem (chunk_of cs) p d (length (mj_content p)) = (rc, q)" by fastforce
    from Write_mem_ok [OF that(1) _ _ _ w] that(2)
    have "mj_ok q \<and> nChunkSize q = nChunkSize p \<and> rc = 0 \<and> mj_content q = journal_write (mj_content p) d (length (mj_content p))"
      by (auto simp: chunk_of_def split: if_splits)
    then show ?thesis using w that(2) by (auto simp: journal_write_def)
  qed
  obtain q where q: "memjrnlWrite_mem (chunk_of (nChunkSize p)) p [1, 2] 0 = (0, q)" "mj_ok q" "nChunkSize q = nChunkSize p" "mj_content q = [1, 2]"
    using total [OF ok(1) refl, of "[1, 2]"] ok(2) by auto
  obtain r where r: "memjrnlWrite_mem (chunk_of (nChunkSize p)) q [3] 2 = (0, r)"
    using total [OF q(2,3), of "[3]"] unfolding q(4) by (auto simp: numeral_2_eq_2)
  have a: "append_all (memjrnlWrite_mem (chunk_of (nChunkSize p))) p 0 ([[1, 2]] @ [3] # []) = (0, r)" using q(1) r by (simp add: numeral_2_eq_2)
  from MemJournal_append_read [OF p _ a] p a show ?thesis by blast
qed

end
