(* ===== verification/MemDB.thy ===== *)
theory MemDB
  imports File_Interface
begin

section \<open>The in-memory VFS (memdb.c)\<close>

text \<open>
  A database file that is one block of memory (\<open>MemStore\<close>), opened by one or, when its name begins
  with a slash, by many file handles (\<open>MemFile\<close>). A pointer to a store is its address, a number, and
  the heap of stores maps addresses to stores. Every operation holds the mutex of the store from
  its first to its last access, so an operation is one step. Sizes are natural numbers: the C code
  computes them as 64-bit integers, so the model is exact while twice the size limit stays below
  2 to the power 63. \<open>realloc\<close> and the results of the allocations are parameters.
\<close>


definition SQLITE_LOCK_NONE :: nat where "SQLITE_LOCK_NONE = 0"
definition SQLITE_LOCK_SHARED :: nat where "SQLITE_LOCK_SHARED = 1"
definition SQLITE_LOCK_RESERVED :: nat where "SQLITE_LOCK_RESERVED = 2"
definition SQLITE_LOCK_PENDING :: nat where "SQLITE_LOCK_PENDING = 3"
definition SQLITE_LOCK_EXCLUSIVE :: nat where "SQLITE_LOCK_EXCLUSIVE = 4"

definition SQLITE_DESERIALIZE_FREEONCLOSE :: u32 where "SQLITE_DESERIALIZE_FREEONCLOSE = 1"
definition SQLITE_DESERIALIZE_RESIZEABLE :: u32 where "SQLITE_DESERIALIZE_RESIZEABLE = 2"
definition SQLITE_DESERIALIZE_READONLY :: u32 where "SQLITE_DESERIALIZE_READONLY = 4"
definition SQLITE_OPEN_MEMORY :: u32 where "SQLITE_OPEN_MEMORY = 0x80"

lemmas lock_codes = SQLITE_LOCK_NONE_def SQLITE_LOCK_SHARED_def SQLITE_LOCK_RESERVED_def SQLITE_LOCK_PENDING_def
  SQLITE_LOCK_EXCLUSIVE_def

lemmas deserialize_flags = SQLITE_DESERIALIZE_FREEONCLOSE_def SQLITE_DESERIALIZE_RESIZEABLE_def SQLITE_DESERIALIZE_READONLY_def

record MemStore =
  sz :: nat
  szAlloc :: nat
  szMax :: nat
  aData :: bytes
  nMmap :: int
  mFlags :: u32
  nRdLock :: int
  nWrLock :: int
  nRef :: int
  zFName :: "string option"

record MemFile =
  pStore :: nat
  eLock :: nat

record MemFS =
  memStores :: "nat \<Rightarrow> MemStore option"
  apMemStore :: "nat list"
  memFiles :: "nat \<Rightarrow> MemFile option"

subsection \<open>Content\<close>

definition memdbRead :: "MemStore \<Rightarrow> nat \<Rightarrow> nat \<Rightarrow> nat \<times> bytes" where
  "memdbRead p iAmt iOfst =
     (if sz p < iOfst + iAmt then
        (SQLITE_IOERR_SHORT_READ,
         if iOfst < sz p then memcpy_at (replicate iAmt 0) 0 (take (sz p - iOfst) (drop iOfst (aData p))) else replicate iAmt 0)
      else (0, take iAmt (drop iOfst (aData p))))"

definition memdbEnlarge :: "(bytes \<Rightarrow> nat \<Rightarrow> bytes option) \<Rightarrow> MemStore \<Rightarrow> nat \<Rightarrow> nat \<times> MemStore" where
  "memdbEnlarge realloc p newSz =
     (if mFlags p AND SQLITE_DESERIALIZE_RESIZEABLE = 0 \<or> 0 < nMmap p then (SQLITE_FULL, p)
      else if szMax p < newSz then (SQLITE_FULL, p)
      else
        (let newSz = newSz * 2; newSz = (if szMax p < newSz then szMax p else newSz) in
         case realloc (aData p) newSz of None \<Rightarrow> (SQLITE_IOERR_NOMEM, p)
         | Some pNew \<Rightarrow> (0, p\<lparr>aData := pNew, szAlloc := newSz\<rparr>)))"

definition memdbWrite :: "(bytes \<Rightarrow> nat \<Rightarrow> bytes option) \<Rightarrow> MemStore \<Rightarrow> bytes \<Rightarrow> nat \<Rightarrow> nat \<times> MemStore" where
  "memdbWrite realloc p z iOfst =
     (if mFlags p AND SQLITE_DESERIALIZE_READONLY \<noteq> 0 then (SQLITE_IOERR_WRITE, p)
      else if sz p < iOfst + length z then
        (case (if szAlloc p < iOfst + length z then memdbEnlarge realloc p (iOfst + length z) else (0, p)) of (rc, p) \<Rightarrow>
           if rc \<noteq> 0 then (rc, p)
           else
             (let d = (if sz p < iOfst then memcpy_at (aData p) (sz p) (replicate (iOfst - sz p) 0) else aData p) in
              (0, p\<lparr>aData := memcpy_at d iOfst z, sz := iOfst + length z\<rparr>)))
      else (0, p\<lparr>aData := memcpy_at (aData p) iOfst z\<rparr>))"

definition memdbTruncate :: "MemStore \<Rightarrow> nat \<Rightarrow> nat \<times> MemStore" where
  "memdbTruncate p n = (if sz p < n then (SQLITE_CORRUPT, p) else (0, p\<lparr>sz := n\<rparr>))"

definition memdbSync :: "MemStore \<Rightarrow> nat" where "memdbSync p = 0"
definition memdbFileSize :: "MemStore \<Rightarrow> nat" where "memdbFileSize p = sz p"

text \<open>The argument of a file control is in/out; \<open>name\<close> renders the address and the size for
  \<open>SQLITE_FCNTL_VFSNAME\<close>.\<close>

datatype fcntl = FcntlVfsName string | FcntlSizeLimit int | FcntlOther

definition memdbFileControl :: "(bytes \<Rightarrow> nat \<Rightarrow> string) \<Rightarrow> MemStore \<Rightarrow> fcntl \<Rightarrow> nat \<times> fcntl \<times> MemStore" where
  "memdbFileControl name p op =
     (case op of
        FcntlVfsName _ \<Rightarrow> (0, FcntlVfsName (name (aData p) (sz p)), p)
      | FcntlSizeLimit iLimit \<Rightarrow>
          (let iLimit = (if iLimit < int (sz p) then (if iLimit < 0 then int (szMax p) else int (sz p)) else iLimit) in
           (0, FcntlSizeLimit iLimit, p\<lparr>szMax := nat iLimit\<rparr>))
      | FcntlOther \<Rightarrow> (SQLITE_NOTFOUND, FcntlOther, p))"

text \<open>A fetched page is the offset in the block it points to.\<close>

definition memdbFetch :: "MemStore \<Rightarrow> nat \<Rightarrow> nat \<Rightarrow> nat option \<times> MemStore" where
  "memdbFetch p iOfst iAmt =
     (if sz p < iOfst + iAmt \<or> mFlags p AND SQLITE_DESERIALIZE_RESIZEABLE \<noteq> 0 then (None, p)
      else (Some iOfst, p\<lparr>nMmap := nMmap p + 1\<rparr>))"

definition memdbUnfetch :: "MemStore \<Rightarrow> MemStore" where
  "memdbUnfetch p = p\<lparr>nMmap := nMmap p - 1\<rparr>"

text \<open>The parts of \<open>sqlite3_serialize\<close> and \<open>sqlite3_deserialize\<close> that access the store; \<open>mx\<close> is
  \<open>sqlite3GlobalConfig.mxMemdbSize\<close>.\<close>

definition serialize_store :: "MemStore \<Rightarrow> nat \<times> bytes" where
  "serialize_store p = (sz p, take (sz p) (aData p))"

definition deserialize_store :: "nat \<Rightarrow> MemStore \<Rightarrow> bytes \<Rightarrow> nat \<Rightarrow> nat \<Rightarrow> u32 \<Rightarrow> MemStore" where
  "deserialize_store mx p pData szDb szBuf flags =
     (let p = p\<lparr>aData := pData, sz := szDb, szAlloc := szBuf, szMax := szBuf\<rparr>;
          p = (if szMax p < mx then p\<lparr>szMax := mx\<rparr> else p)
      in p\<lparr>mFlags := flags\<rparr>)"

subsection \<open>Locks\<close>

definition memdbLock :: "MemFile \<Rightarrow> MemStore \<Rightarrow> nat \<Rightarrow> nat \<times> MemFile \<times> MemStore" where
  "memdbLock f p lk =
     (if lk \<le> eLock f then (0, f, p)
      else
        (let (rc, p) =
          (if SQLITE_LOCK_SHARED < lk \<and> mFlags p AND SQLITE_DESERIALIZE_READONLY \<noteq> 0 then (SQLITE_READONLY, p)
           else if lk = SQLITE_LOCK_SHARED then
             (if 0 < nWrLock p then (SQLITE_BUSY, p) else (0, p\<lparr>nRdLock := nRdLock p + 1\<rparr>))
           else if lk = SQLITE_LOCK_RESERVED \<or> lk = SQLITE_LOCK_PENDING then
             (if eLock f = SQLITE_LOCK_SHARED then
                (if 0 < nWrLock p then (SQLITE_BUSY, p) else (0, p\<lparr>nWrLock := 1\<rparr>))
              else (0, p))
           else
             (if 1 < nRdLock p then (SQLITE_BUSY, p)
              else if eLock f = SQLITE_LOCK_SHARED then (0, p\<lparr>nWrLock := 1\<rparr>)
              else (0, p)))
         in (rc, if rc = 0 then f\<lparr>eLock := lk\<rparr> else f, p)))"

definition memdbUnlock :: "MemFile \<Rightarrow> MemStore \<Rightarrow> nat \<Rightarrow> MemFile \<times> MemStore" where
  "memdbUnlock f p lk =
     (if eLock f \<le> lk then (f, p)
      else
        (let p = (if lk = SQLITE_LOCK_SHARED then
                    (if SQLITE_LOCK_SHARED < eLock f then p\<lparr>nWrLock := nWrLock p - 1\<rparr> else p)
                  else
                    (let p = (if SQLITE_LOCK_SHARED < eLock f then p\<lparr>nWrLock := nWrLock p - 1\<rparr> else p)
                     in p\<lparr>nRdLock := nRdLock p - 1\<rparr>))
         in (f\<lparr>eLock := lk\<rparr>, p)))"

subsection \<open>Opening and closing\<close>

text \<open>The search of a shared store in the table, and its removal by the last user.\<close>

fun find_store :: "(nat \<Rightarrow> MemStore option) \<Rightarrow> string \<Rightarrow> nat list \<Rightarrow> nat option" where
  "find_store st name [] = None"
| "find_store st name (a # as) = (if zFName (the (st a)) = Some name then Some a else find_store st name as)"

fun drop_store :: "nat \<Rightarrow> int \<Rightarrow> nat list \<Rightarrow> nat \<Rightarrow> nat list" where
  "drop_store p ref ap 0 = ap"
| "drop_store p ref ap (Suc n) =
     (let i = length ap - Suc n in
      if ap ! i = p then (if ref = 1 then butlast (ap[i := last ap]) else ap) else drop_store p ref ap n)"

definition new_store :: "nat \<Rightarrow> MemStore" where
  "new_store mx =
     \<lparr>sz = 0, szAlloc = 0, szMax = mx, aData = [], nMmap = 0,
      mFlags = SQLITE_DESERIALIZE_RESIZEABLE OR SQLITE_DESERIALIZE_FREEONCLOSE, nRdLock = 0, nWrLock = 0, nRef = 0, zFName = None\<rparr>"

text \<open>
  \<open>fd\<close> is the file handle to fill, \<open>mx\<close> the configured size limit; \<open>heap\<close> is the address of a new
  store or \<open>None\<close>, \<open>grow\<close> and \<open>mutex\<close> tell whether the table can be enlarged and a mutex allocated.
\<close>

definition memdbOpen ::
    "nat \<Rightarrow> nat option \<Rightarrow> bool \<Rightarrow> bool \<Rightarrow> MemFS \<Rightarrow> string \<Rightarrow> nat \<Rightarrow> u32 \<Rightarrow> nat \<times> u32 option \<times> MemFS" where
  "memdbOpen mx heap grow mutex fs zName fd flags =
     (let opened = (\<lambda>fs a. (0, Some (flags OR SQLITE_OPEN_MEMORY),
            fs\<lparr>memFiles := (memFiles fs)(fd := Some \<lparr>pStore = a, eLock = SQLITE_LOCK_NONE\<rparr>)\<rparr>))
      in if 1 < length zName \<and> (hd zName = CHR ''/'' \<or> hd zName = CHR 0x5C) then
           (case find_store (memStores fs) zName (apMemStore fs) of
              Some a \<Rightarrow>
                (let p = the (memStores fs a) in
                 opened (fs\<lparr>memStores := (memStores fs)(a := Some (p\<lparr>nRef := nRef p + 1\<rparr>))\<rparr>) a)
            | None \<Rightarrow>
                (case heap of None \<Rightarrow> (SQLITE_NOMEM, None, fs)
                 | Some a \<Rightarrow>
                     if \<not> grow then (SQLITE_NOMEM, None, fs)
                     else if \<not> mutex then (SQLITE_NOMEM, None, fs)
                     else opened (fs\<lparr>memStores := (memStores fs)(a := Some ((new_store mx)\<lparr>zFName := Some zName, nRef := 1\<rparr>)),
                                     apMemStore := apMemStore fs @ [a]\<rparr>) a))
         else
           (case heap of None \<Rightarrow> (SQLITE_NOMEM, None, fs)
            | Some a \<Rightarrow> opened (fs\<lparr>memStores := (memStores fs)(a := Some (new_store mx))\<rparr>) a))"

definition memdbClose :: "MemFS \<Rightarrow> nat \<Rightarrow> MemFS" where
  "memdbClose fs fd =
     (let a = pStore (the (memFiles fs fd)); p = the (memStores fs a);
          ap = (if zFName p \<noteq> None then drop_store a (nRef p) (apMemStore fs) (length (apMemStore fs)) else apMemStore fs);
          p = p\<lparr>nRef := nRef p - 1\<rparr>
      in fs\<lparr>memStores := (memStores fs)(a := (if nRef p \<le> 0 then None else Some p)), apMemStore := ap,
            memFiles := (memFiles fs)(fd := None)\<rparr>)"

subsection \<open>The content of a store\<close>

definition store_ok :: "MemStore \<Rightarrow> bool" where
  "store_ok p \<longleftrightarrow> length (aData p) = szAlloc p \<and> sz p \<le> szAlloc p"

definition store_content :: "MemStore \<Rightarrow> bytes" where
  "store_content p = take (sz p) (aData p)"

text \<open>The fields that no operation on the content writes.\<close>

definition same_locks :: "MemStore \<Rightarrow> MemStore \<Rightarrow> bool" where
  "same_locks p q \<longleftrightarrow> nRdLock q = nRdLock p \<and> nWrLock q = nWrLock p \<and> nRef q = nRef p \<and> zFName q = zFName p \<and> mFlags q = mFlags p"

lemma same_locks_refl [simp]: "same_locks p p"
  by (simp add: same_locks_def)

lemma length_store_content: "store_ok p \<Longrightarrow> length (store_content p) = sz p"
  by (simp add: store_ok_def store_content_def)

lemma memdbEnlarge_ok:
  assumes "realloc_ok r" "store_ok p" "szAlloc p < n" "memdbEnlarge r p n = (rc, q)"
  shows "store_ok q \<and> same_locks p q \<and> sz q = sz p \<and> szMax q = szMax p \<and> nMmap q = nMmap p \<and> store_content q = store_content p
     \<and> (rc = 0 \<longrightarrow> n \<le> szAlloc q \<and> szAlloc q \<le> szMax q) \<and> (rc \<noteq> 0 \<longrightarrow> q = p)"
proof -
  let ?m = "if szMax p < n * 2 then szMax p else n * 2"
  have e: "memdbEnlarge r p n = (if (mFlags p AND SQLITE_DESERIALIZE_RESIZEABLE = 0 \<or> 0 < nMmap p) \<or> szMax p < n then (SQLITE_FULL, p)
      else case r (aData p) ?m of None \<Rightarrow> (SQLITE_IOERR_NOMEM, p) | Some new \<Rightarrow> (0, p\<lparr>aData := new, szAlloc := ?m\<rparr>))"
    unfolding memdbEnlarge_def Let_def by (simp only: if_cancel split: if_split) blast
  consider "q = p" "rc \<noteq> 0" | new m where "r (aData p) m = Some new" "q = p\<lparr>aData := new, szAlloc := m\<rparr>" "n \<le> m" "m \<le> szMax p" "rc = 0"
  proof (cases "((mFlags p AND SQLITE_DESERIALIZE_RESIZEABLE = 0 \<or> 0 < nMmap p) \<or> szMax p < n) \<or> r (aData p) ?m = None")
    case True
    have "q = p \<and> rc \<noteq> 0"
    proof (cases "(mFlags p AND SQLITE_DESERIALIZE_RESIZEABLE = 0 \<or> 0 < nMmap p) \<or> szMax p < n")
      case True
      then show ?thesis using assms(4) unfolding e by (simp add: result_codes)
    next
      case False
      then have "r (aData p) ?m = None" using True by blast
      then show ?thesis using assms(4) False unfolding e by (simp add: result_codes)
    qed
    then show ?thesis using that(1) by blast
  next
    case False
    then obtain new where new: "r (aData p) ?m = Some new" by blast
    have "q = p\<lparr>aData := new, szAlloc := ?m\<rparr>" "rc = 0" using assms(4) False unfolding e new by simp_all
    moreover have "n \<le> ?m" "?m \<le> szMax p" using False by simp_all
    ultimately show ?thesis using that(2) new by blast
  qed
  then show ?thesis
  proof cases
    case 1
    then show ?thesis using assms(2) by simp
  next
    case 2
    have r: "length new = m" "take (length (aData p)) new = take m (aData p)" using realloc_okD [OF assms(1) 2(1)] by auto
    have p: "length (aData p) = szAlloc p" "sz p \<le> szAlloc p" using assms(2) by (auto simp: store_ok_def)
    have "take (sz p) new = take (sz p) (take (length (aData p)) new)" using p by (simp add: min_def)
    also have "\<dots> = take (sz p) (aData p)" using r p assms(3) 2(3) by simp
    finally have "store_content q = store_content p" using 2(2) by (simp add: store_content_def)
    moreover have "store_ok q" using r p assms(3) 2(2,3) by (simp add: store_ok_def)
    ultimately show ?thesis using 2 by (simp add: same_locks_def)
  qed
qed

lemma write_content_short:
  assumes "store_ok p" "ofs + length z \<le> sz p"
  shows "store_ok (p\<lparr>aData := memcpy_at (aData p) ofs z\<rparr>)"
    "store_content (p\<lparr>aData := memcpy_at (aData p) ofs z\<rparr>) = write_at (store_content p) z ofs"
proof -
  have p: "length (aData p) = szAlloc p" "sz p \<le> szAlloc p" using assms(1) by (auto simp: store_ok_def)
  show "store_ok (p\<lparr>aData := memcpy_at (aData p) ofs z\<rparr>)" using p assms(2) by (simp add: store_ok_def)
  have "take (max (sz p) (ofs + length z)) (memcpy_at (aData p) ofs z) = write_at (take (sz p) (aData p)) z ofs"
    by (rule memcpy_at_write_at) (use p assms(2) in auto)
  then show "store_content (p\<lparr>aData := memcpy_at (aData p) ofs z\<rparr>) = write_at (store_content p) z ofs"
    using assms(2) by (simp add: store_content_def max_def)
qed

definition zero_gap :: "MemStore \<Rightarrow> nat \<Rightarrow> bytes" where
  "zero_gap p ofs = (if sz p < ofs then memcpy_at (aData p) (sz p) (replicate (ofs - sz p) 0) else aData p)"

lemma write_content_extend:
  assumes "store_ok p" "sz p < ofs + length z" "ofs + length z \<le> szAlloc p"
  shows "store_ok (p\<lparr>aData := memcpy_at (zero_gap p ofs) ofs z, sz := ofs + length z\<rparr>)"
    "store_content (p\<lparr>aData := memcpy_at (zero_gap p ofs) ofs z, sz := ofs + length z\<rparr>) = write_at (store_content p) z ofs"
proof -
  let ?d = "zero_gap p ofs"
  have p: "length (aData p) = szAlloc p" "sz p \<le> szAlloc p" using assms(1) by (auto simp: store_ok_def)
  have d: "length ?d = szAlloc p" using p assms(3) by (simp add: zero_gap_def)
  then show "store_ok (p\<lparr>aData := memcpy_at ?d ofs z, sz := ofs + length z\<rparr>)" using assms(3) by (simp add: store_ok_def)
  have t: "take (max ofs (ofs + length z)) (memcpy_at ?d ofs z) = write_at (take ofs ?d) z ofs"
    by (rule memcpy_at_write_at) (use d assms(3) in auto)
  have o: "take ofs ?d = take ofs (store_content p @ replicate (ofs - sz p) 0)"
  proof (cases "sz p < ofs")
    case True
    have "take (max (sz p) (sz p + length (replicate (ofs - sz p) (0::u8)))) (memcpy_at (aData p) (sz p) (replicate (ofs - sz p) 0))
        = write_at (take (sz p) (aData p)) (replicate (ofs - sz p) 0) (sz p)"
      by (rule memcpy_at_write_at) (use p assms(3) True in auto)
    then show ?thesis using True p by (simp add: zero_gap_def store_content_def write_at_def)
  qed (simp add: zero_gap_def store_content_def)
  have "length (take ofs ?d) = ofs" using d assms(3) by simp
  then have "write_at (take ofs ?d) z ofs = take ofs ?d @ z" by (metis write_at_end)
  moreover have "write_at (store_content p) z ofs = take ofs (store_content p @ replicate (ofs - sz p) 0) @ z"
    using assms(2) length_store_content [OF assms(1)] by (simp add: write_at_def)
  ultimately show "store_content (p\<lparr>aData := memcpy_at ?d ofs z, sz := ofs + length z\<rparr>) = write_at (store_content p) z ofs"
    using t o by (simp add: store_content_def)
qed

lemma Write_cases:
  assumes "realloc_ok r" "store_ok p" "memdbWrite r p z ofs = (rc, q)"
  shows "store_ok q \<and> same_locks p q \<and> szMax q = szMax p \<and> nMmap q = nMmap p \<and> sz q \<le> max (sz p) (max (szAlloc p) (szMax p))
     \<and> (if rc = 0 then store_content q = write_at (store_content p) z ofs else q = p)"
proof -
  consider (err) "q = p" "rc \<noteq> 0"
    | (short) "ofs + length z \<le> sz p" "q = p\<lparr>aData := memcpy_at (aData p) ofs z\<rparr>" "rc = 0"
    | (fits) "sz p < ofs + length z" "ofs + length z \<le> szAlloc p" "q = p\<lparr>aData := memcpy_at (zero_gap p ofs) ofs z, sz := ofs + length z\<rparr>" "rc = 0"
    | (grow) s where "szAlloc p < ofs + length z" "memdbEnlarge r p (ofs + length z) = (0, s)"
        "q = s\<lparr>aData := memcpy_at (zero_gap s ofs) ofs z, sz := ofs + length z\<rparr>" "rc = 0"
    | (nogrow) "szAlloc p < ofs + length z" "memdbEnlarge r p (ofs + length z) = (rc, q)" "rc \<noteq> 0"
  proof (cases "mFlags p AND SQLITE_DESERIALIZE_READONLY \<noteq> 0")
    case True
    then show ?thesis using assms(3) that(1) by (simp add: memdbWrite_def result_codes)
  next
    case rw: False
    have le: "sz p \<le> szAlloc p" using assms(2) by (simp add: store_ok_def)
    consider "ofs + length z \<le> sz p" | "sz p < ofs + length z" "ofs + length z \<le> szAlloc p" | "szAlloc p < ofs + length z" by linarith
    then show ?thesis
    proof cases
      case 1
      then show ?thesis using assms(3) rw that(2) by (simp add: memdbWrite_def)
    next
      case 2
      then show ?thesis using assms(3) rw that(3) by (simp add: memdbWrite_def zero_gap_def)
    next
      case 3
      obtain e s where e: "memdbEnlarge r p (ofs + length z) = (e, s)" by fastforce
      have lt: "sz p < ofs + length z" using 3 le by simp
      show ?thesis
      proof (cases "e = 0")
        case True
        then show ?thesis using assms(3) rw 3 lt e that(4) by (simp add: memdbWrite_def zero_gap_def)
      next
        case False
        then show ?thesis using assms(3) rw 3 lt e that(5) by (simp add: memdbWrite_def)
      qed
    qed
  qed
  then show ?thesis
  proof cases
    case err
    then show ?thesis using assms(2) by simp
  next
    case short
    then show ?thesis using write_content_short [OF assms(2) short(1)] by (simp add: same_locks_def)
  next
    case fits
    then show ?thesis using write_content_extend [OF assms(2) fits(1,2)] by (simp add: same_locks_def)
  next
    case grow
    have s: "store_ok s" "same_locks p s" "sz s = sz p" "szMax s = szMax p" "nMmap s = nMmap p" "store_content s = store_content p"
        "ofs + length z \<le> szAlloc s" "szAlloc s \<le> szMax s"
      using memdbEnlarge_ok [OF assms(1,2) grow(1,2)] by simp_all
    have "sz s < ofs + length z" using grow(1) assms(2) s(3) by (simp add: store_ok_def)
    from write_content_extend [OF s(1) this s(7)] show ?thesis
      using grow(3,4) s by (simp add: same_locks_def)
  next
    case nogrow
    then show ?thesis using memdbEnlarge_ok [OF assms(1,2) nogrow(1,2)] assms(2) by simp
  qed
qed




definition plain_realloc :: "bytes \<Rightarrow> nat \<Rightarrow> bytes option" where
  "plain_realloc old n = Some (take n old @ replicate (n - length old) 0xAA)"

lemma plain_realloc_ok: "realloc_ok plain_realloc"
proof -
  have "take (length old) (take n old @ replicate (n - length old) b) = take n old" for old :: bytes and n b
    by (cases "length old \<le> n") auto
  then show ?thesis by (simp add: realloc_ok_def plain_realloc_def) (auto simp: min_def)
qed


lemma Read_rc_content:
  assumes "store_ok p"
  shows "memdbRead p n ofs = (if ofs + n \<le> sz p then (0, read_at (store_content p) n ofs)
    else (SQLITE_IOERR_SHORT_READ, read_at (store_content p) n ofs @ replicate (n - (sz p - ofs)) 0))"
proof (cases "ofs + n \<le> sz p")
  case True
  then show ?thesis by (simp add: memdbRead_def read_at_def store_content_def drop_take min_def)
next
  case False
  then show ?thesis
    using assms by (auto simp: memdbRead_def read_at_def store_content_def drop_take min_def memcpy_at_def store_ok_def)
qed

interpretation md: byte_file store_ok store_content "\<lambda>_ _ _. True" "memdbWrite plain_realloc"
    "\<lambda>p n ofs. case memdbRead p n ofs of (rc, d) \<Rightarrow> (rc, d, p)"
proof (unfold_locales, goal_cases)
  case (1 f d off f')
  then show ?case using Write_cases [OF plain_realloc_ok] by blast
next
  case (2 f d off f')
  then show ?case using Write_cases [OF plain_realloc_ok 2(1,3)] by simp
next
  case (4 f n off)
  then show ?case by (simp add: Read_rc_content length_store_content)
qed auto

text \<open>A deserialized database has the bytes it was given as its content, and serialization returns them.\<close>

lemma deserialize_serialize:
  assumes "length d = szBuf" "szDb \<le> szBuf"
  shows "store_ok (deserialize_store mx p d szDb szBuf fl) \<and> store_content (deserialize_store mx p d szDb szBuf fl) = take szDb d
    \<and> serialize_store (deserialize_store mx p d szDb szBuf fl) = (szDb, take szDb d)"
  using assms by (simp add: deserialize_store_def serialize_store_def store_ok_def store_content_def Let_def)

text \<open>The size limit is checked only when the block has to grow: after the limit was lowered below the
  space already allocated, writes that fit into this space succeed and leave the database larger than
  its limit; it never exceeds the larger of limit, allocated space and old size.\<close>

theorem SizeLimit_not_enforced:
  assumes "realloc_ok r" "store_ok p" "memdbFileControl name p (FcntlSizeLimit l) = (rc, l', q)"
    "int (sz p) \<le> l" "l < int (ofs + length z)" "ofs + length z \<le> szAlloc p" "mFlags p AND SQLITE_DESERIALIZE_READONLY = 0"
  shows "rc = 0 \<and> l' = FcntlSizeLimit l \<and> (\<exists>q'. memdbWrite r q z ofs = (0, q') \<and> szMax q' = nat l \<and> szMax q' < sz q')
    \<and> (\<forall>z ofs rc q'. memdbWrite r q z ofs = (rc, q') \<longrightarrow> sz q' \<le> max (sz q) (max (szAlloc q) (szMax q)))"
proof (intro conjI allI impI)
  have q: "q = p\<lparr>szMax := nat l\<rparr>" "rc = 0" "l' = FcntlSizeLimit l"
    using assms(3,4) by (simp_all add: memdbFileControl_def)
  then show "rc = 0" "l' = FcntlSizeLimit l" by simp_all
  have ok: "store_ok q" using q(1) assms(2) by (simp add: store_ok_def)
  have lt: "sz q < ofs + length z" "szMax q < ofs + length z" using q(1) assms(4,5) by simp_all
  then show "\<exists>q'. memdbWrite r q z ofs = (0, q') \<and> szMax q' = nat l \<and> szMax q' < sz q'"
    using assms(5,6,7) q(1) by (simp add: memdbWrite_def)
  show "sz q' \<le> max (sz q) (max (szAlloc q) (szMax q))" if "memdbWrite r q z ofs = (rc, q')" for z ofs rc q'
    using Write_cases [OF assms(1) ok that] by blast
qed

theorem SizeLimit_not_enforced_witness:
  "\<exists>p q q' l'. memdbWrite plain_realloc (new_store 100) (replicate 10 7) 0 = (0, p)
     \<and> memdbFileControl (\<lambda>_ _. []) p (FcntlSizeLimit 12) = (0, l', q) \<and> memdbWrite plain_realloc q [1] 15 = (0, q') \<and> szMax q' < sz q'"
proof -
  obtain p where p: "memdbWrite plain_realloc (new_store 100) (replicate 10 7) 0 = (0, p)" "sz p = 10" "szAlloc p = 20" "mFlags p = mFlags (new_store 100)"
    by (simp add: memdbWrite_def memdbEnlarge_def new_store_def deserialize_flags plain_realloc_def)
  obtain rc l' q where q: "memdbFileControl (\<lambda>_ _. []) p (FcntlSizeLimit 12) = (rc, l', q)"
    by (metis prod_cases3)
  have n: "store_ok (new_store 100)" by (simp add: store_ok_def new_store_def)
  have ok: "store_ok p" using Write_cases [OF plain_realloc_ok n p(1)] by blast
  have "mFlags p AND SQLITE_DESERIALIZE_READONLY = 0" by (simp add: p(4) new_store_def deserialize_flags)
  from SizeLimit_not_enforced [OF plain_realloc_ok ok q, of 15 "[1]"] p this q show ?thesis by fastforce
qed

subsection \<open>The lock table\<close>

text \<open>The handles on a store that hold at least a given lock.\<close>

definition holders :: "(nat \<Rightarrow> MemFile option) \<Rightarrow> nat \<Rightarrow> nat \<Rightarrow> nat set" where
  "holders m a k = {fd. \<exists>f. m fd = Some f \<and> pStore f = a \<and> k \<le> eLock f}"

definition held :: "(nat \<Rightarrow> MemFile option) \<Rightarrow> nat \<Rightarrow> nat \<Rightarrow> int" where
  "held m a k = int (card (holders m a k))"

lemma finite_holders: "finite (dom m) \<Longrightarrow> finite (holders m a k)"
  by (rule finite_subset [of _ "dom m"]) (auto simp: holders_def)

lemma held_nonneg [simp]: "0 \<le> held m a k"
  by (simp add: held_def)

lemma held_antimono: "finite (dom m) \<Longrightarrow> j \<le> k \<Longrightarrow> held m a k \<le> held m a j"
  unfolding held_def by (intro of_nat_mono card_mono finite_holders) (auto simp: holders_def)

lemma held_pos: "finite (dom m) \<Longrightarrow> m fd = Some f \<Longrightarrow> pStore f = a \<Longrightarrow> k \<le> eLock f \<Longrightarrow> 1 \<le> held m a k"
  unfolding held_def using card_gt_0_iff [of "holders m a k"] finite_holders [of m a k] by (fastforce simp: holders_def)

lemma holders_upd: "holders (m(fd := x)) a k =
    (case x of Some f \<Rightarrow> if pStore f = a \<and> k \<le> eLock f then insert fd (holders m a k) else holders m a k - {fd} | None \<Rightarrow> holders m a k - {fd})"
  by (auto simp: holders_def split: option.splits if_splits)

text \<open>What one handle contributes to a count.\<close>

definition counts :: "MemFile option \<Rightarrow> nat \<Rightarrow> nat \<Rightarrow> int" where
  "counts x a k = (case x of Some f \<Rightarrow> if pStore f = a \<and> k \<le> eLock f then 1 else 0 | None \<Rightarrow> 0)"

lemma held_upd:
  assumes "finite (dom m)"
  shows "held (m(fd := x)) a k = held m a k - counts (m fd) a k + counts x a k"
proof -
  have fin: "finite (holders m a k)" by (rule finite_holders [OF assms])
  have "fd \<in> holders m a k \<longleftrightarrow> counts (m fd) a k = 1" "fd \<notin> holders m a k \<longleftrightarrow> counts (m fd) a k = 0"
    by (auto simp: holders_def counts_def split: option.splits)
  moreover have "held m a k = int (card (holders m a k - {fd})) + (if fd \<in> holders m a k then 1 else 0)"
  proof (cases "fd \<in> holders m a k")
    case True
    have "card (holders m a k) = Suc (card (holders m a k - {fd}))" by (rule card.remove [OF fin True])
    then show ?thesis using True by (simp only: held_def) simp
  qed (simp add: held_def)
  moreover have "held (m(fd := x)) a k = int (card (holders m a k - {fd})) + counts x a k"
  proof (cases "counts x a k = 1")
    case True
    then have "holders (m(fd := x)) a k = insert fd (holders m a k - {fd})"
      by (auto simp: holders_upd counts_def split: option.splits if_splits)
    moreover have "card (insert fd (holders m a k - {fd})) = Suc (card (holders m a k - {fd}))" using fin by (intro card_insert_disjoint) auto
    ultimately show ?thesis using True by (simp only: held_def)
  next
    case False
    then have "holders (m(fd := x)) a k = holders m a k - {fd}" "counts x a k = 0"
      by (auto simp: holders_upd counts_def split: option.splits if_splits)
    then show ?thesis by (simp add: held_def)
  qed
  ultimately show ?thesis by (cases "fd \<in> holders m a k") auto
qed

text \<open>
  The invariant of a store: its counters are the numbers of handles that hold a lock, at most one
  handle may write, an exclusive lock excludes every other handle, and the store lives as long as it
  is in use.
\<close>

definition store_inv :: "(nat \<Rightarrow> MemFile option) \<Rightarrow> nat \<Rightarrow> MemStore \<Rightarrow> bool" where
  "store_inv m a p \<longleftrightarrow> store_ok p \<and> nRdLock p = held m a 1 \<and> nWrLock p = held m a 2 \<and> nWrLock p \<le> 1
     \<and> (0 < held m a 4 \<longrightarrow> nRdLock p \<le> 1) \<and> 0 < held m a 0
     \<and> (if zFName p = None then nRef p = 0 \<and> held m a 0 = 1 else nRef p = held m a 0)"

definition files_ok :: "MemFS \<Rightarrow> bool" where
  "files_ok fs \<longleftrightarrow> finite (dom (memFiles fs)) \<and> (\<forall>fd f. memFiles fs fd = Some f \<longrightarrow> memStores fs (pStore f) \<noteq> None \<and> eLock f \<le> 4)"

definition store_name :: "(nat \<Rightarrow> MemStore option) \<Rightarrow> nat \<Rightarrow> string option" where
  "store_name st a = (case st a of None \<Rightarrow> None | Some p \<Rightarrow> zFName p)"

definition table_ok :: "MemFS \<Rightarrow> bool" where
  "table_ok fs \<longleftrightarrow> distinct (apMemStore fs) \<and> (\<forall>a. a \<in> set (apMemStore fs) \<longleftrightarrow> store_name (memStores fs) a \<noteq> None)
     \<and> (\<forall>a b. store_name (memStores fs) a = store_name (memStores fs) b \<and> store_name (memStores fs) a \<noteq> None \<longrightarrow> a = b)"

definition memfs_ok :: "MemFS \<Rightarrow> bool" where
  "memfs_ok fs \<longleftrightarrow> files_ok fs \<and> table_ok fs \<and> (\<forall>a p. memStores fs a = Some p \<longrightarrow> store_inv (memFiles fs) a p)"

text \<open>The operations of many handles, in any order. A caller follows the protocol of \<open>xLock\<close> and
  \<open>xUnlock\<close> (the assertions in the code): a lock above SHARED is requested by a holder of SHARED,
  unlocking goes to SHARED or NONE, and a handle is closed after it was unlocked.\<close>

inductive memdb_step :: "nat \<Rightarrow> MemFS \<Rightarrow> MemFS \<Rightarrow> bool" for mx :: nat where
  step_open: "memFiles fs fd = None \<Longrightarrow> (\<And>a. heap = Some a \<Longrightarrow> memStores fs a = None) \<Longrightarrow>
    memdbOpen mx heap grow mutex fs zName fd flags = (rc, oflags, fs') \<Longrightarrow> memdb_step mx fs fs'"
| step_close: "memFiles fs fd = Some f \<Longrightarrow> eLock f = 0 \<Longrightarrow> memdb_step mx fs (memdbClose fs fd)"
| step_lock: "memFiles fs fd = Some f \<Longrightarrow> memStores fs (pStore f) = Some p \<Longrightarrow> lk \<le> 4 \<Longrightarrow> 1 < lk \<Longrightarrow> 1 \<le> eLock f \<Longrightarrow>
    memdbLock f p lk = (rc, f', p') \<Longrightarrow>
    memdb_step mx fs (fs\<lparr>memFiles := (memFiles fs)(fd := Some f'), memStores := (memStores fs)(pStore f := Some p')\<rparr>)"
| step_shared: "memFiles fs fd = Some f \<Longrightarrow> memStores fs (pStore f) = Some p \<Longrightarrow> memdbLock f p 1 = (rc, f', p') \<Longrightarrow>
    memdb_step mx fs (fs\<lparr>memFiles := (memFiles fs)(fd := Some f'), memStores := (memStores fs)(pStore f := Some p')\<rparr>)"
| step_unlock: "memFiles fs fd = Some f \<Longrightarrow> memStores fs (pStore f) = Some p \<Longrightarrow> lk \<le> 1 \<Longrightarrow> memdbUnlock f p lk = (f', p') \<Longrightarrow>
    memdb_step mx fs (fs\<lparr>memFiles := (memFiles fs)(fd := Some f'), memStores := (memStores fs)(pStore f := Some p')\<rparr>)"
| step_write: "memFiles fs fd = Some f \<Longrightarrow> memStores fs (pStore f) = Some p \<Longrightarrow> realloc_ok r \<Longrightarrow> memdbWrite r p z ofs = (rc, p') \<Longrightarrow>
    memdb_step mx fs (fs\<lparr>memStores := (memStores fs)(pStore f := Some p')\<rparr>)"
| step_truncate: "memFiles fs fd = Some f \<Longrightarrow> memStores fs (pStore f) = Some p \<Longrightarrow> memdbTruncate p n = (rc, p') \<Longrightarrow>
    memdb_step mx fs (fs\<lparr>memStores := (memStores fs)(pStore f := Some p')\<rparr>)"
| step_control: "memFiles fs fd = Some f \<Longrightarrow> memStores fs (pStore f) = Some p \<Longrightarrow> memdbFileControl name p op = (rc, op', p') \<Longrightarrow>
    memdb_step mx fs (fs\<lparr>memStores := (memStores fs)(pStore f := Some p')\<rparr>)"
| step_fetch: "memFiles fs fd = Some f \<Longrightarrow> memStores fs (pStore f) = Some p \<Longrightarrow> memdbFetch p ofs n = (pp, p') \<Longrightarrow>
    memdb_step mx fs (fs\<lparr>memStores := (memStores fs)(pStore f := Some p')\<rparr>)"
| step_unfetch: "memFiles fs fd = Some f \<Longrightarrow> memStores fs (pStore f) = Some p \<Longrightarrow>
    memdb_step mx fs (fs\<lparr>memStores := (memStores fs)(pStore f := Some (memdbUnfetch p))\<rparr>)"

definition memfs_init :: MemFS where
  "memfs_init = \<lparr>memStores = (\<lambda>_. None), apMemStore = [], memFiles = (\<lambda>_. None)\<rparr>"

inductive memfs_reachable :: "nat \<Rightarrow> MemFS \<Rightarrow> bool" for mx :: nat where
  reach_init: "memfs_reachable mx memfs_init"
| reach_step: "memfs_reachable mx fs \<Longrightarrow> memdb_step mx fs fs' \<Longrightarrow> memfs_reachable mx fs'"

subsection \<open>Every step keeps the invariant\<close>

lemma memfs_okD:
  assumes "memfs_ok fs"
  shows "finite (dom (memFiles fs))" "memFiles fs fd = Some f \<Longrightarrow> eLock f \<le> 4" "memFiles fs fd = Some f \<Longrightarrow> \<exists>p. memStores fs (pStore f) = Some p"
    "memStores fs a = Some p \<Longrightarrow> store_inv (memFiles fs) a p"
  using assms by (auto simp: memfs_ok_def files_ok_def)

text \<open>The table of shared stores depends on the names of the stores alone.\<close>

lemma table_ok_upd:
  assumes t: "table_ok fs" and p: "memStores fs a = Some p" and n: "zFName q = zFName p"
  shows "table_ok (fs\<lparr>memFiles := m, memStores := (memStores fs)(a := Some q)\<rparr>)"
proof -
  have "store_name ((memStores fs)(a := Some q)) = store_name (memStores fs)" using p n by (auto simp: store_name_def)
  then show ?thesis using t unfolding table_ok_def by simp blast
qed

text \<open>A step that keeps the handles and replaces one store by one with the same counters.\<close>

lemma data_step_ok:
  assumes ok: "memfs_ok fs" and p: "memStores fs a = Some p" and q: "same_locks p q" "store_ok q"
  shows "memfs_ok (fs\<lparr>memStores := (memStores fs)(a := Some q)\<rparr>)"
proof -
  have "store_inv (memFiles fs) a q"
    using memfs_okD(4) [OF ok p] q by (auto simp: store_inv_def same_locks_def)
  moreover have "table_ok (fs\<lparr>memStores := (memStores fs)(a := Some q)\<rparr>)"
    using table_ok_upd [of fs a p q "memFiles fs"] ok p q(1) by (simp add: same_locks_def memfs_ok_def)
  moreover have "files_ok (fs\<lparr>memStores := (memStores fs)(a := Some q)\<rparr>)"
    using ok by (auto simp: memfs_ok_def files_ok_def)
  ultimately show ?thesis using ok by (simp add: memfs_ok_def)
qed

text \<open>A step that changes the lock of one handle.\<close>

abbreviation holds :: "MemFile \<Rightarrow> nat \<Rightarrow> int" where
  "holds f k \<equiv> (if k \<le> eLock f then 1 else 0)"

lemma held_upd_same:
  assumes "finite (dom m)" "m fd = Some f" "pStore f = a" "pStore f' = a"
  shows "held (m(fd := Some f')) a k = held m a k - holds f k + holds f' k"
  using held_upd [OF assms(1), of fd "Some f'" a k] assms(2-4) by (simp add: counts_def)

lemma held_upd_other:
  assumes "finite (dom m)" "\<And>f. m fd = Some f \<Longrightarrow> pStore f \<noteq> b" "\<And>f. x = Some f \<Longrightarrow> pStore f \<noteq> b"
  shows "held (m(fd := x)) b k = held m b k"
proof -
  have "counts (m fd) b k = 0" "counts x b k = 0" using assms(2,3) by (auto simp: counts_def split: option.split)
  then show ?thesis by (simp add: held_upd [OF assms(1)])
qed

lemma handle_step_ok:
  assumes ok: "memfs_ok fs" and f: "memFiles fs fd = Some f" "pStore f = a" and p: "memStores fs a = Some p"
    and f': "pStore f' = a" "eLock f' \<le> 4" and q: "zFName q = zFName p" "nRef q = nRef p" "store_ok q"
    and cnt: "nRdLock q = nRdLock p - holds f 1 + holds f' 1" "nWrLock q = nWrLock p - holds f 2 + holds f' 2" "nWrLock q \<le> 1"
    and ex: "0 < held (memFiles fs) a 4 - holds f 4 + holds f' 4 \<Longrightarrow> nRdLock q \<le> 1"
  shows "memfs_ok (fs\<lparr>memFiles := (memFiles fs)(fd := Some f'), memStores := (memStores fs)(a := Some q)\<rparr>)"
proof -
  let ?m = "(memFiles fs)(fd := Some f')"
  have fin: "finite (dom (memFiles fs))" by (rule memfs_okD(1) [OF ok])
  have h: "held ?m a k = held (memFiles fs) a k - holds f k + holds f' k" for k
    by (rule held_upd_same [OF fin f(1,2) f'(1)])
  have i: "store_inv (memFiles fs) a p" by (rule memfs_okD(4) [OF ok p])
  have "store_inv ?m a q"
    unfolding store_inv_def
  proof (intro conjI)
    show "nRdLock q = held ?m a 1" unfolding h using i cnt(1) by (simp add: store_inv_def)
    show "nWrLock q = held ?m a 2" unfolding h using i cnt(2) by (simp add: store_inv_def)
    show "0 < held ?m a 4 \<longrightarrow> nRdLock q \<le> 1" unfolding h using ex by simp
    have h0: "held ?m a 0 = held (memFiles fs) a 0" unfolding h by simp
    show "0 < held ?m a 0" unfolding h0 using i by (simp add: store_inv_def)
    show "if zFName q = None then nRef q = 0 \<and> held ?m a 0 = 1 else nRef q = held ?m a 0"
      unfolding h0 q using i by (simp add: store_inv_def)
  qed (use q cnt in auto)
  moreover have "store_inv ?m b r" if "b \<noteq> a" "memStores fs b = Some r" for b r
  proof -
    have "held ?m b k = held (memFiles fs) b k" for k
      by (rule held_upd_other [OF fin]) (use f f' that in auto)
    then show ?thesis using memfs_okD(4) [OF ok that(2)] by (auto simp: store_inv_def)
  qed
  moreover have "table_ok (fs\<lparr>memFiles := ?m, memStores := (memStores fs)(a := Some q)\<rparr>)"
    by (rule table_ok_upd) (use ok p q in \<open>auto simp: memfs_ok_def\<close>)
  moreover have "files_ok (fs\<lparr>memFiles := ?m, memStores := (memStores fs)(a := Some q)\<rparr>)"
    using ok f' fin by (auto simp: memfs_ok_def files_ok_def)
  ultimately show ?thesis by (auto simp: memfs_ok_def)
qed

text \<open>What a store and one of its handles satisfy.\<close>

lemma handle_facts:
  assumes ok: "memfs_ok fs" and f: "memFiles fs fd = Some f" and p: "memStores fs (pStore f) = Some p"
  shows "store_ok p" "eLock f \<le> 4" "nWrLock p \<le> 1" "0 \<le> nWrLock p" "1 \<le> eLock f \<Longrightarrow> 1 \<le> nRdLock p" "2 \<le> eLock f \<Longrightarrow> nWrLock p = 1"
    "held (memFiles fs) (pStore f) 4 \<le> 0 \<or> nRdLock p \<le> 1" "held (memFiles fs) (pStore f) 4 \<le> nWrLock p" "nWrLock p \<le> nRdLock p"
    "nRdLock p = held (memFiles fs) (pStore f) 1" "nWrLock p = held (memFiles fs) (pStore f) 2"
proof -
  have i: "store_inv (memFiles fs) (pStore f) p" by (rule memfs_okD(4) [OF ok p])
  have fin: "finite (dom (memFiles fs))" by (rule memfs_okD(1) [OF ok])
  note pos = held_pos [OF fin f refl]
  show "store_ok p" "nWrLock p \<le> 1" "0 \<le> nWrLock p" "held (memFiles fs) (pStore f) 4 \<le> 0 \<or> nRdLock p \<le> 1"
    using i by (auto simp: store_inv_def)
  show "eLock f \<le> 4" by (rule memfs_okD(2) [OF ok f])
  show "1 \<le> nRdLock p" if "1 \<le> eLock f" using pos [OF that] i by (simp add: store_inv_def)
  show "nWrLock p = 1" if "2 \<le> eLock f" using pos [OF that] i by (auto simp: store_inv_def)
  show "held (memFiles fs) (pStore f) 4 \<le> nWrLock p" "nWrLock p \<le> nRdLock p"
    using i held_antimono [OF fin, of 2 4 "pStore f"] held_antimono [OF fin, of 1 2 "pStore f"] by (simp_all add: store_inv_def)
  show "nRdLock p = held (memFiles fs) (pStore f) 1" "nWrLock p = held (memFiles fs) (pStore f) 2" using i by (simp_all add: store_inv_def)
qed

lemma Lock_cases:
  assumes l: "memdbLock f p lk = (rc, f', p')" and lk: "lk \<le> 4"
  obtains (keep) "f' = f" "p' = p" "lk \<le> eLock f \<and> rc = 0 \<or> eLock f < lk \<and> rc \<noteq> 0"
    | (shared) "rc = 0" "lk = 1" "eLock f = 0" "\<not> 0 < nWrLock p" "f' = f\<lparr>eLock := 1\<rparr>" "p' = p\<lparr>nRdLock := nRdLock p + 1\<rparr>"
    | (reserve) "rc = 0" "1 < lk" "lk < 4" "eLock f = 1" "\<not> 0 < nWrLock p" "f' = f\<lparr>eLock := lk\<rparr>" "p' = p\<lparr>nWrLock := 1\<rparr>"
    | (pend) "rc = 0" "1 < lk" "lk < 4" "eLock f \<noteq> 1" "eLock f < lk" "f' = f\<lparr>eLock := lk\<rparr>" "p' = p"
    | (excl) "rc = 0" "lk = 4" "eLock f < 4" "\<not> 1 < nRdLock p" "f' = f\<lparr>eLock := 4\<rparr>" "p' = (if eLock f = 1 then p\<lparr>nWrLock := 1\<rparr> else p)"
proof -
  have codes: "SQLITE_BUSY \<noteq> 0" "SQLITE_READONLY \<noteq> 0" "SQLITE_LOCK_SHARED = 1" "SQLITE_LOCK_RESERVED = 2" "SQLITE_LOCK_PENDING = 3"
    by (simp_all add: lock_codes result_codes)
  define ro where "ro \<longleftrightarrow> mFlags p AND SQLITE_DESERIALIZE_READONLY \<noteq> 0"
  have e: "memdbLock f p lk =
    (if lk \<le> eLock f then (0, f, p)
     else if 1 < lk \<and> ro then (SQLITE_READONLY, f, p)
     else if lk = 1 then (if 0 < nWrLock p then (SQLITE_BUSY, f, p) else (0, f\<lparr>eLock := lk\<rparr>, p\<lparr>nRdLock := nRdLock p + 1\<rparr>))
     else if lk = 2 \<or> lk = 3 then
       (if eLock f = 1 then (if 0 < nWrLock p then (SQLITE_BUSY, f, p) else (0, f\<lparr>eLock := lk\<rparr>, p\<lparr>nWrLock := 1\<rparr>)) else (0, f\<lparr>eLock := lk\<rparr>, p))
     else if 1 < nRdLock p then (SQLITE_BUSY, f, p)
     else (0, f\<lparr>eLock := lk\<rparr>, if eLock f = 1 then p\<lparr>nWrLock := 1\<rparr> else p))"
    unfolding memdbLock_def ro_def by (simp add: codes)
  have k: "thesis" if "(rc, f', p') = (c, f, p)" "c \<noteq> 0" "eLock f < lk" for c using that keep by simp
  consider "lk \<le> eLock f" | "eLock f < lk" "1 < lk" ro | "eLock f < lk" "lk = 1" | "eLock f < lk" "1 < lk" "lk < 4" "\<not> ro" | "eLock f < lk" "lk = 4" "\<not> ro"
    using lk by linarith
  then show ?thesis
  proof cases
    case 1
    then have "(rc, f', p') = (0, f, p)" using l unfolding e by simp
    then show ?thesis using keep 1 by simp
  next
    case 2
    then have "(rc, f', p') = (SQLITE_READONLY, f, p)" using l unfolding e by simp
    then show ?thesis by (rule k) (use codes 2 in simp_all)
  next
    case 3
    show ?thesis
    proof (cases "0 < nWrLock p")
      case True
      then have "(rc, f', p') = (SQLITE_BUSY, f, p)" using l 3 unfolding e by simp
      then show ?thesis by (rule k) (use codes 3 in simp_all)
    next
      case False
      then have "(rc, f', p') = (0, f\<lparr>eLock := lk\<rparr>, p\<lparr>nRdLock := nRdLock p + 1\<rparr>)" using l 3 unfolding e by simp
      then show ?thesis by (intro shared) (use 3 False in simp_all)
    qed
  next
    case 4
    then have d: "lk = 2 \<or> lk = 3" "lk \<noteq> 1" by linarith+
    consider "eLock f = 1" "0 < nWrLock p" | "eLock f = 1" "\<not> 0 < nWrLock p" | "eLock f \<noteq> 1" by blast
    then show ?thesis
    proof cases
      case 1
      then have "(rc, f', p') = (SQLITE_BUSY, f, p)" using l 4 d unfolding e by simp
      then show ?thesis by (rule k) (use codes 4 in simp_all)
    next
      case 2
      then have "(rc, f', p') = (0, f\<lparr>eLock := lk\<rparr>, p\<lparr>nWrLock := 1\<rparr>)" using l 4 d unfolding e by simp
      then show ?thesis by (intro reserve) (use 4 2 in simp_all)
    next
      case 3
      then have "(rc, f', p') = (0, f\<lparr>eLock := lk\<rparr>, p)" using l 4 d unfolding e by simp
      then show ?thesis by (intro pend) (use 4 3 in simp_all)
    qed
  next
    case 5
    show ?thesis
    proof (cases "1 < nRdLock p")
      case True
      then have "(rc, f', p') = (SQLITE_BUSY, f, p)" using l 5 unfolding e by simp
      then show ?thesis by (rule k) (use codes 5 in simp_all)
    next
      case False
      then have "(rc, f', p') = (0, f\<lparr>eLock := lk\<rparr>, if eLock f = 1 then p\<lparr>nWrLock := 1\<rparr> else p)" using l 5 unfolding e by simp
      then show ?thesis by (intro excl) (use 5 False in simp_all)
    qed
  qed
qed

text \<open>A handle that is the only reader and does not write excludes every writer.\<close>

lemma sole_reader:
  assumes ok: "memfs_ok fs" and f: "memFiles fs fd = Some f" and p: "memStores fs (pStore f) = Some p"
    and r: "nRdLock p = 1" "1 \<le> eLock f" "eLock f < 2"
  shows "nWrLock p = 0"
proof -
  note h = handle_facts [OF ok f p]
  have "card (holders (memFiles fs) (pStore f) 1) = 1" using h(10) r(1) by (simp add: held_def)
  then obtain x where x: "holders (memFiles fs) (pStore f) 1 = {x}" by (rule card_1_singletonE)
  have "fd \<in> holders (memFiles fs) (pStore f) 1" using f r by (simp add: holders_def)
  then have "x = fd" using x by simp
  have "y \<in> holders (memFiles fs) (pStore f) 1" if "y \<in> holders (memFiles fs) (pStore f) 2" for y
    using that by (auto simp: holders_def)
  moreover have "fd \<notin> holders (memFiles fs) (pStore f) 2" using f r by (simp add: holders_def)
  ultimately have "y \<notin> holders (memFiles fs) (pStore f) 2" for y using x \<open>x = fd\<close> by (metis singletonD)
  then have "holders (memFiles fs) (pStore f) 2 = {}" by blast
  then show ?thesis using h(11) by (simp add: held_def)
qed

lemma Lock_ok:
  assumes ok: "memfs_ok fs" and f: "memFiles fs fd = Some f" and p: "memStores fs (pStore f) = Some p"
    and lk: "lk \<le> 4" "1 < lk \<Longrightarrow> 1 \<le> eLock f" and l: "memdbLock f p lk = (rc, f', p')"
  shows "memfs_ok (fs\<lparr>memFiles := (memFiles fs)(fd := Some f'), memStores := (memStores fs)(pStore f := Some p')\<rparr>)"
proof -
  note h = handle_facts [OF ok f p]
  note step = handle_step_ok [OF ok f refl p]
  have ok': "store_ok (p\<lparr>nRdLock := x\<rparr>)" "store_ok (p\<lparr>nWrLock := x\<rparr>)" for x using h(1) by (simp_all add: store_ok_def)
  from l lk(1) show ?thesis
  proof (cases rule: Lock_cases)
    case keep
    then show ?thesis by (intro step) (use h in auto)
  next
    case shared
    then show ?thesis by (intro step) (use h(3,4,7,8) ok' in auto)
  next
    case reserve
    then have "nWrLock p = 0" using h(4) by simp
    then show ?thesis by (intro step) (use reserve h(1,2,5,8,9) ok' in auto)
  next
    case pend
    then have "2 \<le> eLock f" "eLock f \<noteq> 4" using lk(2) by auto
    then show ?thesis by (intro step) (use pend h in auto)
  next
    case excl
    have "1 \<le> eLock f" using lk(2) excl(2) by simp
    show ?thesis
    proof (cases "eLock f = 1")
      case True
      have "nRdLock p = 1" using h(5) True excl(4) by simp
      have "nWrLock p = 0" by (rule sole_reader [OF ok f p \<open>nRdLock p = 1\<close>]) (use True in simp_all)
      then show ?thesis by (intro step) (use excl True h(1,5,7,8) ok' \<open>nRdLock p = 1\<close> in auto)
    next
      case False
      then have "2 \<le> eLock f" using \<open>1 \<le> eLock f\<close> by simp
      then show ?thesis by (intro step) (use excl False h(1,2,3,6,7) in auto)
    qed
  qed
qed

lemma Unlock_ok:
  assumes ok: "memfs_ok fs" and f: "memFiles fs fd = Some f" and p: "memStores fs (pStore f) = Some p"
    and lk: "lk \<le> 1" and l: "memdbUnlock f p lk = (f', p')"
  shows "memfs_ok (fs\<lparr>memFiles := (memFiles fs)(fd := Some f'), memStores := (memStores fs)(pStore f := Some p')\<rparr>)"
proof -
  note h = handle_facts [OF ok f p]
  note step = handle_step_ok [OF ok f refl p]
  have ok': "store_ok (p\<lparr>nRdLock := x\<rparr>)" "store_ok (p\<lparr>nWrLock := x\<rparr>)" "store_ok (p\<lparr>nRdLock := x, nWrLock := y\<rparr>)"
     "store_ok (p\<lparr>nWrLock := x, nRdLock := y\<rparr>)" for x y
    using h(1) by (simp_all add: store_ok_def)
  consider "eLock f \<le> lk" | "lk = 1" "1 < eLock f" | "lk = 0" "1 < eLock f" | "lk = 0" "eLock f = 1" using lk by linarith
  then show ?thesis
  proof cases
    case 1
    then show ?thesis by (intro step) (use l h in \<open>auto simp: memdbUnlock_def\<close>)
  next
    case 2
    then have e: "f' = f\<lparr>eLock := 1\<rparr>" "p' = p\<lparr>nWrLock := nWrLock p - 1\<rparr>" using l by (auto simp: memdbUnlock_def lock_codes)
    then show ?thesis using 2 by (intro step) (use h ok' in \<open>auto split: if_splits\<close>)
  next
    case 3
    then have e: "f' = f\<lparr>eLock := 0\<rparr>" "p' = p\<lparr>nWrLock := nWrLock p - 1, nRdLock := nRdLock p - 1\<rparr>" using l by (auto simp: memdbUnlock_def lock_codes)
    then show ?thesis using 3 by (intro step) (use h ok' in \<open>auto split: if_splits\<close>)
  next
    case 4
    then have e: "f' = f\<lparr>eLock := 0\<rparr>" "p' = p\<lparr>nRdLock := nRdLock p - 1\<rparr>" using l by (auto simp: memdbUnlock_def lock_codes)
    then show ?thesis using 4 by (intro step) (use h ok' in auto)
  qed
qed


subsection \<open>Opening and closing\<close>

lemma find_store_Some: "find_store st name ap = Some a \<Longrightarrow> a \<in> set ap \<and> zFName (the (st a)) = Some name"
  by (induction ap) (auto split: if_splits)

lemma find_store_None: "find_store st name ap = None \<Longrightarrow> a \<in> set ap \<Longrightarrow> zFName (the (st a)) \<noteq> Some name"
  by (induction ap) (auto split: if_splits)

text \<open>The removal keeps the other entries: the last one moves to the place of the one removed.\<close>

lemma drop_store_set:
  assumes "distinct ap" "ap = pre @ todo" "n = length todo" "p \<notin> set pre"
  shows "distinct (drop_store p ref ap n) \<and> set (drop_store p ref ap n) = (if ref = 1 then set ap - {p} else set ap)"
  using assms
proof (induction n arbitrary: pre todo)
  case 0
  then show ?case by auto
next
  case (Suc n)
  then obtain x xs where t: "todo = x # xs" "n = length xs" by (cases todo) auto
  have i: "length ap - Suc n = length pre" "ap ! length pre = x" using Suc.prems(2) t by (simp_all add: nth_append)
  show ?case
  proof (cases "x = p")
    case False
    from Suc.IH [OF Suc.prems(1), of "pre @ [x]" xs] show ?thesis
      using False i Suc.prems t by simp
  next
    case True
    show ?thesis
    proof (cases "ref = 1")
      case False
      then show ?thesis using True i Suc.prems(1) by simp
    next
      case one: True
      show ?thesis
      proof (cases xs rule: rev_cases)
        case Nil
        then have "ap = pre @ [p]" using Suc.prems(2) t True by simp
        then show ?thesis using True one i Suc.prems(1) t Nil by simp
      next
        case (snoc ys y)
        then have ap: "ap = pre @ p # ys @ [y]" using Suc.prems(2) t True by simp
        have "butlast (ap[length pre := last ap]) = pre @ y # ys" unfolding ap by (simp add: list_update_append butlast_append)
        then show ?thesis using True one i Suc.prems(1) ap by auto
      qed
    qed
  qed
qed

lemma held_fresh:
  assumes "memfs_ok fs" "memStores fs a = None"
  shows "held (memFiles fs) a k = 0"
proof -
  have "holders (memFiles fs) a k = {}" using memfs_okD(3) [OF assms(1)] assms(2) by (fastforce simp: holders_def)
  then show ?thesis by (simp add: held_def)
qed

lemma held_zero: "finite (dom m) \<Longrightarrow> held m a 0 = 0 \<Longrightarrow> m fd = Some f \<Longrightarrow> pStore f \<noteq> a"
  using held_pos [of m fd f a 0] by auto

lemma counts_open: "counts (Some \<lparr>pStore = a, eLock = SQLITE_LOCK_NONE\<rparr>) b k = (if a = b \<and> k = 0 then 1 else 0)"
  by (simp add: counts_def lock_codes)

text \<open>A new handle on a store whose reference count says so.\<close>

lemma attach_ok:
  assumes ok: "memfs_ok fs" and fd: "memFiles fs fd = None"
    and q: "store_ok q" "nRdLock q = held (memFiles fs) a 1" "nWrLock q = held (memFiles fs) a 2" "nWrLock q \<le> 1" "held (memFiles fs) a 4 \<le> 0 \<or> nRdLock q \<le> 1"
      "if zFName q = None then nRef q = 0 \<and> held (memFiles fs) a 0 = 0 else nRef q = held (memFiles fs) a 0 + 1"
    and t: "table_ok fs'"
    and fs': "memFiles fs' = (memFiles fs)(fd := Some \<lparr>pStore = a, eLock = SQLITE_LOCK_NONE\<rparr>)" "memStores fs' = (memStores fs)(a := Some q)"
  shows "memfs_ok fs'"
proof -
  have fin: "finite (dom (memFiles fs))" by (rule memfs_okD(1) [OF ok])
  have h: "held (memFiles fs') b k = held (memFiles fs) b k + (if a = b \<and> k = 0 then 1 else 0)" for b k
    unfolding fs'(1) held_upd [OF fin] counts_open using fd by (simp add: counts_def)
  have "store_inv (memFiles fs') a q"
    using q held_nonneg [of "memFiles fs" a 0] by (auto simp: store_inv_def h split: if_splits)
  moreover have "store_inv (memFiles fs') b r" if "b \<noteq> a" "memStores fs b = Some r" for b r
    using memfs_okD(4) [OF ok that(2)] that(1) by (auto simp: store_inv_def h)
  moreover have "files_ok fs'" using ok fin by (auto simp: memfs_ok_def files_ok_def fs' lock_codes)
  ultimately show ?thesis using t by (auto simp: memfs_ok_def fs'(2))
qed

lemma table_ok_add:
  assumes t: "table_ok fs" and a: "memStores fs a = None" and n: "find_store (memStores fs) name (apMemStore fs) = None"
    and q: "zFName q = Some name" and fs': "memStores fs' = (memStores fs)(a := Some q)" "apMemStore fs' = apMemStore fs @ [a]"
  shows "table_ok fs'"
proof -
  have na: "store_name (memStores fs) a = None" using a by (simp add: store_name_def)
  have nm: "store_name (memStores fs') b = (if b = a then Some name else store_name (memStores fs) b)" for b
    using q by (simp add: store_name_def fs'(1))
  have fresh: "store_name (memStores fs) b \<noteq> Some name" for b
  proof
    assume s: "store_name (memStores fs) b = Some name"
    then have "b \<in> set (apMemStore fs)" using t by (simp add: table_ok_def)
    from find_store_None [OF n this] s show False by (auto simp: store_name_def split: option.splits)
  qed
  have "distinct (apMemStore fs')" using t na by (auto simp: table_ok_def fs'(2))
  moreover have "b \<in> set (apMemStore fs') \<longleftrightarrow> store_name (memStores fs') b \<noteq> None" for b
    using t by (auto simp: table_ok_def fs'(2) nm)
  moreover have "b = c" if "store_name (memStores fs') b = store_name (memStores fs') c" "store_name (memStores fs') b \<noteq> None" for b c
  proof (cases "b = a \<or> c = a")
    case True
    then show ?thesis using that(1) fresh [of b] fresh [of c] by (cases "b = a"; cases "c = a") (simp_all add: nm)
  next
    case False
    then show ?thesis using that t unfolding table_ok_def nm by simp
  qed
  ultimately show ?thesis unfolding table_ok_def by blast
qed

lemma store_name_same: "zFName q = None \<Longrightarrow> st a = None \<Longrightarrow> store_name (st(a := Some q)) = store_name st"
  by (auto simp: store_name_def)

lemma Open_ok:
  assumes ok: "memfs_ok fs" and fd: "memFiles fs fd = None" and fresh: "\<And>a. heap = Some a \<Longrightarrow> memStores fs a = None"
    and o: "memdbOpen mx heap grow mutex fs zName fd flags = (rc, oflags, fs')"
  shows "memfs_ok fs'"
proof -
  have t: "table_ok fs" using ok by (simp add: memfs_ok_def)
  let ?h = "Some \<lparr>pStore = a, eLock = SQLITE_LOCK_NONE\<rparr>" 
  let ?slash = "1 < length zName \<and> (hd zName = CHR ''/'' \<or> hd zName = CHR 0x5C)"
  have new: "store_ok (new_store mx)" "nRdLock (new_store mx) = 0" "nWrLock (new_store mx) = 0" "nRef (new_store mx) = 0" "zFName (new_store mx) = None"
    by (simp_all add: store_ok_def new_store_def)
  consider (same) "fs' = fs"
    | (share) a where "find_store (memStores fs) zName (apMemStore fs) = Some a"
        "fs' = fs\<lparr>memStores := (memStores fs)(a := Some ((the (memStores fs a))\<lparr>nRef := nRef (the (memStores fs a)) + 1\<rparr>)),
                 memFiles := (memFiles fs)(fd := Some \<lparr>pStore = a, eLock = SQLITE_LOCK_NONE\<rparr>)\<rparr>"
    | (new) a where "find_store (memStores fs) zName (apMemStore fs) = None" "heap = Some a"
        "fs' = fs\<lparr>memStores := (memStores fs)(a := Some ((new_store mx)\<lparr>zFName := Some zName, nRef := 1\<rparr>)),
                 apMemStore := apMemStore fs @ [a], memFiles := (memFiles fs)(fd := Some \<lparr>pStore = a, eLock = SQLITE_LOCK_NONE\<rparr>)\<rparr>"
    | (sep) a where "heap = Some a"
        "fs' = fs\<lparr>memStores := (memStores fs)(a := Some (new_store mx)), memFiles := (memFiles fs)(fd := Some \<lparr>pStore = a, eLock = SQLITE_LOCK_NONE\<rparr>)\<rparr>"
  proof (cases ?slash)
    case True
    show ?thesis
    proof (cases "find_store (memStores fs) zName (apMemStore fs)")
      case None
      show ?thesis
      proof (cases "heap = None \<or> \<not> grow \<or> \<not> mutex")
        case f: True
        then show ?thesis using o True None that(1) by (cases heap; cases grow) (auto simp: memdbOpen_def)
      next
        case f: False
        then obtain a where "heap = Some a" grow mutex by auto
        then show ?thesis using o True None that(3) by (simp add: memdbOpen_def Let_def)
      qed
    next
      case (Some a)
      then show ?thesis using o True that(2) by (simp add: memdbOpen_def Let_def)
    qed
  next
    case False
    then have nf: "?slash = False" by blast
    show ?thesis
    proof (cases heap)
      case None
      then show ?thesis using o that(1) unfolding memdbOpen_def Let_def nf by simp
    next
      case (Some a)
      then show ?thesis using o that(4) unfolding memdbOpen_def Let_def nf by simp
    qed
  qed
  then show ?thesis
  proof cases
    case same
    then show ?thesis using ok by simp
  next
    case share
    have a: "a \<in> set (apMemStore fs)" "zFName (the (memStores fs a)) = Some zName" using find_store_Some [OF share(1)] by simp_all
    then obtain p where p: "memStores fs a = Some p" "zFName p = Some zName"
      using t by (auto simp: table_ok_def store_name_def split: option.splits)
    have i: "store_inv (memFiles fs) a p" by (rule memfs_okD(4) [OF ok p(1)])
    show ?thesis
    proof (rule attach_ok [OF ok fd, of "p\<lparr>nRef := nRef p + 1\<rparr>" a])
      show "table_ok fs'" using table_ok_upd [OF t p(1), of "p\<lparr>nRef := nRef p + 1\<rparr>" "memFiles fs"] share(2) p(1) unfolding table_ok_def by simp blast
    qed (use share(2) p i in \<open>auto simp: store_inv_def store_ok_def\<close>)
  next
    case new: (new a)
    have a: "memStores fs a = None" by (rule fresh [OF new(2)])
    note z = held_fresh [OF ok a]
    show ?thesis
    proof (rule attach_ok [OF ok fd, of "(new_store mx)\<lparr>zFName := Some zName, nRef := 1\<rparr>" a])
      show "table_ok fs'" by (rule table_ok_add [OF t a new(1), of "(new_store mx)\<lparr>zFName := Some zName, nRef := 1\<rparr>"]) (use new(3) in simp_all)
    qed (use new(3) in \<open>simp_all add: z new_store_def store_ok_def\<close>)
  next
    case priv: (sep a)
    have a: "memStores fs a = None" by (rule fresh [OF priv(1)])
    note z = held_fresh [OF ok a]
    show ?thesis
    proof (rule attach_ok [OF ok fd, of "new_store mx" a])
      show "table_ok fs'" using t priv(2) store_name_same [of "new_store mx" "memStores fs" a] a new(5) unfolding table_ok_def by simp blast
    qed (use priv(2) in \<open>simp_all add: z new_store_def store_ok_def\<close>)
  qed
qed

lemma detach_counts:
  assumes ok: "memfs_ok fs" and f: "memFiles fs fd = Some f" "eLock f = 0"
  shows "held ((memFiles fs)(fd := None)) b k = held (memFiles fs) b k - (if b = pStore f \<and> k = 0 then 1 else 0)"
  unfolding held_upd [OF memfs_okD(1) [OF ok]] using f by (simp add: counts_def)

lemma Close_ok:
  assumes ok: "memfs_ok fs" and f: "memFiles fs fd = Some f" "eLock f = 0"
  shows "memfs_ok (memdbClose fs fd)"
proof -
  let ?a = "pStore f" and ?m = "(memFiles fs)(fd := None)"
  have fin: "finite (dom (memFiles fs))" by (rule memfs_okD(1) [OF ok])
  have t: "table_ok fs" using ok by (simp add: memfs_ok_def)
  obtain p where p: "memStores fs ?a = Some p" using memfs_okD(3) [OF ok f(1)] by blast
  have i: "store_inv (memFiles fs) ?a p" by (rule memfs_okD(4) [OF ok p])
  note d = detach_counts [OF ok f]
  have other: "store_inv ?m b r" if "b \<noteq> ?a" "memStores fs b = Some r" for b r
    using memfs_okD(4) [OF ok that(2)] that(1) unfolding store_inv_def d by auto
  define ap where "ap = (if zFName p \<noteq> None then drop_store ?a (nRef p) (apMemStore fs) (length (apMemStore fs)) else apMemStore fs)"
  define st where "st = (memStores fs)(?a := (if nRef p \<le> 1 then None else Some (p\<lparr>nRef := nRef p - 1\<rparr>)))"
  have c: "memdbClose fs fd = fs\<lparr>memStores := st, apMemStore := ap, memFiles := ?m\<rparr>"
    using f p by (simp add: memdbClose_def ap_def st_def Let_def)
  have ds: "distinct (drop_store ?a (nRef p) (apMemStore fs) (length (apMemStore fs))) \<and>
      set (drop_store ?a (nRef p) (apMemStore fs) (length (apMemStore fs))) = (if nRef p = 1 then set (apMemStore fs) - {?a} else set (apMemStore fs))"
    by (rule drop_store_set [where pre = "[]"]) (use t in \<open>auto simp: table_ok_def\<close>)
  show ?thesis
  proof (cases "nRef p \<le> 1")
    case True
    have z: "held ?m ?a 0 = 0" unfolding d using i True by (auto simp: store_inv_def split: if_splits)
    have fm: "finite (dom ?m)" using fin by simp
    have gone: "pStore g \<noteq> ?a" if "memFiles fs x = Some g" "x \<noteq> fd" for x g
      using held_zero [OF fm z, of x g] that by simp
    have "files_ok (memdbClose fs fd)"
      unfolding files_ok_def
    proof (intro conjI allI impI)
      show "finite (dom (memFiles (memdbClose fs fd)))" using fm by (simp add: c)
      fix x g assume "memFiles (memdbClose fs fd) x = Some g"
      then have g: "memFiles fs x = Some g" "x \<noteq> fd" by (auto simp: c split: if_splits)
      show "memStores (memdbClose fs fd) (pStore g) \<noteq> None" using memfs_okD(3) [OF ok g(1)] gone [OF g] by (auto simp: c st_def)
      show "eLock g \<le> 4" by (rule memfs_okD(2) [OF ok g(1)])
    qed
    moreover have "table_ok (memdbClose fs fd)"
    proof -
      have nm: "store_name st b = (if b = ?a then None else store_name (memStores fs) b)" for b
        using True by (simp add: st_def store_name_def)
      have "set ap = set (apMemStore fs) - {?a} \<and> distinct ap"
      proof (cases "zFName p = None")
        case True
        then have "?a \<notin> set (apMemStore fs)" using t p by (simp add: table_ok_def store_name_def)
        then show ?thesis using t True by (simp add: ap_def table_ok_def)
      next
        case False
        then have "nRef p = 1" using i True by (auto simp: store_inv_def)
        then show ?thesis using ds False by (simp add: ap_def)
      qed
      then show ?thesis using t unfolding c table_ok_def by (simp add: nm) blast
    qed
    moreover have "store_inv ?m b r" if "st b = Some r" for b r
      using other [of b r] that True by (simp add: st_def split: if_splits)
    ultimately show ?thesis unfolding memfs_ok_def c by simp
  next
    case False
    then have n: "zFName p \<noteq> None" "nRef p = held (memFiles fs) ?a 0" using i by (auto simp: store_inv_def split: if_splits)
    have "store_inv ?m ?a (p\<lparr>nRef := nRef p - 1\<rparr>)"
      using i n False unfolding store_inv_def d by (auto simp: store_ok_def)
    then have "store_inv ?m b r" if "st b = Some r" for b r
      using other [of b r] that False by (cases "b = ?a") (auto simp: st_def)
    moreover have "files_ok (memdbClose fs fd)"
      using ok fin False p unfolding c st_def by (auto simp: memfs_ok_def files_ok_def)
    moreover have "table_ok (memdbClose fs fd)"
    proof -
      have "store_name st = store_name (memStores fs)" using False p by (auto simp: st_def store_name_def)
      moreover have "set ap = set (apMemStore fs)" "distinct ap" using ds n False by (auto simp: ap_def)
      ultimately show ?thesis using t unfolding c table_ok_def by simp blast
    qed
    ultimately show ?thesis unfolding memfs_ok_def c by simp
  qed
qed


text \<open>Whatever the order in which handles open, lock, write, unlock and close in-memory database files,
  every reachable state is consistent: the counters of a store are the numbers of handles that hold
  its locks, a shared name has one store, and a store lives exactly as long as a handle uses it.\<close>

lemma step_ok: "memdb_step mx fs fs' \<Longrightarrow> memfs_ok fs \<Longrightarrow> memfs_ok fs'"
proof (induction rule: memdb_step.induct)
  case step_open
  then show ?case by (rule Open_ok [rotated 1])
next
  case step_close
  then show ?case by (blast intro: Close_ok)
next
  case (step_lock fs fd f p lk rc f' p')
  then show ?case by (intro Lock_ok [OF _ step_lock(1,2,3) _ step_lock(6)]) auto
next
  case (step_shared fs fd f p rc f' p')
  then show ?case by (intro Lock_ok [OF _ step_shared(1,2) _ _ step_shared(3)]) auto
next
  case (step_unlock fs fd f p lk f' p')
  then show ?case by (intro Unlock_ok [OF _ step_unlock(1-4)])
next
  case (step_write fs fd f p r z ofs rc p')
  then have "store_ok p" by (blast dest: handle_facts(1))
  from Write_cases [OF step_write(3) this step_write(4)] show ?case by (intro data_step_ok [OF step_write(5,2)]) auto
next
  case (step_truncate fs fd f p n rc p')
  then have "store_ok p" by (blast dest: handle_facts(1))
  then show ?case using step_truncate(3)
    by (intro data_step_ok [OF step_truncate(4,2)]) (auto simp: memdbTruncate_def store_ok_def same_locks_def split: if_splits)
next
  case (step_control fs fd f p name op rc op' p')
  then have "store_ok p" by (blast dest: handle_facts(1))
  then show ?case using step_control(3)
    by (intro data_step_ok [OF step_control(4,2)]) (auto simp: memdbFileControl_def store_ok_def same_locks_def Let_def split: fcntl.splits)
next
  case (step_fetch fs fd f p ofs n pp p')
  then have "store_ok p" by (blast dest: handle_facts(1))
  then show ?case using step_fetch(3)
    by (intro data_step_ok [OF step_fetch(4,2)]) (auto simp: memdbFetch_def store_ok_def same_locks_def split: if_splits)
next
  case (step_unfetch fs fd f p)
  then have "store_ok p" by (blast dest: handle_facts(1))
  then show ?case by (intro data_step_ok [OF step_unfetch(3,2)]) (auto simp: memdbUnfetch_def store_ok_def same_locks_def)
qed

lemma init_ok: "memfs_ok memfs_init"
  by (simp add: memfs_ok_def files_ok_def table_ok_def memfs_init_def store_name_def)

lemma reachable_ok: "memfs_reachable mx fs \<Longrightarrow> memfs_ok fs"
  by (induction rule: memfs_reachable.induct) (auto intro: init_ok step_ok)

subsection \<open>Reachable states\<close>

lemma other_holders:
  assumes "memfs_ok fs" "memFiles fs fd = Some f" "memFiles fs gd = Some g" "pStore g = pStore f" "gd \<noteq> fd" "k \<le> eLock f" "k \<le> eLock g"
  shows "2 \<le> held (memFiles fs) (pStore f) k"
proof -
  have "{fd, gd} \<subseteq> holders (memFiles fs) (pStore f) k" using assms by (auto simp: holders_def)
  from card_mono [OF finite_holders [OF memfs_okD(1) [OF assms(1)]] this] show ?thesis using assms(5) by (simp add: held_def)
qed

text \<open>C24: Locks exclude each other: of two handles on one in-memory database, at most one holds RESERVED or
  more, and a handle that holds EXCLUSIVE is the only one that holds any lock.\<close>

theorem MemDB_mutual_exclusion:
  assumes "memfs_reachable mx fs" "memFiles fs fd = Some f" "memFiles fs gd = Some g" "pStore g = pStore f" "gd \<noteq> fd"
  shows "(2 \<le> eLock f \<longrightarrow> eLock g \<le> 1) \<and> (eLock f = 4 \<longrightarrow> eLock g = 0)"
proof -
  have ok: "memfs_ok fs" by (rule reachable_ok [OF assms(1)])
  obtain p where p: "memStores fs (pStore f) = Some p" using memfs_okD(3) [OF ok assms(2)] by blast
  note h = handle_facts [OF ok assms(2) p]
  have "eLock g \<le> 1" if "2 \<le> eLock f"
    using other_holders [OF ok assms(2-5) that] h(3,11) by fastforce
  moreover have "eLock g = 0" if "eLock f = 4"
  proof (rule ccontr)
    assume "eLock g \<noteq> 0"
    then have "2 \<le> nRdLock p" using other_holders [OF ok assms(2-5), of 1] that h(10) by simp
    moreover have "1 \<le> held (memFiles fs) (pStore f) 4"
      by (rule held_pos [OF memfs_okD(1) [OF ok] assms(2) refl]) (use that in simp)
    ultimately show False using h(7) by linarith
  qed
  ultimately show ?thesis by blast
qed

text \<open>Two handles on one shared file, one of which holds the exclusive lock.\<close>

definition demo_name :: string where "demo_name = ''/t''"

definition demo_open :: "nat \<Rightarrow> MemFS \<Rightarrow> MemFS" where
  "demo_open fd fs = snd (snd (memdbOpen 100 (Some fd) True True fs demo_name fd 0))"

definition demo_lock :: "nat \<Rightarrow> nat \<Rightarrow> MemFS \<Rightarrow> MemFS" where
  "demo_lock fd lk fs =
     (let f = the (memFiles fs fd); (rc, f', p') = memdbLock f (the (memStores fs (pStore f))) lk
      in fs\<lparr>memFiles := (memFiles fs)(fd := Some f'), memStores := (memStores fs)(pStore f := Some p')\<rparr>)"

definition demo0 :: MemFS where "demo0 = demo_open 2 (demo_open 0 memfs_init)"
definition demo1 :: MemFS where "demo1 = demo_lock 0 SQLITE_LOCK_SHARED demo0"
definition demo :: MemFS where "demo = demo_lock 0 SQLITE_LOCK_EXCLUSIVE demo1"

lemma demo_lock_step:
  assumes "memfs_reachable mx fs" "memFiles fs fd = Some f" "memStores fs (pStore f) = Some p" "lk \<le> 4" "1 \<le> lk" "1 < lk \<Longrightarrow> 1 \<le> eLock f"
  shows "memfs_reachable mx (demo_lock fd lk fs)"
proof -
  obtain rc f' p' where l: "memdbLock f p lk = (rc, f', p')" by (metis prod_cases3)
  have d: "demo_lock fd lk fs = fs\<lparr>memFiles := (memFiles fs)(fd := Some f'), memStores := (memStores fs)(pStore f := Some p')\<rparr>"
    using assms(2,3) l by (simp add: demo_lock_def)
  have "memdb_step mx fs (demo_lock fd lk fs)"
  proof (cases "lk = 1")
    case True
    then show ?thesis using l unfolding d by (intro step_shared [OF assms(2,3)]) simp
  next
    case False
    then show ?thesis using l assms(4-6) unfolding d by (intro step_lock [OF assms(2,3)]) auto
  qed
  then show ?thesis by (rule reach_step [OF assms(1)])
qed

lemma demo0_eq:
  "demo0 =
     \<lparr>memStores = (\<lambda>_. None)(0 := Some ((new_store 100)\<lparr>zFName := Some ''/t'', nRef := 2\<rparr>)), apMemStore = [0],
      memFiles = (\<lambda>_. None)(0 := Some \<lparr>pStore = 0, eLock = 0\<rparr>, 2 := Some \<lparr>pStore = 0, eLock = 0\<rparr>)\<rparr>"
  by (simp add: demo0_def demo_open_def demo_name_def memdbOpen_def memfs_init_def lock_codes)

lemma demo_open_step:
  assumes "memfs_reachable 100 fs" "memFiles fs fd = None" "memStores fs fd = None"
  shows "memfs_reachable 100 (demo_open fd fs)"
proof -
  obtain rc fl fs' where o: "memdbOpen 100 (Some fd) True True fs demo_name fd 0 = (rc, fl, fs')" by (metis prod_cases3)
  have "memdb_step 100 fs fs'" by (rule step_open [OF assms(2) _ o]) (use assms(3) in simp)
  moreover have "demo_open fd fs = fs'" by (simp add: demo_open_def o)
  ultimately show ?thesis using reach_step [OF assms(1)] by simp
qed

lemma demo0_reachable: "memfs_reachable 100 demo0"
  unfolding demo0_def by (intro demo_open_step reach_init) (simp_all add: demo_open_def demo_name_def memdbOpen_def memfs_init_def)

lemma demo1_eq:
  "demo1 =
     \<lparr>memStores = (\<lambda>_. None)(0 := Some ((new_store 100)\<lparr>zFName := Some ''/t'', nRef := 2, nRdLock := 1\<rparr>)), apMemStore = [0],
      memFiles = (\<lambda>_. None)(0 := Some \<lparr>pStore = 0, eLock = 1\<rparr>, 2 := Some \<lparr>pStore = 0, eLock = 0\<rparr>)\<rparr>"
  unfolding demo1_def demo0_eq by (simp add: demo_lock_def memdbLock_def lock_codes new_store_def fun_upd_twist)

lemma demo1_reachable: "memfs_reachable 100 demo1"
  unfolding demo1_def by (rule demo_lock_step [OF demo0_reachable]) (auto simp: demo0_eq lock_codes)

lemma demo_reachable: "memfs_reachable 100 demo"
  unfolding demo_def by (rule demo_lock_step [OF demo1_reachable]) (auto simp: demo1_eq lock_codes)

lemma demo_eq:
  "demo =
     \<lparr>memStores = (\<lambda>_. None)(0 := Some ((new_store 100)\<lparr>zFName := Some ''/t'', nRef := 2, nRdLock := 1, nWrLock := 1\<rparr>)), apMemStore = [0],
      memFiles = (\<lambda>_. None)(0 := Some \<lparr>pStore = 0, eLock = 4\<rparr>, 2 := Some \<lparr>pStore = 0, eLock = 0\<rparr>)\<rparr>"
  unfolding demo_def demo1_eq by (simp add: demo_lock_def memdbLock_def lock_codes new_store_def deserialize_flags fun_upd_twist)

lemma demo_files: "memFiles demo 0 = Some \<lparr>pStore = 0, eLock = 4\<rparr>" "memFiles demo 2 = Some \<lparr>pStore = 0, eLock = 0\<rparr>"
  by (simp_all add: demo_eq)

theorem MemDB_mutual_exclusion_witness:
  "memfs_reachable 100 demo \<and> (\<exists>f g. memFiles demo 0 = Some f \<and> memFiles demo 2 = Some g \<and> eLock f = 4 \<and> eLock g = 0)"
  using MemDB_mutual_exclusion [OF demo_reachable demo_files] demo_reachable demo_files by simp



text \<open>C30: In every reachable state each open handle refers to a live store, each live store is used by some
  handle, the reference count of a shared store is the number of its handles, and no two stores share a
  name; so when the last handle is closed no store is left.\<close>

theorem MemDB_store_lifetime:
  assumes "memfs_reachable mx fs"
  shows "(\<forall>fd f. memFiles fs fd = Some f \<longrightarrow> memStores fs (pStore f) \<noteq> None)
    \<and> (\<forall>a p. memStores fs a = Some p \<longrightarrow> (\<exists>fd f. memFiles fs fd = Some f \<and> pStore f = a)
          \<and> (zFName p \<noteq> None \<longrightarrow> nRef p = int (card {fd. \<exists>f. memFiles fs fd = Some f \<and> pStore f = a}) \<and> a \<in> set (apMemStore fs))
          \<and> length (aData p) = szAlloc p \<and> sz p \<le> szAlloc p)
    \<and> (\<forall>a b p q. memStores fs a = Some p \<and> memStores fs b = Some q \<and> zFName p = zFName q \<and> zFName p \<noteq> None \<longrightarrow> a = b)
    \<and> (memFiles fs = (\<lambda>_. None) \<longrightarrow> memStores fs = (\<lambda>_. None) \<and> apMemStore fs = [])"
proof -
  have ok: "memfs_ok fs" by (rule reachable_ok [OF assms])
  have t: "table_ok fs" using ok by (simp add: memfs_ok_def)
  have fin: "finite (dom (memFiles fs))" by (rule memfs_okD(1) [OF ok])
  have used: "\<exists>fd f. memFiles fs fd = Some f \<and> pStore f = a" if "memStores fs a = Some p" for a p
  proof -
    have "0 < held (memFiles fs) a 0" using memfs_okD(4) [OF ok that] by (simp add: store_inv_def)
    then have "holders (memFiles fs) a 0 \<noteq> {}" by (auto simp: held_def)
    then show ?thesis by (auto simp: holders_def)
  qed
  have ref: "nRef p = int (card {fd. \<exists>f. memFiles fs fd = Some f \<and> pStore f = a})" "a \<in> set (apMemStore fs)"
    if "memStores fs a = Some p" "zFName p \<noteq> None" for a p
    using memfs_okD(4) [OF ok that(1)] that t by (auto simp: store_inv_def held_def holders_def table_ok_def store_name_def)
  have size: "length (aData p) = szAlloc p \<and> sz p \<le> szAlloc p" if "memStores fs a = Some p" for a p
    using memfs_okD(4) [OF ok that] by (simp add: store_inv_def store_ok_def)
  have name: "a = b" if "memStores fs a = Some p" "memStores fs b = Some q" "zFName p = zFName q" "zFName p \<noteq> None" for a b p q
    using t that unfolding table_ok_def by (metis option.simps(5) store_name_def)
  have none: "memStores fs = (\<lambda>_. None) \<and> apMemStore fs = []" if "memFiles fs = (\<lambda>_. None)"
  proof -
    have s: "memStores fs = (\<lambda>_. None)"
    proof (rule ext)
      show "memStores fs a = None" for a using used [of a] that by (cases "memStores fs a") auto
    qed
    then have "\<forall>a. a \<notin> set (apMemStore fs)" using t by (simp add: table_ok_def store_name_def)
    then show ?thesis using s by (simp add: equals0I)
  qed
  show ?thesis
    using memfs_okD(3) [OF ok] used ref size name none by (intro conjI allI impI) (blast+)
qed

theorem MemDB_store_lifetime_witness:
  "\<exists>p. memStores demo 0 = Some p \<and> nRef p = int (card {fd. \<exists>f. memFiles demo fd = Some f \<and> pStore f = 0})"
proof -
  obtain p where p: "memStores demo 0 = Some p" using memfs_okD(3) [OF reachable_ok [OF demo_reachable] demo_files(1)] by auto
  have "zFName p \<noteq> None"
    using p by (auto simp: demo_eq)
  then show ?thesis using MemDB_store_lifetime [OF demo_reachable] p by blast
qed

end
