(* ===== verification/Wasi_VFS.thy ===== *)
theory Wasi_VFS
  imports File_Interface
begin

section \<open>The VFS for WASI (wasm32-wasi-vfs.c)\<close>

text \<open>
  The virtual file system that rusqlite registers on \<open>wasm32-wasi\<close>: files are used through POSIX calls,
  and a journal file gets a write buffer of \<open>SQLITE_DEMOVFS_BUFFERSZ\<close> bytes. The operating system is
  a parameter: \<open>'o\<close> is the state of an open file description and the record \<open>posix\<close> holds the calls
  the code makes on it; a call returns -1 (or a short count) when it fails. Paths and buffers are byte
  strings without their terminating zero.
\<close>

definition SQLITE_DEMOVFS_BUFFERSZ :: nat where "SQLITE_DEMOVFS_BUFFERSZ = 8192"
definition MAXPATHNAME :: nat where "MAXPATHNAME = 512"


definition SQLITE_OPEN_READONLY :: u32 where "SQLITE_OPEN_READONLY = 0x1"
definition SQLITE_OPEN_READWRITE :: u32 where "SQLITE_OPEN_READWRITE = 0x2"
definition SQLITE_OPEN_CREATE :: u32 where "SQLITE_OPEN_CREATE = 0x4"
definition SQLITE_OPEN_EXCLUSIVE :: u32 where "SQLITE_OPEN_EXCLUSIVE = 0x10"
definition SQLITE_OPEN_MAIN_JOURNAL :: u32 where "SQLITE_OPEN_MAIN_JOURNAL = 0x800"

record 'o posix =
  lseek :: "'o \<Rightarrow> nat \<Rightarrow> int \<times> 'o"
  posix_write :: "'o \<Rightarrow> bytes \<Rightarrow> int \<times> 'o"
  posix_read :: "'o \<Rightarrow> nat \<Rightarrow> int \<times> bytes \<times> 'o"
  fsync :: "'o \<Rightarrow> int \<times> 'o"
  fstat :: "'o \<Rightarrow> int \<times> nat \<times> 'o"
  posix_close :: "'o \<Rightarrow> 'o"

record 'o DemoFile =
  df_fd :: 'o
  aBuffer :: "bytes option"
  nBuffer :: nat
  iBufferOfst :: nat

subsection \<open>File methods\<close>

definition demoDirectWrite :: "'o posix \<Rightarrow> 'o DemoFile \<Rightarrow> bytes \<Rightarrow> nat \<Rightarrow> nat \<times> 'o DemoFile" where
  "demoDirectWrite px p zBuf iOfst =
     (case lseek px (df_fd p) iOfst of (ofst, o1) \<Rightarrow>
        if ofst \<noteq> int iOfst then (SQLITE_IOERR_WRITE, p\<lparr>df_fd := o1\<rparr>)
        else (case posix_write px o1 zBuf of (nWrite, o2) \<Rightarrow>
               if nWrite \<noteq> int (length zBuf) then (SQLITE_IOERR_WRITE, p\<lparr>df_fd := o2\<rparr>)
               else (0, p\<lparr>df_fd := o2\<rparr>)))"

definition demoFlushBuffer :: "'o posix \<Rightarrow> 'o DemoFile \<Rightarrow> nat \<times> 'o DemoFile" where
  "demoFlushBuffer px p =
     (if nBuffer p \<noteq> 0 then
        (case demoDirectWrite px p (take (nBuffer p) (the (aBuffer p))) (iBufferOfst p) of (rc, p) \<Rightarrow> (rc, p\<lparr>nBuffer := 0\<rparr>))
      else (0, p))"

definition demoClose :: "'o posix \<Rightarrow> 'o DemoFile \<Rightarrow> nat \<times> 'o" where
  "demoClose px p = (case demoFlushBuffer px p of (rc, p) \<Rightarrow> (rc, posix_close px (df_fd p)))"

text \<open>\<open>zBuf\<close> is the caller's buffer of \<open>iAmt\<close> bytes; \<open>read\<close> overwrites as many of them as it returns.\<close>

definition demoRead :: "'o posix \<Rightarrow> 'o DemoFile \<Rightarrow> bytes \<Rightarrow> nat \<Rightarrow> nat \<times> bytes \<times> 'o DemoFile" where
  "demoRead px p zBuf iOfst =
     (case demoFlushBuffer px p of (rc, p) \<Rightarrow>
        if rc \<noteq> 0 then (rc, zBuf, p)
        else (case lseek px (df_fd p) iOfst of (ofst, o1) \<Rightarrow>
               if ofst \<noteq> int iOfst then (SQLITE_IOERR_READ, zBuf, p\<lparr>df_fd := o1\<rparr>)
               else (case posix_read px o1 (length zBuf) of (nRead, d, o2) \<Rightarrow>
                      if nRead = int (length zBuf) then (0, memcpy_at zBuf 0 d, p\<lparr>df_fd := o2\<rparr>)
                      else if 0 \<le> nRead then (SQLITE_IOERR_SHORT_READ, memcpy_at zBuf 0 d, p\<lparr>df_fd := o2\<rparr>)
                      else (SQLITE_IOERR_READ, zBuf, p\<lparr>df_fd := o2\<rparr>))))"

text \<open>One round of the write loop puts the first bytes of \<open>z\<close> into the buffer.\<close>

definition fill_buffer :: "'o DemoFile \<Rightarrow> bytes \<Rightarrow> nat \<Rightarrow> 'o DemoFile" where
  "fill_buffer p z i =
     (let nCopy = min (length z) (SQLITE_DEMOVFS_BUFFERSZ - nBuffer p) in
      p\<lparr>iBufferOfst := i - nBuffer p, aBuffer := Some (memcpy_at (the (aBuffer p)) (nBuffer p) (take nCopy z)), nBuffer := nBuffer p + nCopy\<rparr>)"

lemma flush_nBuffer: "nBuffer (snd (demoFlushBuffer px p)) = 0"
  by (simp add: demoFlushBuffer_def split: prod.split)

text \<open>The loop ends because a round copies at least one byte; \<open>nBuffer\<close> never exceeds the size of the
  buffer (the invariant below), the second condition only makes that plain to the termination proof.\<close>

function demoWrite_loop :: "'o posix \<Rightarrow> 'o DemoFile \<Rightarrow> bytes \<Rightarrow> nat \<Rightarrow> nat \<times> 'o DemoFile" where
  "demoWrite_loop px p z i =
     (if z = [] \<or> SQLITE_DEMOVFS_BUFFERSZ < nBuffer p then (0, p)
      else
        (case (if nBuffer p = SQLITE_DEMOVFS_BUFFERSZ \<or> iBufferOfst p + nBuffer p \<noteq> i then demoFlushBuffer px p else (0, p)) of (rc, q) \<Rightarrow>
           if rc \<noteq> 0 then (rc, q)
           else (let nCopy = min (length z) (SQLITE_DEMOVFS_BUFFERSZ - nBuffer q)
                 in demoWrite_loop px (fill_buffer q z i) (drop nCopy z) (i + nCopy))))"
  by pat_completeness auto

termination
proof (relation "measure (\<lambda>(_, _, z, _). length z)", goal_cases)
  case (2 px p z i rc q nCopy)
  have "nBuffer q < SQLITE_DEMOVFS_BUFFERSZ"
  proof (cases "nBuffer p = SQLITE_DEMOVFS_BUFFERSZ \<or> iBufferOfst p + nBuffer p \<noteq> i")
    case True
    then have "demoFlushBuffer px p = (rc, q)" using 2(2) by simp
    then have "nBuffer q = 0" using flush_nBuffer [of px p] by simp
    then show ?thesis by (simp add: SQLITE_DEMOVFS_BUFFERSZ_def)
  next
    case False
    then show ?thesis using 2(1-3) by auto
  qed
  then have "0 < nCopy" using 2(1,4) by simp
  then show ?case using 2(1) by simp
qed simp

declare demoWrite_loop.simps [simp del]

definition demoWrite :: "'o posix \<Rightarrow> 'o DemoFile \<Rightarrow> bytes \<Rightarrow> nat \<Rightarrow> nat \<times> 'o DemoFile" where
  "demoWrite px p zBuf iOfst = (if aBuffer p \<noteq> None then demoWrite_loop px p zBuf iOfst else demoDirectWrite px p zBuf iOfst)"

definition demoTruncate :: "'o DemoFile \<Rightarrow> nat \<Rightarrow> nat \<times> 'o DemoFile" where
  "demoTruncate p n = (0, p)"

definition demoSync :: "'o posix \<Rightarrow> 'o DemoFile \<Rightarrow> nat \<times> 'o DemoFile" where
  "demoSync px p =
     (case demoFlushBuffer px p of (rc, p) \<Rightarrow>
        if rc \<noteq> 0 then (rc, p)
        else (case fsync px (df_fd p) of (r, o1) \<Rightarrow> (if r = 0 then 0 else SQLITE_IOERR_FSYNC, p\<lparr>df_fd := o1\<rparr>)))"

definition demoFileSize :: "'o posix \<Rightarrow> 'o DemoFile \<Rightarrow> nat \<times> nat option \<times> 'o DemoFile" where
  "demoFileSize px p =
     (case demoFlushBuffer px p of (rc, p) \<Rightarrow>
        if rc \<noteq> 0 then (rc, None, p)
        else (case fstat px (df_fd p) of (r, st_size, o1) \<Rightarrow>
               if r \<noteq> 0 then (SQLITE_IOERR_FSTAT, None, p\<lparr>df_fd := o1\<rparr>) else (0, Some st_size, p\<lparr>df_fd := o1\<rparr>)))"

definition demoLock :: "'o DemoFile \<Rightarrow> nat \<Rightarrow> nat" where "demoLock p eLock = 0"
definition demoUnlock :: "'o DemoFile \<Rightarrow> nat \<Rightarrow> nat" where "demoUnlock p eLock = 0"
definition demoCheckReservedLock :: "'o DemoFile \<Rightarrow> nat \<times> nat" where "demoCheckReservedLock p = (0, 0)"
definition demoFileControl :: "'o DemoFile \<Rightarrow> nat \<Rightarrow> 'a \<Rightarrow> nat \<times> 'a" where "demoFileControl p op arg = (0, arg)"
definition demoSectorSize :: "'o DemoFile \<Rightarrow> nat" where "demoSectorSize p = 0"
definition demoDeviceCharacteristics :: "'o DemoFile \<Rightarrow> nat" where "demoDeviceCharacteristics p = 0"

subsection \<open>Methods of the VFS\<close>

text \<open>The flags of \<open>open\<close>; their numeric values belong to the C library. \<open>aBuf\<close> is the memory of the
  buffer, or \<open>None\<close> when it cannot be allocated; \<open>os_open\<close> returns \<open>None\<close> for a negative descriptor.\<close>

datatype oflag = O_EXCL | O_CREAT | O_RDONLY | O_RDWR

definition demoOpen ::
    "(bytes \<Rightarrow> oflag list \<Rightarrow> 'o option) \<Rightarrow> bytes option \<Rightarrow> bytes option \<Rightarrow> u32 \<Rightarrow> nat \<times> u32 option \<times> 'o DemoFile option" where
  "demoOpen os_open alloc zName flags =
     (case zName of None \<Rightarrow> (SQLITE_IOERR, None, None)
      | Some z \<Rightarrow>
          if flags AND SQLITE_OPEN_MAIN_JOURNAL \<noteq> 0 \<and> alloc = None then (SQLITE_NOMEM, None, None)
          else
            (let aBuf = (if flags AND SQLITE_OPEN_MAIN_JOURNAL \<noteq> 0 then alloc else None);
                 oflags = (if flags AND SQLITE_OPEN_EXCLUSIVE \<noteq> 0 then [O_EXCL] else [])
                   @ (if flags AND SQLITE_OPEN_CREATE \<noteq> 0 then [O_CREAT] else [])
                   @ (if flags AND SQLITE_OPEN_READONLY \<noteq> 0 then [O_RDONLY] else [])
                   @ (if flags AND SQLITE_OPEN_READWRITE \<noteq> 0 then [O_RDWR] else [])
             in case os_open z oflags of
                  None \<Rightarrow> (SQLITE_CANTOPEN, None, None)
                | Some fd \<Rightarrow> (0, Some flags, Some \<lparr>df_fd = fd, aBuffer = aBuf, nBuffer = 0, iBufferOfst = 0\<rparr>)))"

text \<open>
  The search for the directory of a path: \<open>zDir\<close> is the array of \<open>MAXPATHNAME+1\<close> bytes, \<open>junk\<close> what
  the array holds before the path is printed into it. \<open>None\<close> stands for an access outside of the array.
\<close>

function dir_scan :: "bytes \<Rightarrow> nat \<Rightarrow> nat option" where
  "dir_scan zDir i =
     (if 1 < i then (if length zDir \<le> i then None else if zDir ! i \<noteq> 0x2F then dir_scan zDir (i + 1) else Some i)
      else Some i)"
  by pat_completeness auto
termination by (relation "measure (\<lambda>(z, i). length z - i)") auto

declare dir_scan.simps [simp del]

definition cstr :: "bytes \<Rightarrow> bytes" where
  "cstr b = takeWhile (\<lambda>c. c \<noteq> 0) b"

definition dir_buffer :: "bytes \<Rightarrow> bytes \<Rightarrow> bytes" where
  "dir_buffer junk zPath = (memcpy_at junk 0 (take (MAXPATHNAME - 1) zPath @ [0]))[MAXPATHNAME := 0]"

definition dir_name :: "bytes \<Rightarrow> bytes \<Rightarrow> bytes option" where
  "dir_name junk zPath =
     (let zDir = dir_buffer junk zPath in
      map_option (\<lambda>i. cstr (zDir[i := 0])) (dir_scan zDir (length (cstr zDir))))"

text \<open>\<open>unlink\<close> returns its result and whether \<open>errno\<close> is \<open>ENOENT\<close>; \<open>sync_dir d\<close> is \<open>None\<close> when the directory
  cannot be opened, otherwise the result of \<open>fsync\<close> on it. The outer \<open>None\<close> is the access outside of the array.\<close>

definition demoDelete :: "int \<times> bool \<Rightarrow> (bytes \<Rightarrow> int option) \<Rightarrow> bytes \<Rightarrow> bytes \<Rightarrow> bool \<Rightarrow> nat option" where
  "demoDelete unlink sync_dir junk zPath dirSync =
     (case unlink of (rc, enoent) \<Rightarrow>
        if rc \<noteq> 0 \<and> enoent then Some 0
        else if rc = 0 \<and> dirSync then
          (case dir_name junk zPath of None \<Rightarrow> None
           | Some d \<Rightarrow> (let rc = (case sync_dir d of None \<Rightarrow> -1 | Some r \<Rightarrow> r) in Some (if rc = 0 then 0 else SQLITE_IOERR_DELETE)))
        else Some (if rc = 0 then 0 else SQLITE_IOERR_DELETE))"

datatype access_flag = SQLITE_ACCESS_EXISTS | SQLITE_ACCESS_READWRITE | SQLITE_ACCESS_READ
datatype amode = F_OK | R_OK | R_W_OK

definition demoAccess :: "(bytes \<Rightarrow> amode \<Rightarrow> int) \<Rightarrow> bytes \<Rightarrow> access_flag \<Rightarrow> nat \<times> bool" where
  "demoAccess os_access zPath flags =
     (let eAccess = (if flags = SQLITE_ACCESS_READWRITE then R_W_OK else F_OK);
          eAccess = (if flags = SQLITE_ACCESS_READ then R_OK else eAccess)
      in (0, os_access zPath eAccess = 0))"

definition demoFullPathname :: "bytes \<Rightarrow> nat \<Rightarrow> nat \<times> bytes" where
  "demoFullPathname zPath nPathOut = (0, take (nPathOut - 1) zPath)"

definition demoRandomness :: "nat \<Rightarrow> bytes \<Rightarrow> nat \<times> bytes" where
  "demoRandomness nByte zByte = (0, zByte)"

text \<open>The arguments of \<open>sleep\<close> and \<open>usleep\<close> and the result.\<close>

definition demoSleep :: "nat \<Rightarrow> nat \<times> nat \<times> nat" where
  "demoSleep nMicro = (nMicro div 1000000, nMicro mod 1000000, nMicro)"

subsection \<open>The write buffer is transparent\<close>

text \<open>
  What POSIX promises of the calls, for a content \<open>C\<close> and a position \<open>pos\<close> of the open file: \<open>lseek\<close>
  moves the position, a complete \<open>write\<close> replaces the bytes at the position, \<open>read\<close> returns the bytes
  there are, \<open>fsync\<close> and \<open>fstat\<close> leave the content alone. Any call may fail.
\<close>

definition posix_ok :: "'o posix \<Rightarrow> ('o \<Rightarrow> bytes) \<Rightarrow> ('o \<Rightarrow> nat) \<Rightarrow> bool" where
  "posix_ok px C pos \<longleftrightarrow>
     (\<forall>s off r s'. lseek px s off = (r, s') \<longrightarrow> C s' = C s \<and> (r = int off \<longrightarrow> pos s' = off))
   \<and> (\<forall>s d n s'. d \<noteq> [] \<and> posix_write px s d = (n, s') \<and> n = int (length d) \<longrightarrow> C s' = write_at (C s) d (pos s))
   \<and> (\<forall>s n r d s'. posix_read px s n = (r, d, s') \<longrightarrow> C s' = C s \<and> (0 \<le> r \<longrightarrow> d = read_at (C s) n (pos s) \<and> r = int (length d)))
   \<and> (\<forall>s r s'. fsync px s = (r, s') \<longrightarrow> C s' = C s)
   \<and> (\<forall>s r n s'. fstat px s = (r, n, s') \<longrightarrow> C s' = C s \<and> (r = 0 \<longrightarrow> n = length (C s)))"

text \<open>Calls that never fail.\<close>

definition posix_reliable :: "'o posix \<Rightarrow> bool" where
  "posix_reliable px \<longleftrightarrow> (\<forall>s off. fst (lseek px s off) = int off) \<and> (\<forall>s d. fst (posix_write px s d) = int (length d))
     \<and> (\<forall>s n. 0 \<le> fst (posix_read px s n)) \<and> (\<forall>s. fst (fsync px s) = 0) \<and> (\<forall>s. fst (fstat px s) = 0)"

lemma lseek_ok: "posix_ok px C pos \<Longrightarrow> lseek px s off = (r, s') \<Longrightarrow> C s' = C s \<and> (r = int off \<longrightarrow> pos s' = off)"
  unfolding posix_ok_def by blast

lemma posix_write_ok:
  "posix_ok px C pos \<Longrightarrow> d \<noteq> [] \<Longrightarrow> posix_write px s d = (int (length d), s') \<Longrightarrow> C s' = write_at (C s) d (pos s)"
  unfolding posix_ok_def by blast

lemma posix_read_ok:
  "posix_ok px C pos \<Longrightarrow> posix_read px s n = (r, d, s') \<Longrightarrow> C s' = C s \<and> (0 \<le> r \<longrightarrow> d = read_at (C s) n (pos s) \<and> r = int (length d))"
  unfolding posix_ok_def by blast



definition demo_ok :: "'o DemoFile \<Rightarrow> bool" where
  "demo_ok p \<longleftrightarrow> (case aBuffer p of None \<Rightarrow> nBuffer p = 0 | Some b \<Rightarrow> length b = SQLITE_DEMOVFS_BUFFERSZ \<and> nBuffer p \<le> SQLITE_DEMOVFS_BUFFERSZ)"

text \<open>The content of the file is what the system has, with the buffered bytes written to their place.\<close>

definition demo_content :: "('o \<Rightarrow> bytes) \<Rightarrow> 'o DemoFile \<Rightarrow> bytes" where
  "demo_content C p =
     (if nBuffer p = 0 then C (df_fd p) else write_at (C (df_fd p)) (take (nBuffer p) (the (aBuffer p))) (iBufferOfst p))"

lemma demo_okD: "demo_ok p \<Longrightarrow> nBuffer p \<noteq> 0 \<Longrightarrow> \<exists>b. aBuffer p = Some b \<and> length b = SQLITE_DEMOVFS_BUFFERSZ"
  by (auto simp: demo_ok_def split: option.splits)

lemma demo_ok_le: "demo_ok p \<Longrightarrow> nBuffer p \<le> SQLITE_DEMOVFS_BUFFERSZ"
  by (auto simp: demo_ok_def split: option.splits)

lemma DirectWrite_frame: "demoDirectWrite px p d off = (rc, q) \<Longrightarrow> \<exists>o'. q = p\<lparr>df_fd := o'\<rparr>"
  by (auto simp: demoDirectWrite_def split: prod.splits if_splits)

lemma DirectWrite_content:
  assumes "posix_ok px C pos" "d \<noteq> []" "demoDirectWrite px p d off = (0, q)"
  shows "C (df_fd q) = write_at (C (df_fd p)) d off"
proof -
  obtain r o1 where l: "lseek px (df_fd p) off = (r, o1)" by fastforce
  obtain n o2 where w: "posix_write px o1 d = (n, o2)" by fastforce
  have r: "r = int off" "n = int (length d)" "q = p\<lparr>df_fd := o2\<rparr>"
    using assms(3) l w by (auto simp: demoDirectWrite_def result_codes split: if_splits)
  show ?thesis using lseek_ok [OF assms(1) l] posix_write_ok [OF assms(1,2), of o1 o2] w r by simp
qed

lemma Flush_ok:
  assumes "demo_ok p" "demoFlushBuffer px p = (rc, q)"
  shows "demo_ok q \<and> aBuffer q = aBuffer p \<and> nBuffer q = 0"
proof (cases "nBuffer p = 0")
  case True
  then show ?thesis using assms by (simp add: demoFlushBuffer_def)
next
  case False
  obtain r s where w: "demoDirectWrite px p (take (nBuffer p) (the (aBuffer p))) (iBufferOfst p) = (r, s)" by fastforce
  then have "q = s\<lparr>nBuffer := 0\<rparr>" using assms(2) False by (simp add: demoFlushBuffer_def)
  then show ?thesis using DirectWrite_frame [OF w] assms(1) by (auto simp: demo_ok_def split: option.splits)
qed

lemma Flush_content:
  assumes "posix_ok px C pos" "demo_ok p" "demoFlushBuffer px p = (0, q)"
  shows "C (df_fd q) = demo_content C p \<and> demo_content C q = demo_content C p"
proof (cases "nBuffer p = 0")
  case True
  then show ?thesis using assms by (simp add: demoFlushBuffer_def demo_content_def)
next
  case False
  obtain r s where w: "demoDirectWrite px p (take (nBuffer p) (the (aBuffer p))) (iBufferOfst p) = (r, s)" by fastforce
  then have q: "q = s\<lparr>nBuffer := 0\<rparr>" "r = 0" using assms(3) False by (simp_all add: demoFlushBuffer_def)
  obtain b where "aBuffer p = Some b" "length b = SQLITE_DEMOVFS_BUFFERSZ" using demo_okD [OF assms(2) False] by blast
  then have "take (nBuffer p) (the (aBuffer p)) \<noteq> []" using False by (simp add: SQLITE_DEMOVFS_BUFFERSZ_def) auto
  from DirectWrite_content [OF assms(1) this w [unfolded q(2)]] show ?thesis using q(1) False by (simp add: demo_content_def)
qed

text \<open>One round of the loop: the bytes copied count as written.\<close>

lemma fill_buffer_ok:
  assumes "demo_ok p" "aBuffer p = Some b" "nBuffer p < SQLITE_DEMOVFS_BUFFERSZ" "nBuffer p = 0 \<or> iBufferOfst p + nBuffer p = i" "z \<noteq> []"
  defines "n \<equiv> min (length z) (SQLITE_DEMOVFS_BUFFERSZ - nBuffer p)"
  shows "demo_ok (fill_buffer p z i)" "demo_content C (fill_buffer p z i) = write_at (demo_content C p) (take n z) i"
    "aBuffer (fill_buffer p z i) \<noteq> None" "0 < n" "nBuffer (fill_buffer p z i) = nBuffer p + n" "df_fd (fill_buffer p z i) = df_fd p"
    "iBufferOfst (fill_buffer p z i) = i - nBuffer p"
    "take (nBuffer p + n) (the (aBuffer (fill_buffer p z i))) = take (nBuffer p) b @ take n z"
proof -
  have lb: "length b = SQLITE_DEMOVFS_BUFFERSZ" using assms(1,2) by (simp add: demo_ok_def)
  have n: "n \<le> length z" "nBuffer p + n \<le> SQLITE_DEMOVFS_BUFFERSZ" using assms(3) by (simp_all add: n_def)
  show n0: "0 < n" using assms(3,5) by (simp add: n_def)
  have f: "fill_buffer p z i = p\<lparr>iBufferOfst := i - nBuffer p, aBuffer := Some (memcpy_at b (nBuffer p) (take n z)), nBuffer := nBuffer p + n\<rparr>"
    using assms(2) by (simp add: fill_buffer_def n_def Let_def)
  show "demo_ok (fill_buffer p z i)" using n lb by (simp add: f demo_ok_def)
  show "aBuffer (fill_buffer p z i) \<noteq> None" "nBuffer (fill_buffer p z i) = nBuffer p + n" "df_fd (fill_buffer p z i) = df_fd p"
    "iBufferOfst (fill_buffer p z i) = i - nBuffer p" by (simp_all add: f)
  have t: "take (nBuffer p + n) (memcpy_at b (nBuffer p) (take n z)) = take (nBuffer p) b @ take n z"
    using n lb assms(3) by (simp add: memcpy_at_def)
  then show "take (nBuffer p + n) (the (aBuffer (fill_buffer p z i))) = take (nBuffer p) b @ take n z" by (simp add: f)
  show "demo_content C (fill_buffer p z i) = write_at (demo_content C p) (take n z) i"
  proof (cases "nBuffer p = 0")
    case True
    then show ?thesis using t n0 by (simp add: demo_content_def f)
  next
    case False
    then have i: "i - nBuffer p = iBufferOfst p" "i = iBufferOfst p + length (take (nBuffer p) b)" using assms(3,4) lb by auto
    have c: "demo_content C (fill_buffer p z i) = write_at (C (df_fd p)) (take (nBuffer p) b @ take n z) (iBufferOfst p)"
      using n0 t i(1) by (simp add: demo_content_def f)
    have d: "demo_content C p = write_at (C (df_fd p)) (take (nBuffer p) b) (iBufferOfst p)"
      using False assms(2) by (simp add: demo_content_def)
    have "write_at (demo_content C p) (take n z) (iBufferOfst p + length (take (nBuffer p) b)) = demo_content C (fill_buffer p z i)"
      unfolding c d by (rule write_at_write_at)
    then show ?thesis unfolding i(2) [symmetric] by simp
  qed
qed

text \<open>The state in which a round copies: flushed when the buffer is full or the write does not continue it.\<close>

lemma round_ok:
  assumes "demo_ok p" "aBuffer p \<noteq> None"
    "(if nBuffer p = SQLITE_DEMOVFS_BUFFERSZ \<or> iBufferOfst p + nBuffer p \<noteq> i then demoFlushBuffer px p else (0, p)) = (0, q)"
  shows "demo_ok q \<and> aBuffer q = aBuffer p \<and> nBuffer q < SQLITE_DEMOVFS_BUFFERSZ \<and> (nBuffer q = 0 \<or> iBufferOfst q + nBuffer q = i)
     \<and> (posix_ok px C pos \<longrightarrow> demo_content C q = demo_content C p)"
proof (cases "nBuffer p = SQLITE_DEMOVFS_BUFFERSZ \<or> iBufferOfst p + nBuffer p \<noteq> i")
  case True
  then have f: "demoFlushBuffer px p = (0, q)" using assms(3) by simp
  then show ?thesis using Flush_ok [OF assms(1) f] Flush_content [OF _ assms(1) f] by (auto simp: SQLITE_DEMOVFS_BUFFERSZ_def)
next
  case False
  then show ?thesis using assms demo_ok_le [OF assms(1)] by auto
qed

lemma Write_loop_ok:
  "posix_ok px C pos \<Longrightarrow> demo_ok p \<Longrightarrow> aBuffer p \<noteq> None \<Longrightarrow> demoWrite_loop px p z i = (0, q) \<Longrightarrow>
    demo_ok q \<and> aBuffer q \<noteq> None \<and> demo_content C q = (if z = [] then demo_content C p else write_at (demo_content C p) z i)"
proof (induction px p z i rule: demoWrite_loop.induct)
  case (1 px p z i)
  note prems = "1.prems"
  have le: "nBuffer p \<le> SQLITE_DEMOVFS_BUFFERSZ" by (rule demo_ok_le [OF prems(2)])
  let ?flush = "if nBuffer p = SQLITE_DEMOVFS_BUFFERSZ \<or> iBufferOfst p + nBuffer p \<noteq> i then demoFlushBuffer px p else (0, p)"
  show ?case
  proof (cases "z = []")
    case True
    have "demoWrite_loop px p z i = (0, p)" by (subst demoWrite_loop.simps) (simp add: True)
    then show ?thesis using prems True by simp
  next
    case False
    then have g: "\<not> (z = [] \<or> SQLITE_DEMOVFS_BUFFERSZ < nBuffer p)" using le by simp
    obtain rc r where f: "?flush = (rc, r)" by fastforce
    define n where "n = min (length z) (SQLITE_DEMOVFS_BUFFERSZ - nBuffer r)"
    have rc: "rc = 0" and rest: "demoWrite_loop px (fill_buffer r z i) (drop n z) (i + n) = (0, q)"
      using prems(4) g unfolding demoWrite_loop.simps [of px p z i] f by (auto simp: n_def Let_def split: if_splits)
    have r: "demo_ok r" "aBuffer r = aBuffer p" "nBuffer r < SQLITE_DEMOVFS_BUFFERSZ" "nBuffer r = 0 \<or> iBufferOfst r + nBuffer r = i"
        "demo_content C r = demo_content C p"
      using round_ok [OF prems(2,3) f [unfolded rc], of C pos] prems(1) by blast+
    obtain b where b: "aBuffer r = Some b" using prems(3) r(2) by auto
    note fill = fill_buffer_ok [OF r(1) b r(3,4) False, folded n_def]
    have IH: "demo_ok q \<and> aBuffer q \<noteq> None \<and> demo_content C q = (if drop n z = [] then demo_content C (fill_buffer r z i)
        else write_at (demo_content C (fill_buffer r z i)) (drop n z) (i + n))"
      using "1.IH" [OF g f [symmetric] _ refl] rc prems(1) fill(1,3) rest unfolding n_def by blast
    have n: "n \<le> length z" by (simp add: n_def)
    have w: "write_at (write_at (demo_content C p) (take n z) i) (drop n z) (i + n) = write_at (demo_content C p) z i"
      using write_at_write_at [of "demo_content C p" "take n z" i "drop n z"] n by (simp add: min_absorb2)
    show ?thesis
    proof (cases "drop n z = []")
      case True
      then have "take n z = z" by simp
      then show ?thesis using IH True False fill(2) [of C] r(5) by simp
    next
      case dr: False
      then show ?thesis using IH False fill(2) [of C] r(5) w by simp
    qed
  qed
qed


lemma Flush_rc: "demoFlushBuffer px p = (rc, q) \<Longrightarrow> rc = 0 \<or> rc = SQLITE_IOERR_WRITE"
  by (auto simp: demoFlushBuffer_def demoDirectWrite_def split: prod.splits if_splits)

lemma Read_ok:
  assumes "posix_ok px C pos" "demo_ok p" "demoRead px p zBuf off = (rc, d, q)" "rc = 0 \<or> rc = SQLITE_IOERR_SHORT_READ"
  shows "demo_ok q \<and> demo_content C q = demo_content C p \<and> C (df_fd q) = demo_content C p
    \<and> d = read_at (demo_content C p) (length zBuf) off @ drop (length (read_at (demo_content C p) (length zBuf) off)) zBuf
    \<and> (rc = 0 \<longleftrightarrow> length (read_at (demo_content C p) (length zBuf) off) = length zBuf)"
proof -
  obtain c r where f: "demoFlushBuffer px p = (c, r)" by fastforce
  have c: "c = 0" using assms(3,4) f Flush_rc [OF f] by (auto simp: demoRead_def result_codes split: if_splits)
  note fr = Flush_ok [OF assms(2) f] Flush_content [OF assms(1,2) f [unfolded c]]
  obtain x o1 where l: "lseek px (df_fd r) off = (x, o1)" by fastforce
  obtain n e o2 where rd: "posix_read px o1 (length zBuf) = (n, e, o2)" by (metis prod_cases3)
  have x: "x = int off" using assms(3,4) f c l by (auto simp: demoRead_def result_codes split: if_splits)
  have n: "0 \<le> n" using assms(3,4) f c l x rd by (auto simp: demoRead_def result_codes split: if_splits)
  have o: "C o2 = demo_content C p" "e = read_at (demo_content C p) (length zBuf) off" "n = int (length e)"
    using lseek_ok [OF assms(1) l] posix_read_ok [OF assms(1) rd] fr x n by auto
  have d: "d = memcpy_at zBuf 0 e" "q = r\<lparr>df_fd := o2\<rparr>" "rc = 0 \<longleftrightarrow> n = int (length zBuf)"
    using assms(3) f c l x rd n by (auto simp: demoRead_def result_codes split: if_splits)
  have "demo_ok q" using fr d(2) by (auto simp: demo_ok_def split: option.splits)
  then show ?thesis using d o fr by (simp add: demo_content_def memcpy_at_def)
qed

text \<open>Operations of a client on an open file, what they return, and what they mean on the plain content. A
  read is given the caller's buffer.\<close>

datatype vfs_op = OpWrite bytes nat | OpRead bytes nat | OpSize | OpSync
datatype vfs_result = ResDone | ResData bytes | ResSize nat



fun demo_do :: "'o posix \<Rightarrow> 'o DemoFile \<Rightarrow> vfs_op \<Rightarrow> (vfs_result \<times> 'o DemoFile) option" where
  "demo_do px p (OpWrite d off) = (case demoWrite px p d off of (rc, q) \<Rightarrow> if rc = 0 then Some (ResDone, q) else None)"
| "demo_do px p (OpRead b off) =
     (case demoRead px p b off of (rc, d, q) \<Rightarrow> if rc = 0 \<or> rc = SQLITE_IOERR_SHORT_READ then Some (ResData d, q) else None)"
| "demo_do px p OpSize = (case demoFileSize px p of (rc, n, q) \<Rightarrow> if rc = 0 then Some (ResSize (the n), q) else None)"
| "demo_do px p OpSync = (case demoSync px p of (rc, q) \<Rightarrow> if rc = 0 then Some (ResDone, q) else None)"







subsection \<open>With reliable system calls every operation succeeds\<close>

lemma DirectWrite_reliable: "posix_reliable px \<Longrightarrow> fst (demoDirectWrite px p d off) = 0"
  by (simp add: demoDirectWrite_def posix_reliable_def split: prod.split) (metis fst_conv)

lemma Flush_reliable: "posix_reliable px \<Longrightarrow> fst (demoFlushBuffer px p) = 0"
  using DirectWrite_reliable [of px p "take (nBuffer p) (the (aBuffer p))" "iBufferOfst p"]
  by (auto simp: demoFlushBuffer_def split: prod.split)

lemma Write_loop_reliable: "posix_reliable px \<Longrightarrow> fst (demoWrite_loop px p z i) = 0"
proof (induction px p z i rule: demoWrite_loop.induct)
  case (1 px p z i)
  let ?flush = "if nBuffer p = SQLITE_DEMOVFS_BUFFERSZ \<or> iBufferOfst p + nBuffer p \<noteq> i then demoFlushBuffer px p else (0, p)"
  obtain rc r where f: "?flush = (rc, r)" by fastforce
  have "fst ?flush = 0" using Flush_reliable [OF "1.prems"] by simp
  then have rc: "rc = 0" using f by simp
  show ?case
  proof (cases "z = [] \<or> SQLITE_DEMOVFS_BUFFERSZ < nBuffer p")
    case True
    then show ?thesis by (subst demoWrite_loop.simps) simp
  next
    case False
    show ?thesis
      by (subst demoWrite_loop.simps) (use "1.IH" [OF False f [symmetric] _ refl "1.prems"] False f rc in \<open>simp add: Let_def\<close>)
  qed
qed

lemma demo_do_reliable:
  assumes "posix_reliable px"
  shows "demo_do px p x \<noteq> None"
proof (cases x)
  case (OpWrite d off)
  have "fst (demoWrite px p d off) = 0"
    using Write_loop_reliable [OF assms] DirectWrite_reliable [OF assms] by (simp add: demoWrite_def)
  then show ?thesis using OpWrite by (auto split: prod.split)
next
  case (OpRead b off)
  obtain c r where f: "demoFlushBuffer px p = (c, r)" by fastforce
  have c: "c = 0" using Flush_reliable [OF assms, of p] f by simp
  obtain x o1 where l: "lseek px (df_fd r) off = (x, o1)" by fastforce
  have x: "x = int off" using assms l unfolding posix_reliable_def by (metis fst_conv)
  obtain n e o2 where rd: "posix_read px o1 (length b) = (n, e, o2)" by (metis prod_cases3)
  have "0 \<le> n" using assms rd unfolding posix_reliable_def by (metis fst_conv)
  then show ?thesis using OpRead f c l x rd by (simp add: demoRead_def)
next
  case OpSize
  obtain c r where f: "demoFlushBuffer px p = (c, r)" by fastforce
  have c: "c = 0" using Flush_reliable [OF assms, of p] f by simp
  obtain n m o1 where s: "fstat px (df_fd r) = (n, m, o1)" by (metis prod_cases3)
  have "n = 0" using assms s unfolding posix_reliable_def by (metis fst_conv)
  then show ?thesis using OpSize f c s by (simp add: demoFileSize_def)
next
  case OpSync
  obtain c r where f: "demoFlushBuffer px p = (c, r)" by fastforce
  have c: "c = 0" using Flush_reliable [OF assms, of p] f by simp
  obtain n o1 where s: "fsync px (df_fd r) = (n, o1)" by fastforce
  have "n = 0" using assms s unfolding posix_reliable_def by (metis fst_conv)
  then show ?thesis using OpSync f c s by (simp add: demoSync_def)
qed



subsection \<open>A disk that records the calls\<close>

text \<open>An instance of the system calls: a file with a position, and the list of the writes and syncs it received.\<close>

datatype io = IoWrite nat bytes | IoSync

record disk =
  dk_content :: bytes
  dk_pos :: nat
  dk_log :: "io list"

definition disk_posix :: "disk posix" where
  "disk_posix =
     \<lparr>lseek = (\<lambda>s off. (int off, s\<lparr>dk_pos := off\<rparr>)),
      posix_write = (\<lambda>s d. (int (length d), s\<lparr>dk_content := write_at (dk_content s) d (dk_pos s), dk_pos := dk_pos s + length d,
         dk_log := dk_log s @ [IoWrite (dk_pos s) d]\<rparr>)),
      posix_read = (\<lambda>s n. let d = read_at (dk_content s) n (dk_pos s) in (int (length d), d, s\<lparr>dk_pos := dk_pos s + length d\<rparr>)),
      fsync = (\<lambda>s. (0, s\<lparr>dk_log := dk_log s @ [IoSync]\<rparr>)),
      fstat = (\<lambda>s. (0, length (dk_content s), s)),
      posix_close = (\<lambda>s. s)\<rparr>"

lemma disk_posix_ok: "posix_ok disk_posix dk_content dk_pos"
  by (auto simp: posix_ok_def disk_posix_def Let_def)

lemma disk_posix_reliable: "posix_reliable disk_posix"
  by (simp add: posix_reliable_def disk_posix_def Let_def)

definition empty_disk :: disk where "empty_disk = \<lparr>dk_content = [], dk_pos = 0, dk_log = []\<rparr>"

definition fresh_buffer :: bytes where "fresh_buffer = replicate SQLITE_DEMOVFS_BUFFERSZ 0xAA"

definition journal_file :: "disk DemoFile" where
  "journal_file = \<lparr>df_fd = empty_disk, aBuffer = Some fresh_buffer, nBuffer = 0, iBufferOfst = 0\<rparr>"



text \<open>A journal file on this disk keeps the file interface.\<close>

interpretation demo: byte_file "\<lambda>p. demo_ok p \<and> aBuffer p \<noteq> None" "demo_content dk_content"
    "\<lambda>p d off. d \<noteq> [] \<or> off = length (demo_content dk_content p)" "demoWrite disk_posix" "\<lambda>p n off. demoRead disk_posix p (replicate n 0) off"
proof (unfold_locales, goal_cases)
  case (1 f d off f')
  then show ?case using Write_loop_ok [OF disk_posix_ok, of f d off f'] by (simp add: demoWrite_def)
next
  case (2 f d off f')
  then show ?case using Write_loop_ok [OF disk_posix_ok, of f d off f'] by (auto simp: demoWrite_def split: if_splits)
next
  case (4 f n off)
  let ?d = "read_at (demo_content dk_content f) n off"
  have l: "length ?d = n" using 4(3) by (simp add: read_at_def)
  have "demo_do disk_posix f (OpRead (replicate n 0) off) \<noteq> None" by (rule demo_do_reliable [OF disk_posix_reliable])
  then obtain rc d f' where r: "demoRead disk_posix f (replicate n 0) off = (rc, d, f')" "rc = 0 \<or> rc = SQLITE_IOERR_SHORT_READ"
    by (auto split: prod.splits if_splits)
  have "demo_ok f' \<and> demo_content dk_content f' = demo_content dk_content f \<and> d = ?d \<and> rc = 0"
    using Read_ok [OF disk_posix_ok _ r] 4(1) l by simp
  moreover have "aBuffer f' = aBuffer f"
  proof -
    obtain c g where fl: "demoFlushBuffer disk_posix f = (c, g)" by fastforce
    then have "aBuffer g = aBuffer f" using Flush_ok [of f disk_posix c g] 4(1) by simp
    then show ?thesis using r(1) fl by (auto simp: demoRead_def split: prod.splits if_splits)
  qed
  ultimately show ?case using r(1) 4(1) by auto
qed auto

subsection \<open>Sequential writes reach the system in aligned blocks\<close>

function aligned_writes :: "nat \<Rightarrow> bytes \<Rightarrow> io list" where
  "aligned_writes off d =
     (if d = [] then []
      else IoWrite off (take SQLITE_DEMOVFS_BUFFERSZ d) # aligned_writes (off + SQLITE_DEMOVFS_BUFFERSZ) (drop SQLITE_DEMOVFS_BUFFERSZ d))"
  by pat_completeness auto
termination by (relation "measure (\<lambda>(_, d). length d)") (auto simp: SQLITE_DEMOVFS_BUFFERSZ_def)

declare aligned_writes.simps [simp del]

lemma aligned_writes_Nil [simp]: "aligned_writes off [] = []"
  by (simp add: aligned_writes.simps [of off])

lemma bufsz_pos [simp]: "0 < SQLITE_DEMOVFS_BUFFERSZ" "SQLITE_DEMOVFS_BUFFERSZ \<noteq> 0"
  by (simp_all add: SQLITE_DEMOVFS_BUFFERSZ_def)

lemma aligned_writes_append:
  "length x = k * SQLITE_DEMOVFS_BUFFERSZ \<Longrightarrow>
    aligned_writes off (x @ y) = aligned_writes off x @ aligned_writes (off + k * SQLITE_DEMOVFS_BUFFERSZ) y"
proof (induction k arbitrary: off x)
  case (Suc k)
  let ?n = SQLITE_DEMOVFS_BUFFERSZ
  have l: "?n \<le> length x" "x \<noteq> []" using Suc.prems by auto
  have "aligned_writes off (x @ y) = IoWrite off (take ?n x) # aligned_writes (off + ?n) (drop ?n x @ y)"
    using l by (simp add: aligned_writes.simps [of off "x @ y"])
  also have "\<dots> = IoWrite off (take ?n x) # aligned_writes (off + ?n) (drop ?n x) @ aligned_writes (off + ?n + k * ?n) y"
    using Suc.IH [of "drop ?n x" "off + ?n"] Suc.prems by simp
  also have "\<dots> = aligned_writes off x @ aligned_writes (off + Suc k * ?n) y"
    using l by (simp add: aligned_writes.simps [of off x] ac_simps)
  finally show ?case .
qed simp

lemma aligned_writes_one:
  "d \<noteq> [] \<Longrightarrow> length d \<le> SQLITE_DEMOVFS_BUFFERSZ \<Longrightarrow> aligned_writes off d = [IoWrite off d]"
  by (simp add: aligned_writes.simps [of off d])

text \<open>After the bytes \<open>d\<close> were written from the start of the journal on, full blocks are on the disk and the
  rest, at most one block, is in the buffer.\<close>

definition seq_state :: "disk DemoFile \<Rightarrow> bytes \<Rightarrow> nat \<Rightarrow> bool" where
  "seq_state p d k \<longleftrightarrow>
     (\<exists>b. aBuffer p = Some b \<and> length b = SQLITE_DEMOVFS_BUFFERSZ \<and> take (nBuffer p) b = drop (k * SQLITE_DEMOVFS_BUFFERSZ) d)
   \<and> length d = k * SQLITE_DEMOVFS_BUFFERSZ + nBuffer p \<and> nBuffer p \<le> SQLITE_DEMOVFS_BUFFERSZ \<and> (nBuffer p = 0 \<longrightarrow> d = [])
   \<and> iBufferOfst p = k * SQLITE_DEMOVFS_BUFFERSZ \<and> dk_log (df_fd p) = aligned_writes 0 (take (k * SQLITE_DEMOVFS_BUFFERSZ) d)"

lemma disk_flush:
  assumes "nBuffer p \<noteq> 0" "aBuffer p = Some b" "nBuffer p \<le> length b"
  shows "\<exists>s. demoFlushBuffer disk_posix p = (0, p\<lparr>df_fd := s, nBuffer := 0\<rparr>)
    \<and> dk_log s = dk_log (df_fd p) @ [IoWrite (iBufferOfst p) (take (nBuffer p) b)]"
  by (rule exI [of _ "(df_fd p)\<lparr>dk_content := write_at (dk_content (df_fd p)) (take (nBuffer p) b) (iBufferOfst p),
        dk_pos := iBufferOfst p + nBuffer p, dk_log := dk_log (df_fd p) @ [IoWrite (iBufferOfst p) (take (nBuffer p) b)]\<rparr>"])
     (use assms in \<open>simp add: demoFlushBuffer_def demoDirectWrite_def disk_posix_def\<close>)

lemma seq_flush:
  assumes "seq_state p d k" "d \<noteq> []"
  shows "\<exists>s. demoFlushBuffer disk_posix p = (0, p\<lparr>df_fd := s, nBuffer := 0\<rparr>) \<and> dk_log s = aligned_writes 0 d"
proof -
  let ?n = SQLITE_DEMOVFS_BUFFERSZ
  obtain b where b: "aBuffer p = Some b" "length b = ?n" "take (nBuffer p) b = drop (k * ?n) d" using assms(1) by (auto simp: seq_state_def)
  have p: "length d = k * ?n + nBuffer p" "nBuffer p \<le> ?n" "nBuffer p \<noteq> 0" "iBufferOfst p = k * ?n"
      "dk_log (df_fd p) = aligned_writes 0 (take (k * ?n) d)"
    using assms by (auto simp: seq_state_def)
  have l: "length (drop (k * ?n) d) \<le> ?n" "drop (k * ?n) d \<noteq> []" using p by auto
  have "aligned_writes 0 d = aligned_writes 0 (take (k * ?n) d @ drop (k * ?n) d)" by simp
  also have "\<dots> = aligned_writes 0 (take (k * ?n) d) @ aligned_writes (0 + k * ?n) (drop (k * ?n) d)"
    by (rule aligned_writes_append) (use p in simp)
  also have "\<dots> = aligned_writes 0 (take (k * ?n) d) @ [IoWrite (k * ?n) (drop (k * ?n) d)]"
    using aligned_writes_one [OF l(2,1)] by simp
  finally show ?thesis using disk_flush [of p b] b p by auto
qed

lemma seq_fill:
  assumes "aBuffer q = Some b" "length b = SQLITE_DEMOVFS_BUFFERSZ" "take (nBuffer q) b = drop (k * SQLITE_DEMOVFS_BUFFERSZ) d"
    "length d = k * SQLITE_DEMOVFS_BUFFERSZ + nBuffer q" "nBuffer q < SQLITE_DEMOVFS_BUFFERSZ"
    "dk_log (df_fd q) = aligned_writes 0 (take (k * SQLITE_DEMOVFS_BUFFERSZ) d)" "z \<noteq> []"
    "nBuffer q = 0 \<or> iBufferOfst q + nBuffer q = length d"
  defines "n \<equiv> min (length z) (SQLITE_DEMOVFS_BUFFERSZ - nBuffer q)"
  shows "seq_state (fill_buffer q z (length d)) (d @ take n z) k"
proof -
  have ok: "demo_ok q" using assms(1,2,5) by (simp add: demo_ok_def)
  note f = fill_buffer_ok [OF ok assms(1,5,8,7), folded n_def]
  have n: "n \<le> length z" "nBuffer q + n \<le> SQLITE_DEMOVFS_BUFFERSZ" using assms(5) by (simp_all add: n_def)
  obtain b' where b': "aBuffer (fill_buffer q z (length d)) = Some b'" using f(3) by auto
  have "length b' = SQLITE_DEMOVFS_BUFFERSZ" using f(1) b' by (simp add: demo_ok_def)
  then show ?thesis using f b' n assms(3,4,6) by (simp add: seq_state_def)
qed

lemma seq_write:
  "seq_state p d k \<Longrightarrow> \<exists>q k. demoWrite_loop disk_posix p z (length d) = (0, q) \<and> seq_state q (d @ z) k"
proof (induction "length z" arbitrary: p d k z rule: less_induct)
  case less
  let ?n = SQLITE_DEMOVFS_BUFFERSZ
  obtain b where b: "aBuffer p = Some b" "length b = ?n" "take (nBuffer p) b = drop (k * ?n) d" using less.prems by (auto simp: seq_state_def)
  have p: "length d = k * ?n + nBuffer p" "nBuffer p \<le> ?n" "iBufferOfst p = k * ?n"
      "dk_log (df_fd p) = aligned_writes 0 (take (k * ?n) d)"
    using less.prems by (auto simp: seq_state_def)
  show ?case
  proof (cases "z = []")
    case True
    then show ?thesis using less.prems by (subst demoWrite_loop.simps) auto
  next
    case False
    let ?flush = "if nBuffer p = ?n \<or> iBufferOfst p + nBuffer p \<noteq> length d then demoFlushBuffer disk_posix p else (0, p)"
    obtain q k' where q: "?flush = (0, q)" "nBuffer q < ?n"
        "seq_state (fill_buffer q z (length d)) (d @ take (min (length z) (?n - nBuffer q)) z) k'"
    proof (cases "nBuffer p = ?n")
      case True
      then have "d \<noteq> []" using p(1) by (metis add_is_0 bufsz_pos list.size(3) not_less0)
      obtain s where s: "demoFlushBuffer disk_posix p = (0, p\<lparr>df_fd := s, nBuffer := 0\<rparr>)" "dk_log s = aligned_writes 0 d"
        using seq_flush [OF less.prems \<open>d \<noteq> []\<close>] by blast
      have l: "length d = Suc k * ?n" using p(1) True by simp
      show ?thesis
      proof (rule that)
        show "?flush = (0, p\<lparr>df_fd := s, nBuffer := 0\<rparr>)" using s True by simp
        show "seq_state (fill_buffer (p\<lparr>df_fd := s, nBuffer := 0\<rparr>) z (length d))
            (d @ take (min (length z) (?n - nBuffer (p\<lparr>df_fd := s, nBuffer := 0\<rparr>))) z) (Suc k)"
          by (rule seq_fill) (use b l s False in simp_all)
      qed simp
    next
      case nf: False
      show ?thesis
      proof (rule that)
        show "?flush = (0, p)" using nf p by simp
        show "seq_state (fill_buffer p z (length d)) (d @ take (min (length z) (?n - nBuffer p)) z) k"
          by (rule seq_fill) (use b p nf False in simp_all)
      qed (use nf p in simp)
    qed
    define n where "n = min (length z) (?n - nBuffer q)"
    have n: "0 < n" "n \<le> length z" using q(2) False by (simp_all add: n_def)
    have w: "demoWrite_loop disk_posix p z (length d) = demoWrite_loop disk_posix (fill_buffer q z (length d)) (drop n z) (length d + n)"
      using False p(2) by (subst demoWrite_loop.simps) (simp add: q(1) n_def Let_def)
    have l: "length (d @ take n z) = length d + n" using n by simp
    have "length (drop n z) < length z" using n False by simp
    from less.hyps [OF this q(3) [folded n_def]] show ?thesis unfolding w l by simp
  qed
qed

lemma seq_append:
  "seq_state p d k \<Longrightarrow> \<exists>q k. append_all (demoWrite disk_posix) p (length d) ds = (0, q) \<and> seq_state q (d @ concat ds) k"
proof (induction ds arbitrary: p d k)
  case (Cons x xs)
  obtain q k' where q: "demoWrite_loop disk_posix p x (length d) = (0, q)" "seq_state q (d @ x) k'" using seq_write [OF Cons.prems] by blast
  have "aBuffer p \<noteq> None" using Cons.prems by (auto simp: seq_state_def)
  then have "demoWrite disk_posix p x (length d) = (0, q)" using q(1) by (simp add: demoWrite_def)
  then show ?case using Cons.IH [OF q(2)] by simp
qed auto

text \<open>C11: The write buffer does what the overview of the file promises: a journal written sequentially, in
  pieces of any size, reaches the operating system as whole blocks of \<open>SQLITE_DEMOVFS_BUFFERSZ\<close> bytes at
  multiples of that size, with one shorter block at the end when the journal is synced.\<close>

theorem demo_journal_aligned:
  "fst (append_all (demoWrite disk_posix) journal_file 0 ds) = 0
   \<and> dk_log (df_fd (snd (demoSync disk_posix (snd (append_all (demoWrite disk_posix) journal_file 0 ds)))))
       = aligned_writes 0 (concat ds) @ [IoSync]"
proof -
  have "seq_state journal_file [] 0" by (simp add: seq_state_def journal_file_def fresh_buffer_def empty_disk_def)
  from seq_append [OF this, of ds] obtain q k where q: "append_all (demoWrite disk_posix) journal_file 0 ds = (0, q)" "seq_state q (concat ds) k" by auto
  have "dk_log (df_fd (snd (demoSync disk_posix q))) = aligned_writes 0 (concat ds) @ [IoSync]"
  proof (cases "concat ds = []")
    case True
    then have "demoFlushBuffer disk_posix q = (0, q)" "dk_log (df_fd q) = []"
      using q(2) [unfolded True] by (auto simp: seq_state_def demoFlushBuffer_def)
    then show ?thesis unfolding True by (simp add: demoSync_def disk_posix_def)
  next
    case False
    obtain s where s: "demoFlushBuffer disk_posix q = (0, q\<lparr>df_fd := s, nBuffer := 0\<rparr>)" "dk_log s = aligned_writes 0 (concat ds)"
      using seq_flush [OF q(2) False] by blast
    then show ?thesis by (simp add: demoSync_def disk_posix_def)
  qed
  then show ?thesis using q(1) by simp
qed

text \<open>The example of the overview: eleven writes of 12824 bytes in all become two.\<close>

lemma overview_example:
  assumes "length d = 12824"
  shows "aligned_writes 0 d = [IoWrite 0 (take 8192 d), IoWrite 8192 (drop 8192 d)] \<and> length (drop 8192 d) = 4632"
proof -
  have "aligned_writes 8192 (drop 8192 d) = [IoWrite 8192 (drop 8192 d)]"
    by (rule aligned_writes_one) (use assms in \<open>auto simp: SQLITE_DEMOVFS_BUFFERSZ_def\<close>)
  then show ?thesis using assms by (subst aligned_writes.simps) (auto simp: SQLITE_DEMOVFS_BUFFERSZ_def)
qed

subsection \<open>Where the code departs from the interface of a VFS\<close>

text \<open>A short read leaves the bytes behind the end of the file as the caller's buffer had them, while
  \<open>xRead\<close> must fill them with zeros.\<close>

theorem demoRead_short_keeps_tail:
  assumes "posix_ok px C pos" "demo_ok p" "demoRead px p zBuf off = (SQLITE_IOERR_SHORT_READ, d, q)"
  shows "length (demo_content C p) < off + length zBuf
    \<and> d = read_at (demo_content C p) (length zBuf) off @ drop (length (demo_content C p) - off) zBuf"
proof -
  have r: "d = read_at (demo_content C p) (length zBuf) off @ drop (length (read_at (demo_content C p) (length zBuf) off)) zBuf"
    "length (read_at (demo_content C p) (length zBuf) off) \<noteq> length zBuf"
    using Read_ok [OF assms] by (auto simp: result_codes)
  have l: "length (read_at (demo_content C p) (length zBuf) off) = min (length (demo_content C p) - off) (length zBuf)" by (simp add: read_at_def)
  then have "length (demo_content C p) - off < length zBuf" using r(2) by linarith
  then show ?thesis using r(1) l by auto
qed

theorem demoRead_short_keeps_tail_witness:
  "\<exists>q. demoRead disk_posix (journal_file\<lparr>df_fd := \<lparr>dk_content = [5], dk_pos = 0, dk_log = []\<rparr>\<rparr>) [9, 9] 0 = (SQLITE_IOERR_SHORT_READ, [5, 9], q)"
proof -
  let ?p = "journal_file\<lparr>df_fd := \<lparr>dk_content = [5], dk_pos = 0, dk_log = []\<rparr>\<rparr>"
  have ok: "demo_ok ?p" "demo_content dk_content ?p = [5]"
    by (simp_all add: demo_ok_def journal_file_def fresh_buffer_def demo_content_def)
  obtain d q where r: "demoRead disk_posix ?p [9, 9] 0 = (SQLITE_IOERR_SHORT_READ, d, q)"
    by (simp add: demoRead_def demoFlushBuffer_def journal_file_def disk_posix_def read_at_def Let_def)
  then have "d = [5, 9]" using demoRead_short_keeps_tail [OF disk_posix_ok ok(1) r] ok(2) by (simp add: read_at_def)
  then show ?thesis using r by blast
qed

lemma dir_scan_ge: "dir_scan z i = Some j \<Longrightarrow> i \<le> j"
proof (induction z i rule: dir_scan.induct)
  case (1 z i)
  show ?case using "1.prems" "1.IH" by (cases "1 < i \<and> \<not> length z \<le> i \<and> z ! i \<noteq> 0x2F") (auto simp: dir_scan.simps [of z i] split: if_splits)
qed

lemma cstr_append: "0 \<notin> set z \<Longrightarrow> cstr (z @ 0 # r) = z"
  by (induction z) (auto simp: cstr_def)

lemma dir_name_whole:
  assumes "length junk = MAXPATHNAME + 1" "0 \<notin> set zPath" "length zPath < MAXPATHNAME"
  shows "dir_name junk zPath = None \<or> dir_name junk zPath = Some zPath"
proof (cases "dir_scan (dir_buffer junk zPath) (length (cstr (dir_buffer junk zPath)))")
  case None
  then show ?thesis by (simp add: dir_name_def Let_def)
next
  case (Some j)
  obtain r where r: "dir_buffer junk zPath = zPath @ 0 # r"
  proof
    have "take (MAXPATHNAME - 1) zPath = zPath" using assms(3) by simp
    then have "dir_buffer junk zPath = (zPath @ 0 # drop (Suc (length zPath)) junk)[MAXPATHNAME := 0]"
      by (simp add: dir_buffer_def memcpy_at_def)
    moreover have "MAXPATHNAME - length zPath = Suc (MAXPATHNAME - Suc (length zPath))" using assms(3) by simp
    ultimately show "dir_buffer junk zPath = zPath @ 0 # (drop (Suc (length zPath)) junk)[MAXPATHNAME - Suc (length zPath) := 0]"
      using assms(3) by (simp add: list_update_append)
  qed
  have c: "cstr (dir_buffer junk zPath) = zPath" unfolding r by (rule cstr_append [OF assms(2)])
  have j: "length zPath \<le> j" using dir_scan_ge [OF Some] c by simp
  have "\<exists>r'. (dir_buffer junk zPath)[j := 0] = zPath @ 0 # r'"
    using j by (cases "j - length zPath") (simp_all add: r list_update_append)
  then have "cstr ((dir_buffer junk zPath)[j := 0]) = zPath" using cstr_append [OF assms(2)] by auto
  then show ?thesis using Some by (simp add: dir_name_def Let_def)
qed

text \<open>Deleting a file with \<open>dirSync\<close> never syncs its directory: the search for the last slash runs upwards
  from the end of the path, so it leaves the array or ends behind the path, and the name that is opened
  is the path of the file just deleted; the deletion then reports an error unless that can be synced.\<close>

theorem demoDelete_misses_directory:
  assumes "length junk = MAXPATHNAME + 1" "0 \<notin> set zPath" "length zPath < MAXPATHNAME"
  shows "(dir_name junk zPath = None \<or> dir_name junk zPath = Some zPath)
    \<and> (sync_dir zPath = None \<longrightarrow> demoDelete (0, e) sync_dir junk zPath True \<in> {None, Some SQLITE_IOERR_DELETE})"
  using dir_name_whole [OF assms] by (auto simp: demoDelete_def)

theorem demoDelete_misses_directory_witness:
  "demoDelete (0, False) (\<lambda>d. if d = [0x2F, 0x74] then Some 0 else None) (replicate (MAXPATHNAME + 1) 0x2F) [0x2F, 0x74, 0x2F, 0x61] True = Some SQLITE_IOERR_DELETE"
proof -
  let ?z = "[0x2F, 0x74, 0x2F, 0x61] :: bytes" and ?j = "replicate (MAXPATHNAME + 1) 0x2F :: bytes" and ?s = "\<lambda>d :: bytes. if d = [0x2F, 0x74] then Some (0 :: int) else None"
  have "demoDelete (0, False) ?s ?j ?z True \<in> {None, Some SQLITE_IOERR_DELETE}"
    using demoDelete_misses_directory [of ?j ?z ?s False] by (simp add: MAXPATHNAME_def)
  moreover have "dir_name ?j ?z \<noteq> None"
  proof -
    have j: "dir_buffer ?j ?z = ([0x2F, 0x74, 0x2F, 0x61, 0] @ replicate (MAXPATHNAME - 4) 0x2F)[MAXPATHNAME := 0]"
      by (simp add: dir_buffer_def memcpy_at_def MAXPATHNAME_def)
    have "dir_buffer ?j ?z ! 5 = 0x2F" "length (dir_buffer ?j ?z) = MAXPATHNAME + 1" "dir_buffer ?j ?z ! 4 = 0"
      unfolding j by (simp_all add: nth_append MAXPATHNAME_def)
    moreover have c: "cstr (dir_buffer ?j ?z) = ?z"
      unfolding j by (simp add: cstr_def MAXPATHNAME_def list_update_append)
    moreover from calculation have "dir_scan (dir_buffer ?j ?z) 5 = Some 5" by (subst dir_scan.simps) (simp add: MAXPATHNAME_def)
    ultimately have four: "dir_scan (dir_buffer ?j ?z) 4 = Some 5"
      by (subst dir_scan.simps) (simp add: MAXPATHNAME_def)
    have "length (cstr (dir_buffer ?j ?z)) = 4" unfolding c by simp
    then show ?thesis unfolding dir_name_def Let_def using four by (metis option.simps(9) option.distinct(1))
  qed
  ultimately show ?thesis by (auto simp: demoDelete_def)
qed

end
