(* ===== verification/Like.thy ===== *)
theory Like
  imports Utf_Translate
begin

section \<open>LIKE and GLOB (func.c)\<close>

text \<open>
  The pattern matcher behind the operators LIKE and GLOB, on UTF-8 texts. A pointer into a text is
  an offset in its bytes; the byte at the end of the text reads as zero. The pointer \<open>zEscaped\<close> is
  compared with \<open>zPattern\<close> only in the round of the loop that sets it, so the model keeps a flag.
\<close>

record compareInfo =
  matchAll :: u8
  matchOne :: u8
  matchSet :: u8
  noCase :: bool

definition globInfo :: compareInfo where "globInfo = \<lparr>matchAll = 0x2A, matchOne = 0x3F, matchSet = 0x5B, noCase = False\<rparr>"
definition likeInfoNorm :: compareInfo where "likeInfoNorm = \<lparr>matchAll = 0x25, matchOne = 0x5F, matchSet = 0, noCase = True\<rparr>"
definition likeInfoAlt :: compareInfo where "likeInfoAlt = \<lparr>matchAll = 0x25, matchOne = 0x5F, matchSet = 0, noCase = False\<rparr>"

definition SQLITE_MATCH :: nat where "SQLITE_MATCH = 0"
definition SQLITE_NOMATCH :: nat where "SQLITE_NOMATCH = 1"
definition SQLITE_NOWILDCARDMATCH :: nat where "SQLITE_NOWILDCARDMATCH = 2"

lemmas match_codes = SQLITE_MATCH_def SQLITE_NOMATCH_def SQLITE_NOWILDCARDMATCH_def

definition Utf8Read :: "bytes \<Rightarrow> nat \<Rightarrow> u32 \<times> nat" where
  "Utf8Read z i = (if byte_at z i < 0x80 then (ucast (byte_at z i), i + 1) else sqlite3Utf8Read z i)"

lemma utf8_cont_ge: "i \<le> snd (utf8_cont z n i c)"
proof (induction z n i c rule: utf8_cont.induct)
  case (1 z n i c)
  then show ?case by (subst utf8_cont.simps) auto
qed

lemma sqlite3Utf8Read_gt: "i < snd (sqlite3Utf8Read z i)"
  using utf8_cont_ge [of "i + 1" z "length z"] by (auto simp: sqlite3Utf8Read_def Let_def split: prod.split) (metis Suc_le_lessD snd_conv)

lemma Utf8Read_gt: "i < snd (Utf8Read z i)"
  using sqlite3Utf8Read_gt by (simp add: Utf8Read_def)

lemma Utf8Read_end: "fst (Utf8Read z i) \<noteq> 0 \<Longrightarrow> i < length z"
  by (auto simp: Utf8Read_def sqlite3Utf8Read_def byte_at_def split: if_splits)

lemma sqlite3Utf8Read_end: "fst (sqlite3Utf8Read z i) \<noteq> 0 \<Longrightarrow> i < length z"
  by (auto simp: sqlite3Utf8Read_def byte_at_def split: if_splits)

lemma Utf8Read_next: "(c, i') = Utf8Read z i \<Longrightarrow> i < i' \<and> (c \<noteq> 0 \<longrightarrow> i < length z)"
  using Utf8Read_gt [of i z] Utf8Read_end [of z i] by (metis fst_conv snd_conv)

lemma sqlite3Utf8Read_next: "(c, i') = sqlite3Utf8Read z i \<Longrightarrow> i < i' \<and> (c \<noteq> 0 \<longrightarrow> i < length z)"
  using sqlite3Utf8Read_gt [of i z] sqlite3Utf8Read_end [of z i] by (metis fst_conv snd_conv)

text \<open>The loop that skips \<open>*\<close> and \<open>?\<close> behind a \<open>*\<close>; \<open>None\<close> when the string is too short. The C code calls it
  with \<open>matchAll\<close> different from zero, so the first character that is neither ends it.\<close>

function star_skip :: "bytes \<Rightarrow> nat \<Rightarrow> bytes \<Rightarrow> nat \<Rightarrow> compareInfo \<Rightarrow> (u32 \<times> nat \<times> nat) option" where
  "star_skip zP i zS j info =
     (let (c, i') = Utf8Read zP i in
      if c \<noteq> 0 \<and> (c = ucast (matchAll info) \<or> c = ucast (matchOne info)) then
        (if c = ucast (matchOne info) then
           (let (c2, j') = sqlite3Utf8Read zS j in if c2 = 0 then None else star_skip zP i' zS j' info)
         else star_skip zP i' zS j info)
      else Some (c, i', j))"
  by pat_completeness auto
termination
proof (relation "measure (\<lambda>(zP, i, _). length zP - i)", goal_cases)
  case (2 zP i zS j info x c i' y c2 j')
  have "i < i' \<and> i < length zP" using Utf8Read_next [of c i' zP i] 2 by simp
  then show ?case by auto
next
  case (3 zP i zS j info x c i')
  have "i < i' \<and> i < length zP" using Utf8Read_next [of c i' zP i] 3 by simp
  then show ?case by auto
qed simp

declare star_skip.simps [simp del]

text \<open>The three searches for a position in the string behind a \<open>*\<close>; \<open>m\<close> is the recursive match from a position.\<close>

function search_set :: "(nat \<Rightarrow> nat) \<Rightarrow> bytes \<Rightarrow> nat \<Rightarrow> nat" where
  "search_set m zS j =
     (if byte_at zS j = 0 then SQLITE_NOWILDCARDMATCH
      else (let bMatch = m j in if bMatch \<noteq> SQLITE_NOMATCH then bMatch else search_set m zS (SQLITE_SKIP_UTF8 zS j)))"
  by pat_completeness auto
termination
proof (relation "measure (\<lambda>(_, zS, j). length zS - j)", goal_cases)
  case (2 m zS j x)
  then have "j < length zS" by (auto simp: byte_at_def split: if_splits)
  then show ?case using SKIP_UTF8_gt [of j zS] by simp
qed simp

declare search_set.simps [simp del]

function strcspn :: "bytes \<Rightarrow> nat \<Rightarrow> u8 list \<Rightarrow> nat" where
  "strcspn z j stop = (if byte_at z j = 0 \<or> byte_at z j \<in> set stop then 0 else 1 + strcspn z (j + 1) stop)"
  by pat_completeness auto
termination
proof (relation "measure (\<lambda>(z, j, _). length z - j)", goal_cases)
  case (2 z j stop)
  then have "j < length z" by (auto simp: byte_at_def split: if_splits)
  then show ?case by simp
qed simp

declare strcspn.simps [simp del]

function search_stop :: "(nat \<Rightarrow> nat) \<Rightarrow> u8 list \<Rightarrow> bytes \<Rightarrow> nat \<Rightarrow> nat" where
  "search_stop m stop zS j =
     (let j = j + strcspn zS j stop in
      if byte_at zS j = 0 then SQLITE_NOWILDCARDMATCH
      else (let bMatch = m (j + 1) in if bMatch \<noteq> SQLITE_NOMATCH then bMatch else search_stop m stop zS (j + 1)))"
  by pat_completeness auto
termination
proof (relation "measure (\<lambda>(_, _, zS, j). length zS - j)", goal_cases)
  case (2 m stop zS j x)
  then have "x < length zS" "j \<le> x" by (auto simp: byte_at_def split: if_splits)
  then show ?case by simp
qed simp

declare search_stop.simps [simp del]

function search_char :: "(nat \<Rightarrow> nat) \<Rightarrow> u32 \<Rightarrow> bytes \<Rightarrow> nat \<Rightarrow> nat" where
  "search_char m c zS j =
     (let (c2, j') = Utf8Read zS j in
      if c2 = 0 then SQLITE_NOWILDCARDMATCH
      else if c2 \<noteq> c then search_char m c zS j'
      else (let bMatch = m j' in if bMatch \<noteq> SQLITE_NOMATCH then bMatch else search_char m c zS j'))"
  by pat_completeness auto
termination
proof (relation "measure (\<lambda>(_, _, zS, j). length zS - j)", goal_cases)
  case (2 m c zS j x c2 j')
  have "j < j' \<and> j < length zS" using Utf8Read_next [of c2 j' zS j] 2 by simp
  then show ?case by auto
next
  case (3 m c zS j x c2 j' bMatch)
  have "j < j' \<and> j < length zS" using Utf8Read_next [of c2 j' zS j] 3 by simp
  then show ?case by auto
qed simp

declare search_char.simps [simp del]

text \<open>The scan of a character set for the character \<open>c\<close>: \<open>c2\<close> on exit, the position and whether \<open>c\<close> was seen.\<close>

function set_scan :: "bytes \<Rightarrow> u32 \<Rightarrow> u32 \<Rightarrow> nat \<Rightarrow> u32 \<Rightarrow> bool \<Rightarrow> u32 \<times> nat \<times> bool" where
  "set_scan zP c c2 i prior_c seen =
     (if c2 \<noteq> 0 \<and> c2 \<noteq> 0x5D then
        (if c2 = 0x2D \<and> byte_at zP i \<noteq> 0x5D \<and> byte_at zP i \<noteq> 0 \<and> 0 < prior_c then
           (let (c2, i1) = sqlite3Utf8Read zP i; (c3, i2) = sqlite3Utf8Read zP i1
            in set_scan zP c c3 i2 0 (seen \<or> prior_c \<le> c \<and> c \<le> c2))
         else
           (let (c3, i1) = sqlite3Utf8Read zP i in set_scan zP c c3 i1 c2 (seen \<or> c = c2)))
      else (c2, i, seen))"
  by pat_completeness auto
termination
proof (relation "measure (\<lambda>(zP, _, c2, i, _). if c2 = 0 then 0 else Suc (length zP - i))", goal_cases)
  case (2 zP c c2 i prior_c seen x c2' i1 y c3 i2)
  have "i < i1" "i1 < i2" using sqlite3Utf8Read_next [of c2' i1 zP i] sqlite3Utf8Read_next [of c3 i2 zP i1] 2 by simp_all
  moreover have "i < length zP" using 2(2) by (auto simp: byte_at_def split: if_splits)
  ultimately show ?case using 2(1) by auto
next
  case (3 zP c c2 i prior_c seen x c3 i1)
  have "i < i1 \<and> (c3 \<noteq> 0 \<longrightarrow> i < length zP)" using sqlite3Utf8Read_next [of c3 i1 zP i] 3 by simp
  then show ?case using 3(1) by auto
qed simp

declare set_scan.simps [simp del]


text \<open>The head of a character set: \<open>^\<close> and a \<open>]\<close> that stands first.\<close>

definition match_set :: "bytes \<Rightarrow> nat \<Rightarrow> u32 \<Rightarrow> bool \<times> nat" where
  "match_set zP i c =
     (let (c2, i) = sqlite3Utf8Read zP i;
          invert = (c2 = 0x5E);
          (c2, i) = (if c2 = 0x5E then sqlite3Utf8Read zP i else (c2, i));
          seen = (c2 = 0x5D \<and> c = 0x5D);
          (c2, i) = (if c2 = 0x5D then sqlite3Utf8Read zP i else (c2, i));
          (c2, i, seen) = set_scan zP c c2 i 0 seen
      in (\<not> (c2 = 0 \<or> seen = invert), i))"

lemma set_scan_ge: "i \<le> fst (snd (set_scan zP c c2 i p seen))"
proof (induction zP c c2 i p seen rule: set_scan.induct)
  case (1 zP c c2 i p seen)
  obtain d i1 where d: "sqlite3Utf8Read zP i = (d, i1)" by fastforce
  obtain e i2 where e: "sqlite3Utf8Read zP i1 = (e, i2)" by fastforce
  have lt: "i < i1" "i1 < i2" using sqlite3Utf8Read_gt [of i zP] sqlite3Utf8Read_gt [of i1 zP] d e by simp_all
  show ?case
  proof (cases "c2 \<noteq> 0 \<and> c2 \<noteq> 0x5D")
    case t: True
    show ?thesis
    proof (cases "c2 = 0x2D \<and> byte_at zP i \<noteq> 0x5D \<and> byte_at zP i \<noteq> 0 \<and> 0 < p")
      case True
      then show ?thesis using "1.IH"(1) [OF t True refl d [symmetric] refl e [symmetric]] lt d e t
        by (subst set_scan.simps) simp
    next
      case False
      then show ?thesis using "1.IH"(2) [OF t False refl d [symmetric]] lt d t
        by (subst set_scan.simps) (simp only: Let_def prod.case if_False, simp)
    qed
  next
    case False
    then show ?thesis by (subst set_scan.simps) auto
  qed
qed

lemma match_set_gt: "i < snd (match_set zP i c)"
proof -
  let ?r = "sqlite3Utf8Read zP"
  obtain c2 i1 where 1: "?r i = (c2, i1)" by fastforce
  obtain c3 i2 where 2: "(if c2 = 0x5E then ?r i1 else (c2, i1)) = (c3, i2)" by fastforce
  obtain c4 i3 where 3: "(if c3 = 0x5D then ?r i2 else (c3, i2)) = (c4, i3)" by fastforce
  have "i < i1" using sqlite3Utf8Read_gt [of i zP] 1 by simp
  also have "i1 \<le> i2" using sqlite3Utf8Read_gt [of i1 zP] 2 by (auto split: if_splits)
  also have "i2 \<le> i3" using sqlite3Utf8Read_gt [of i2 zP] 3 by (auto split: if_splits)
  also have "i3 \<le> fst (snd (set_scan zP c c4 i3 0 (c3 = 0x5D \<and> c = 0x5D)))" by (rule set_scan_ge)
  finally show ?thesis unfolding match_set_def Let_def 1 prod.case 2 3 by (auto split: prod.split)
qed

lemma star_skip_gt: "star_skip zP i zS j info = Some (c, i', j') \<Longrightarrow> i < i'"
proof (induction zP i zS j info rule: star_skip.induct)
  case (1 zP i zS j info)
  obtain d i1 where d: "Utf8Read zP i = (d, i1)" by fastforce
  obtain e j1 where e: "sqlite3Utf8Read zS j = (e, j1)" by fastforce
  have lt: "i < i1" using Utf8Read_gt [of i zP] d by simp
  show ?case
  proof (cases "d \<noteq> 0 \<and> (d = ucast (matchAll info) \<or> d = ucast (matchOne info))")
    case t: True
    show ?thesis
    proof (cases "d = ucast (matchOne info)")
      case True
      show ?thesis
        using "1.prems" "1.IH"(1) [OF d [symmetric] refl t True e [symmetric] refl] lt t True d e
        by (subst (asm) star_skip.simps) (simp split: if_splits)
    next
      case False
      show ?thesis
        using "1.prems" "1.IH"(2) [OF d [symmetric] refl t False] lt t False d
        by (subst (asm) star_skip.simps) simp
    qed
  next
    case False
    then show ?thesis using "1.prems" lt d by (subst (asm) star_skip.simps) auto
  qed
qed

text \<open>The matcher. A round of its loop reads a character of the pattern; every call and every further round
  starts behind it.\<close>

definition stop_bytes :: "compareInfo \<Rightarrow> u32 \<Rightarrow> u8 list" where
  "stop_bytes info c = (if noCase info then [sqlite3Toupper (ucast c), UpperToLower (ucast c)] else [ucast c])"

definition same_char :: "compareInfo \<Rightarrow> u32 \<Rightarrow> u32 \<Rightarrow> bool" where
  "same_char info c c2 \<longleftrightarrow> c = c2 \<or> noCase info \<and> UpperToLower (ucast c) = UpperToLower (ucast c2) \<and> c < 0x80 \<and> c2 < 0x80"


function patternCompare :: "compareInfo \<Rightarrow> u32 \<Rightarrow> bytes \<Rightarrow> nat \<Rightarrow> bytes \<Rightarrow> nat \<Rightarrow> nat" where
  "patternCompare info matchOther zP i zS j =
     (let (c, i1) = Utf8Read zP i in
      if c = 0 then (if byte_at zS j = 0 then SQLITE_MATCH else SQLITE_NOMATCH)
      else if c = ucast (matchAll info) then
        (case star_skip zP i1 zS j info of None \<Rightarrow> SQLITE_NOWILDCARDMATCH
         | Some (c, i2, j2) \<Rightarrow>
             if c = 0 then SQLITE_MATCH
             else if c = matchOther \<and> matchSet info \<noteq> 0 then
               search_set (patternCompare info matchOther zP (i2 - 1) zS) zS j2
             else
               (let (c, i3) = (if c = matchOther then sqlite3Utf8Read zP i2 else (c, i2)) in
                if c = 0 then SQLITE_NOWILDCARDMATCH
                else if c < 0x80 then
                  search_stop (patternCompare info matchOther zP i3 zS) (stop_bytes info c) zS j2
                else search_char (patternCompare info matchOther zP i3 zS) c zS j2))
      else if c = matchOther \<and> matchSet info \<noteq> 0 then
        (let (c, j1) = sqlite3Utf8Read zS j in
         if c = 0 then SQLITE_NOMATCH
         else (let (ok, i2) = match_set zP i1 c in
               if ok then patternCompare info matchOther zP i2 zS j1 else SQLITE_NOMATCH))
      else
        (let escaped = (c = matchOther);
             (c, i2) = (if escaped then sqlite3Utf8Read zP i1 else (c, i1)) in
         if c = 0 then SQLITE_NOMATCH
         else
           (let (c2, j1) = Utf8Read zS j in
            if same_char info c c2 \<or> c = ucast (matchOne info) \<and> \<not> escaped \<and> c2 \<noteq> 0
            then patternCompare info matchOther zP i2 zS j1 else SQLITE_NOMATCH)))"
  by pat_completeness auto
termination
proof (relation "measure (\<lambda>(_, _, zP, i, _, _). length zP - i)", goal_cases)
  case (2 info matchOther zP i zS j x xa y x2 xb ya xc yb xd)
  then have "i < y \<and> i < length zP" "y < xc" using Utf8Read_next [of xa y zP i] star_skip_gt [of zP y zS j info xb xc yb] by simp_all
  then show ?case by auto
next
  case (3 info matchOther zP i zS j x xa y x2 xb ya xc yb xd xe yc xf)
  then have "i < y \<and> i < length zP" "y < xc" using Utf8Read_next [of xa y zP i] star_skip_gt [of zP y zS j info xb xc yb] by simp_all
  moreover have "xc \<le> yc" using 3(10,11) sqlite3Utf8Read_next [of xe yc zP xc] by (auto split: if_splits)
  ultimately show ?case by auto
next
  case (4 info matchOther zP i zS j x xa y x2 xb ya xc yb xd xe yc xf)
  then have "i < y \<and> i < length zP" "y < xc" using Utf8Read_next [of xa y zP i] star_skip_gt [of zP y zS j info xb xc yb] by simp_all
  moreover have "xc \<le> yc" using 4(10,11) sqlite3Utf8Read_next [of xe yc zP xc] by (auto split: if_splits)
  ultimately show ?case by auto
next
  case (5 info matchOther zP i zS j x xa y xb xc ya xd xe yb)
  then have "i < y \<and> i < length zP" using Utf8Read_next [of xa y zP i] by simp
  moreover have "y < yb" using match_set_gt [of y zP xc] 5(9,10) by (metis snd_conv)
  ultimately show ?case by auto
next
  case (6 info matchOther zP i zS j x xa y xb xc xd ya xe xf yb)
  then have "i < y \<and> i < length zP" using Utf8Read_next [of xa y zP i] by simp
  moreover have "y \<le> ya" using 6(7,8) sqlite3Utf8Read_next [of xd ya zP y] by (auto split: if_splits)
  ultimately show ?case by auto
qed simp

declare patternCompare.simps [simp del]

text \<open>The public functions; a null pointer is \<open>None\<close>, and a null \<open>zPattern\<close> compares like C's truth values.\<close>

definition sqlite3_strglob :: "bytes option \<Rightarrow> bytes option \<Rightarrow> nat" where
  "sqlite3_strglob zGlobPattern zString =
     (case zString of None \<Rightarrow> (if zGlobPattern \<noteq> None then 1 else 0)
      | Some s \<Rightarrow> (case zGlobPattern of None \<Rightarrow> 1 | Some p \<Rightarrow> patternCompare globInfo 0x5B p 0 s 0))"

definition sqlite3_strlike :: "bytes option \<Rightarrow> bytes option \<Rightarrow> u32 \<Rightarrow> nat" where
  "sqlite3_strlike zPattern zStr esc =
     (case zStr of None \<Rightarrow> (if zPattern \<noteq> None then 1 else 0)
      | Some s \<Rightarrow> (case zPattern of None \<Rightarrow> 1 | Some p \<Rightarrow> patternCompare likeInfoNorm esc p 0 s 0))"

text \<open>The SQL function. The arguments are the text values (\<open>None\<close> for NULL); \<open>nPat\<close> is the length in bytes of
  the pattern value and \<open>limit\<close> the connection's limit on it. An absent third argument is \<open>None\<close>.\<close>

datatype like_result = LikeNull | LikeTooComplex | LikeBadEscape | LikeInt nat

definition likeFunc :: "compareInfo \<Rightarrow> nat \<Rightarrow> nat \<Rightarrow> bytes option \<Rightarrow> bytes option \<Rightarrow> bytes option option \<Rightarrow> like_result" where
  "likeFunc pInfo limit nPat zB zA zEsc =
     (if limit < nPat then LikeTooComplex
      else
        (case (case zEsc of
                 None \<Rightarrow> Inr (ucast (matchSet pInfo), pInfo)
               | Some None \<Rightarrow> Inl LikeNull
               | Some (Some e) \<Rightarrow>
                   if sqlite3Utf8CharLen e (- 1) \<noteq> 1 then Inl LikeBadEscape
                   else
                     (let escape = fst (sqlite3Utf8Read e 0) in
                      Inr (escape,
                        if escape = ucast (matchAll pInfo) \<or> escape = ucast (matchOne pInfo) then
                          (let q = (if escape = ucast (matchAll pInfo) then pInfo\<lparr>matchAll := 0\<rparr> else pInfo)
                           in if escape = ucast (matchOne q) then q\<lparr>matchOne := 0\<rparr> else q)
                        else pInfo))) of
           Inl r \<Rightarrow> r
         | Inr (escape, info) \<Rightarrow>
             (case (zA, zB) of
                (Some a, Some b) \<Rightarrow> LikeInt (if patternCompare info escape b 0 a 0 = SQLITE_MATCH then 1 else 0)
              | _ \<Rightarrow> LikeNull)))"

subsection \<open>What a pattern means\<close>

text \<open>A text as the list of its characters, up to its end.\<close>

function chars :: "bytes \<Rightarrow> nat \<Rightarrow> u32 list" where
  "chars z i = (let (c, i') = sqlite3Utf8Read z i in if c = 0 then [] else c # chars z i')"
  by pat_completeness auto
termination
proof (relation "measure (\<lambda>(z, i). length z - i)", goal_cases)
  case (2 z i x c i')
  then show ?case using sqlite3Utf8Read_next [of c i' z i] by auto
qed simp

declare chars.simps [simp del]

text \<open>A pattern is a sequence of items; \<open>Never\<close> stands for an escape character or a bracket without its
  other half. A character set is a list of ranges, possibly inverted.\<close>

datatype item = AnySeq | AnyOne | Lit u32 | OneOf bool "(u32 \<times> u32) list" | Never

fun in_ranges :: "u32 \<Rightarrow> (u32 \<times> u32) list \<Rightarrow> bool" where
  "in_ranges c [] = False"
| "in_ranges c ((lo, hi) # rs) = (lo \<le> c \<and> c \<le> hi \<or> in_ranges c rs)"

fun item_matches :: "compareInfo \<Rightarrow> item list \<Rightarrow> u32 list \<Rightarrow> bool" where
  "item_matches info [] s = (s = [])"
| "item_matches info (AnySeq # p) [] = item_matches info p []"
| "item_matches info (AnySeq # p) (x # s) = (item_matches info p (x # s) \<or> item_matches info (AnySeq # p) s)"
| "item_matches info (AnyOne # p) s = (case s of [] \<Rightarrow> False | x # s \<Rightarrow> item_matches info p s)"
| "item_matches info (Lit c # p) s = (case s of [] \<Rightarrow> False | x # s \<Rightarrow> same_char info c x \<and> item_matches info p s)"
| "item_matches info (OneOf neg rs # p) s = (case s of [] \<Rightarrow> False | x # s \<Rightarrow> in_ranges x rs \<noteq> neg \<and> item_matches info p s)"
| "item_matches info (Never # p) s = False"

fun set_ranges :: "u32 list \<Rightarrow> u32 \<Rightarrow> ((u32 \<times> u32) list \<times> u32 list) option" where
  "set_ranges [] prior = None"
| "set_ranges [c] prior = (if c = 0x5D then Some ([], []) else None)"
| "set_ranges (c # d # r) prior =
     (if c = 0x5D then Some ([], d # r)
      else if c = 0x2D \<and> 0 < prior \<and> d \<noteq> 0x5D then map_option (\<lambda>(s, t). ((prior, d) # s, t)) (set_ranges r 0)
      else map_option (\<lambda>(s, t). ((c, c) # s, t)) (set_ranges (d # r) c))"

definition set_items :: "u32 list \<Rightarrow> (bool \<times> (u32 \<times> u32) list \<times> u32 list) option" where
  "set_items r =
     (let (neg, r) = (case r of [] \<Rightarrow> (False, r) | x # r' \<Rightarrow> if x = 0x5E then (True, r') else (False, r));
          (first, r) = (case r of [] \<Rightarrow> ([], r) | x # r' \<Rightarrow> if x = 0x5D then ([(0x5D, 0x5D)], r') else ([], r))
      in map_option (\<lambda>(s, t). (neg, first @ s, t)) (set_ranges r 0))"

lemma set_ranges_shorter: "set_ranges r prior = Some (s, t) \<Longrightarrow> length t < length r"
  by (induction r prior arbitrary: s rule: set_ranges.induct) (auto split: if_splits)

lemma set_items_shorter: "set_items r = Some (neg, s, t) \<Longrightarrow> length t < Suc (length r)"
  by (auto simp: set_items_def Let_def split: list.splits if_splits dest!: set_ranges_shorter)

function parse_pattern :: "compareInfo \<Rightarrow> u32 \<Rightarrow> u32 list \<Rightarrow> item list" where
  "parse_pattern info other [] = []"
| "parse_pattern info other (c # r) =
     (if c = ucast (matchAll info) then AnySeq # parse_pattern info other r
      else if c = other \<and> matchSet info \<noteq> 0 then
        (case set_items r of None \<Rightarrow> [Never] | Some (neg, s, t) \<Rightarrow> OneOf neg s # parse_pattern info other t)
      else if c = other then (case r of [] \<Rightarrow> [Never] | d # r \<Rightarrow> Lit d # parse_pattern info other r)
      else if c = ucast (matchOne info) then AnyOne # parse_pattern info other r
      else Lit c # parse_pattern info other r)"
  by pat_completeness auto
termination
  by (relation "measure (\<lambda>(_, _, r). length r)") (auto dest: set_items_shorter)

declare parse_pattern.simps(2) [simp del]

lemma anyseq_ex: "item_matches info (AnySeq # p) s = (\<exists>k. item_matches info p (drop k s))"
proof (induction s)
  case (Cons x s)
  have "(\<exists>k. item_matches info p (drop k (x # s))) = (item_matches info p (x # s) \<or> (\<exists>k. item_matches info p (drop k s)))"
    by (metis drop0 drop_Suc_Cons not0_implies_Suc)
  then show ?case using Cons.IH by simp
qed simp

lemma drop_tl_ex: "(\<exists>k. P (drop (Suc k) s)) \<Longrightarrow> (\<exists>k. P (drop k s))"
  by blast

lemma anyseq_anyseq: "item_matches info (AnySeq # AnySeq # p) s = item_matches info (AnySeq # p) s"
  by (subst anyseq_ex, simp only: anyseq_ex drop_drop) (metis add_0)

lemma anyseq_anyone: "item_matches info (AnySeq # AnyOne # p) s = (s \<noteq> [] \<and> item_matches info (AnySeq # p) (tl s))"
proof (induction s)
  case (Cons x s)
  then show ?case by (cases s) auto
qed simp

lemma anyseq_drop: "item_matches info (AnySeq # p) (drop k s) \<Longrightarrow> item_matches info (AnySeq # p) s"
  by (auto simp only: anyseq_ex drop_drop)

text \<open>An item that takes one character cannot help where the rest of the pattern matches nowhere.\<close>

lemma anyseq_step:
  assumes "\<And>k. \<not> item_matches info p (drop k s)" "x = Lit c \<or> x = OneOf neg rs \<or> x = AnyOne"
  shows "\<not> item_matches info (AnySeq # x # p) s"
proof
  assume "item_matches info (AnySeq # x # p) s"
  then obtain k where "item_matches info (x # p) (drop k s)" by (auto simp only: anyseq_ex)
  then have "item_matches info p (drop (Suc k) s)"
    using assms(2) by (cases "drop k s") (auto simp: drop_Suc tl_drop [symmetric] split: list.splits)
  then show False using assms(1) by blast
qed

subsection \<open>Characters and bytes\<close>

lemma Utf8Read_eq: "Utf8Read = sqlite3Utf8Read"
proof (intro ext)
  fix z i
  show "Utf8Read z i = sqlite3Utf8Read z i"
  proof (cases "byte_at z i < 0x80")
    case True
    then have "\<not> 0xc0 \<le> byte_at z i" by (simp add: word_le_nat_alt word_less_nat_alt)
    then show ?thesis using True by (simp add: Utf8Read_def sqlite3Utf8Read_def Let_def)
  qed (simp add: Utf8Read_def)
qed

lemma chars_read: "sqlite3Utf8Read z i = (c, i') \<Longrightarrow> chars z i = (if c = 0 then [] else c # chars z i')"
  by (subst chars.simps) simp

lemma utf8_check_ge: "\<not> utf8_check c < 0x80"
  by (auto simp: utf8_check_def)

lemma unat_ucast_byte [simp]: "unat (ucast (b :: u8) :: u32) = unat b"
  using unat_u8 [of b] by (simp add: unsigned_ucast_eq take_bit_nat_def)

lemma read_ascii:
  assumes "sqlite3Utf8Read z i = (c, i')"
  shows "c < 0x80 \<longleftrightarrow> byte_at z i < 0x80" "byte_at z i < 0x80 \<Longrightarrow> c = ucast (byte_at z i) \<and> i' = i + 1"
proof -
  show a: "byte_at z i < 0x80 \<Longrightarrow> c = ucast (byte_at z i) \<and> i' = i + 1"
    using assms unfolding Utf8Read_eq [symmetric] by (simp add: Utf8Read_def)
  show "c < 0x80 \<longleftrightarrow> byte_at z i < 0x80"
  proof (cases "0xc0 \<le> byte_at z i")
    case True
    then have "\<not> c < 0x80" using assms utf8_check_ge by (auto simp: sqlite3Utf8Read_def Let_def split: prod.splits)
    then show ?thesis using True by (auto simp: word_le_nat_alt word_less_nat_alt)
  next
    case False
    then have "c = ucast (byte_at z i)" using assms by (auto simp: sqlite3Utf8Read_def Let_def)
    then show ?thesis by (simp add: word_less_nat_alt)
  qed
qed

lemma ucast_byte_inj: "(ucast (a :: u8) :: u32) = ucast b \<longleftrightarrow> a = b"
  by (simp add: word_unat_eq_iff)

lemma read_zero: "sqlite3Utf8Read z i = (c, i') \<Longrightarrow> c = 0 \<longleftrightarrow> byte_at z i = 0"
  using read_ascii [of z i c i'] ucast_byte_inj [of "byte_at z i" 0] by (cases "byte_at z i < 0x80") auto

lemma chars_empty: "chars z i = [] \<longleftrightarrow> byte_at z i = 0"
  using read_zero [of z i] chars_read [of z i] by (cases "sqlite3Utf8Read z i") auto

lemma read_byte: "sqlite3Utf8Read z i = (c, i') \<Longrightarrow> b < 0x80 \<Longrightarrow> c = ucast b \<longleftrightarrow> byte_at z i = b"
proof -
  assume r: "sqlite3Utf8Read z i = (c, i')" and b: "b < 0x80"
  have "(ucast b :: u32) < 0x80" using b by (simp add: word_less_nat_alt)
  then show ?thesis using read_ascii [OF r] b ucast_byte_inj by metis
qed

lemma utf8_cont_skip: "snd (utf8_cont z (length z) i c) = skip_cont z i"
proof (induction z "length z" i c rule: utf8_cont.induct)
  case (1 z i c)
  have "is_cont (byte_at z i) \<Longrightarrow> i < length z" by (auto simp: byte_at_def is_cont_def split: if_splits)
  then show ?case using 1 by (subst utf8_cont.simps, subst skip_cont.simps) auto
qed

lemma read_skip: "sqlite3Utf8Read z i = (c, i') \<Longrightarrow> SQLITE_SKIP_UTF8 z i = i'"
  using utf8_cont_skip [of z "i + 1"] by (auto simp: sqlite3Utf8Read_def SQLITE_SKIP_UTF8_def Let_def split: prod.splits if_splits) (metis snd_conv)

subsection \<open>The searches\<close>

text \<open>What a match from a position answers for the rest of a pattern; the third answer means that no
  later position can match either.\<close>

definition answers :: "compareInfo \<Rightarrow> item list \<Rightarrow> bytes \<Rightarrow> (nat \<Rightarrow> nat) \<Rightarrow> bool" where
  "answers info p zS m \<longleftrightarrow> (\<forall>j. m j \<le> 2 \<and> (m j = 0 \<longleftrightarrow> item_matches info p (chars zS j))
     \<and> (m j = 2 \<longrightarrow> (\<forall>k. \<not> item_matches info p (drop k (chars zS j)))))"

lemma answersD:
  assumes "answers info p zS m"
  shows "m j \<le> 2" "m j = 0 \<longleftrightarrow> item_matches info p (chars zS j)" "m j = 2 \<Longrightarrow> \<not> item_matches info p (drop k (chars zS j))"
  using assms unfolding answers_def by blast+

lemma search_set_spec:
  assumes "answers info p zS m" "\<not> item_matches info p []"
  shows "search_set m zS j = (if item_matches info (AnySeq # p) (chars zS j) then 0 else 2)"
  using assms(1)
proof (induction m zS j rule: search_set.induct)
  case (1 m zS j)
  note a = answersD [OF "1.prems"]
  show ?case
  proof (cases "byte_at zS j = 0")
    case True
    then have "chars zS j = []" by (simp add: chars_empty)
    then show ?thesis using assms(2) True by (subst search_set.simps) (simp add: match_codes)
  next
    case False
    obtain c j' where r: "sqlite3Utf8Read zS j = (c, j')" by fastforce
    have s: "chars zS j = c # chars zS j'" "SQLITE_SKIP_UTF8 zS j = j'"
      using chars_read [OF r] read_zero [OF r] read_skip [OF r] False by auto
    consider "m j = 0" | "m j = 1" | "m j = 2" using a(1) [of j] by linarith
    then show ?thesis
    proof cases
      case 1
      then show ?thesis using a(2) [of j] s False by (subst search_set.simps) (simp add: match_codes)
    next
      case 2
      then have n: "\<not> item_matches info p (c # chars zS j')" using a(2) [of j] s by simp
      have IH: "search_set m zS j' = (if item_matches info (AnySeq # p) (chars zS j') then 0 else 2)"
        using "1.IH" [OF False refl _ "1.prems"] 2 s(2) by (simp add: match_codes)
      have "search_set m zS j = search_set m zS j'" using 2 s(2) False by (subst search_set.simps) (simp add: match_codes)
      then show ?thesis unfolding IH s(1) using n by simp
    next
      case 3
      then have "\<not> item_matches info (AnySeq # p) (chars zS j)" using a(3) unfolding anyseq_ex by blast
      then show ?thesis using 3 False by (subst search_set.simps) (simp add: match_codes)
    qed
  qed
qed

lemma search_char_spec:
  assumes "answers info p zS m" "\<And>x. same_char info c x \<longleftrightarrow> c = x" "c \<noteq> 0"
  shows "search_char m c zS j = (if item_matches info (AnySeq # Lit c # p) (chars zS j) then 0 else 2)"
  using assms
proof (induction m c zS j rule: search_char.induct)
  case (1 m c zS j)
  note a = answersD [OF "1.prems"(1)]
  obtain x j' where r: "sqlite3Utf8Read zS j = (x, j')" by fastforce
  then have u: "Utf8Read zS j = (x, j')" by (simp add: Utf8Read_eq)
  show ?case
  proof (cases "x = 0")
    case True
    then show ?thesis using chars_read [OF r] u by (subst search_char.simps) (simp add: match_codes)
  next
    case nz: False
    then have s: "chars zS j = x # chars zS j'" using chars_read [OF r] by simp
    show ?thesis
    proof (cases "x = c")
      case False
      have "search_char m c zS j = search_char m c zS j'" using False nz u by (subst search_char.simps) simp
      moreover have "search_char m c zS j' = (if item_matches info (AnySeq # Lit c # p) (chars zS j') then 0 else 2)"
        using "1.IH"(1) [OF u [symmetric] refl nz] False "1.prems" by blast
      ultimately show ?thesis using False "1.prems"(2) by (simp add: s)
    next
      case True
      have m: "item_matches info (AnySeq # Lit c # p) (chars zS j) = (item_matches info p (chars zS j') \<or> item_matches info (AnySeq # Lit c # p) (chars zS j'))"
        using True "1.prems"(2) by (simp add: s)
      consider "m j' = 0" | "m j' = 1" | "m j' = 2" using a(1) [of j'] by linarith
      then show ?thesis
      proof cases
        case 1
        then show ?thesis using a(2) [of j'] m nz True u by (subst search_char.simps) (simp add: match_codes)
      next
        case 2
        have "search_char m c zS j' = (if item_matches info (AnySeq # Lit c # p) (chars zS j') then 0 else 2)"
          using "1.IH"(2) [OF u [symmetric] refl nz _ refl] True 2 "1.prems" by (simp add: match_codes)
        moreover have "search_char m c zS j = search_char m c zS j'" using 2 nz True u by (subst search_char.simps) (simp add: match_codes)
        ultimately show ?thesis unfolding m using a(2) [of j'] 2 by simp
      next
        case 3
        have "\<not> item_matches info (AnySeq # Lit c # p) (chars zS j')" by (rule anyseq_step) (use a(3) [OF 3] in auto)
        then show ?thesis unfolding m using a(2) [of j'] 3 nz True u by (subst search_char.simps) (simp add: match_codes)
      qed
    qed
  qed
qed

lemma strcspn_cont:
  assumes "\<And>b. b \<in> set stop \<Longrightarrow> b < 0x80"
  shows "i + strcspn z i stop = skip_cont z i + strcspn z (skip_cont z i) stop"
proof (induction z i rule: skip_cont.induct)
  case (1 z i)
  show ?case
  proof (cases "is_cont (byte_at z i)")
    case True
    have "\<not> byte_at z i < 0x80" "byte_at z i \<noteq> 0"
      using True unfolding is_cont_nat by (auto simp: word_less_nat_alt)
    then have "byte_at z i \<notin> set stop" using assms by blast
    then have "i + strcspn z i stop = i + 1 + strcspn z (i + 1) stop" using \<open>byte_at z i \<noteq> 0\<close> by (subst strcspn.simps) simp
    also have "\<dots> = skip_cont z (i + 1) + strcspn z (skip_cont z (i + 1)) stop" by (rule "1.IH" [OF True])
    finally show ?thesis using True by (simp add: skip_cont.simps [of z i])
  next
    case False
    then show ?thesis by (simp add: skip_cont.simps [of z i])
  qed
qed

lemma strcspn_chars:
  assumes "\<And>b. b \<in> set stop \<Longrightarrow> b < 0x80"
  shows "(byte_at z (j + strcspn z j stop) = 0 \<and> (\<forall>x \<in> set (chars z j). x \<notin> ucast ` set stop))
    \<or> (byte_at z (j + strcspn z j stop) \<noteq> 0 \<and> byte_at z (j + strcspn z j stop) \<in> set stop \<and>
       (\<exists>pre. chars z j = pre @ ucast (byte_at z (j + strcspn z j stop)) # chars z (j + strcspn z j stop + 1) \<and> (\<forall>x \<in> set pre. x \<notin> ucast ` set stop)))"
proof (induction "length z - j" arbitrary: j rule: less_induct)
  case less
  obtain x j' where r: "sqlite3Utf8Read z j = (x, j')" by fastforce
  show ?case
  proof (cases "byte_at z j = 0")
    case True
    then have "strcspn z j stop = 0" by (subst strcspn.simps) simp
    then show ?thesis using True by (simp add: chars_empty [symmetric])
  next
    case nz: False
    then have c: "chars z j = x # chars z j'" using chars_read [OF r] read_zero [OF r] by simp
    have lt: "j < length z" "j < j'" using nz sqlite3Utf8Read_next [of x j' z j] r by (auto simp: byte_at_def split: if_splits)
    show ?thesis
    proof (cases "byte_at z j \<in> set stop")
      case True
      then have s0: "strcspn z j stop = 0" by (subst strcspn.simps) simp
      have "x = ucast (byte_at z j)" "j' = j + 1" using read_ascii [OF r] assms [OF True] by auto
      then show ?thesis using nz True c by (simp add: s0)
    next
      case False
      have e: "j + strcspn z j stop = j' + strcspn z j' stop"
      proof -
        have "j + strcspn z j stop = j + 1 + strcspn z (j + 1) stop" using nz False by (subst strcspn.simps) simp
        moreover have "j' = (if 0xc0 \<le> byte_at z j then skip_cont z (j + 1) else j + 1)" using read_skip [OF r] by (simp add: SQLITE_SKIP_UTF8_def)
        ultimately show ?thesis using strcspn_cont [OF assms, of stop "j + 1" z] by (auto split: if_splits)
      qed
      have x: "x \<notin> ucast ` set stop"
      proof
        assume "x \<in> ucast ` set stop"
        then obtain b where "b \<in> set stop" "x = ucast b" by blast
        then show False using read_byte [OF r assms [of b]] False by simp
      qed
      have "length z - j' < length z - j" using lt by auto
      from less [OF this] consider
          (none) "byte_at z (j' + strcspn z j' stop) = 0" "\<forall>x \<in> set (chars z j'). x \<notin> ucast ` set stop"
        | (hit) pre where "byte_at z (j' + strcspn z j' stop) \<noteq> 0" "byte_at z (j' + strcspn z j' stop) \<in> set stop"
            "chars z j' = pre @ ucast (byte_at z (j' + strcspn z j' stop)) # chars z (j' + strcspn z j' stop + 1)" "\<forall>x \<in> set pre. x \<notin> ucast ` set stop"
        by blast
      then show ?thesis
      proof cases
        case none
        then show ?thesis unfolding e c using x by simp
      next
        case hit
        have "chars z j = (x # pre) @ ucast (byte_at z (j' + strcspn z j' stop)) # chars z (j' + strcspn z j' stop + 1)" using c hit(3) by simp
        moreover have "\<forall>y \<in> set (x # pre). y \<notin> ucast ` set stop" using x hit(4) by simp
        ultimately show ?thesis unfolding e using hit(1,2) by blast
      qed
    qed
  qed
qed

lemma anyseq_lit_skip:
  "(\<And>x. x \<in> set pre \<Longrightarrow> \<not> same_char info c x) \<Longrightarrow> item_matches info (AnySeq # Lit c # p) (pre @ s) = item_matches info (AnySeq # Lit c # p) s"
  by (induction pre) auto

lemma search_stop_spec:
  assumes "answers info p zS m" "\<And>x. same_char info c x \<longleftrightarrow> x \<in> ucast ` set stop" "\<And>b. b \<in> set stop \<Longrightarrow> b < 0x80"
  shows "search_stop m stop zS j = (if item_matches info (AnySeq # Lit c # p) (chars zS j) then 0 else 2)"
  using assms
proof (induction m stop zS j rule: search_stop.induct)
  case (1 m stop zS j)
  note a = answersD [OF "1.prems"(1)]
  define j' where "j' = j + strcspn zS j stop"
  consider
      (none) "byte_at zS j' = 0" "\<forall>x \<in> set (chars zS j). x \<notin> ucast ` set stop"
    | (hit) pre where "byte_at zS j' \<noteq> 0" "byte_at zS j' \<in> set stop" "chars zS j = pre @ ucast (byte_at zS j') # chars zS (j' + 1)" "\<forall>x \<in> set pre. x \<notin> ucast ` set stop"
    using strcspn_chars [of stop zS j] "1.prems"(3) unfolding j'_def by blast
  then show ?case
  proof cases
    case none
    have "\<not> item_matches info (AnySeq # Lit c # p) (chars zS j @ [])"
      by (subst anyseq_lit_skip) (use none(2) "1.prems"(2) in auto)
    then show ?thesis using none(1) by (subst search_stop.simps) (simp add: j'_def [symmetric] match_codes)
  next
    case hit
    have "item_matches info (AnySeq # Lit c # p) (chars zS j) = item_matches info (AnySeq # Lit c # p) (ucast (byte_at zS j') # chars zS (j' + 1))"
      unfolding hit(3) by (rule anyseq_lit_skip) (use hit(4) "1.prems"(2) in auto)
    also have "\<dots> = (item_matches info p (chars zS (j' + 1)) \<or> item_matches info (AnySeq # Lit c # p) (chars zS (j' + 1)))"
      using hit(2) "1.prems"(2) [of "ucast (byte_at zS j')"] by auto
    finally have m: "item_matches info (AnySeq # Lit c # p) (chars zS j)
        = (item_matches info p (chars zS (j' + 1)) \<or> item_matches info (AnySeq # Lit c # p) (chars zS (j' + 1)))" .
    have e: "search_stop m stop zS j = (if m (j' + 1) \<noteq> 1 then m (j' + 1) else search_stop m stop zS (j' + 1))"
      using hit(1) by (subst search_stop.simps) (simp add: j'_def [symmetric] match_codes)
    consider "m (j' + 1) = 0" | "m (j' + 1) = 1" | "m (j' + 1) = 2" using a(1) [of "j' + 1"] by linarith
    then show ?thesis
    proof cases
      case 1
      then show ?thesis using a(2) [of "j' + 1"] unfolding m e by simp
    next
      case 2
      have "search_stop m stop zS (j' + 1) = (if item_matches info (AnySeq # Lit c # p) (chars zS (j' + 1)) then 0 else 2)"
        using "1.IH" [of j', OF j'_def hit(1) refl] 2 "1.prems" by (simp add: match_codes)
      then show ?thesis using a(2) [of "j' + 1"] 2 unfolding m e by simp
    next
      case 3
      have "\<not> item_matches info (AnySeq # Lit c # p) (chars zS (j' + 1))" by (rule anyseq_step) (use a(3) [OF 3] in auto)
      then show ?thesis using a(2) [of "j' + 1"] 3 unfolding m e by simp
    qed
  qed
qed

subsection \<open>Character sets\<close>

lemma set_scan_spec:
  "case set_ranges (if c2 = 0 then [] else c2 # chars zP i) prior of
     None \<Rightarrow> fst (set_scan zP c c2 i prior seen) = 0
   | Some (s, t) \<Rightarrow> fst (set_scan zP c c2 i prior seen) \<noteq> 0 \<and> chars zP (fst (snd (set_scan zP c c2 i prior seen))) = t
       \<and> snd (snd (set_scan zP c c2 i prior seen)) = (seen \<or> in_ranges c s)"
proof (induction zP c c2 i prior seen rule: set_scan.induct)
  case (1 zP c c2 i prior seen)
  obtain d i1 where d: "sqlite3Utf8Read zP i = (d, i1)" by fastforce
  obtain e i2 where e: "sqlite3Utf8Read zP i1 = (e, i2)" by fastforce
  show ?case
  proof (cases "c2 \<noteq> 0 \<and> c2 \<noteq> 0x5D")
    case False
    then have "set_scan zP c c2 i prior seen = (c2, i, seen)" unfolding set_scan.simps [of zP c c2] by (rule if_not_P)
    moreover have "set_ranges (0x5D # chars zP i) prior = Some ([], chars zP i)" by (cases "chars zP i") simp_all
    ultimately show ?thesis using False by (cases "c2 = 0") simp_all
  next
    case t: True
    show ?thesis
    proof (cases "c2 = 0x2D \<and> byte_at zP i \<noteq> 0x5D \<and> byte_at zP i \<noteq> 0 \<and> 0 < prior")
      case True
      have dn: "d \<noteq> 0" "d \<noteq> 0x5D" using read_zero [OF d] read_byte [OF d, of "0x5D"] True by auto
      have sc: "set_scan zP c c2 i prior seen = set_scan zP c e i2 0 (seen \<or> prior \<le> c \<and> c \<le> d)"
        using True t d e by (subst set_scan.simps) simp
      have IH: "case set_ranges (if e = 0 then [] else e # chars zP i2) 0 of
          None \<Rightarrow> fst (set_scan zP c e i2 0 (seen \<or> prior \<le> c \<and> c \<le> d)) = 0
        | Some (s, t) \<Rightarrow> fst (set_scan zP c e i2 0 (seen \<or> prior \<le> c \<and> c \<le> d)) \<noteq> 0
            \<and> chars zP (fst (snd (set_scan zP c e i2 0 (seen \<or> prior \<le> c \<and> c \<le> d)))) = t
            \<and> snd (snd (set_scan zP c e i2 0 (seen \<or> prior \<le> c \<and> c \<le> d))) = ((seen \<or> prior \<le> c \<and> c \<le> d) \<or> in_ranges c s)"
        by (rule "1.IH"(1) [OF t True refl d [symmetric] refl e [symmetric]])
      have L: "set_ranges (if c2 = 0 then [] else c2 # chars zP i) prior
          = map_option (\<lambda>(s, t). ((prior, d) # s, t)) (set_ranges (if e = 0 then [] else e # chars zP i2) 0)"
        using True t dn chars_read [OF d] chars_read [OF e] by simp
      define R where "R = set_ranges (if e = 0 then [] else e # chars zP i2) 0"
      show ?thesis using IH unfolding L sc R_def [symmetric] by (cases R) auto
    next
      case False
      have sc: "set_scan zP c c2 i prior seen = set_scan zP c d i1 c2 (seen \<or> c = c2)"
        using False t d by (subst set_scan.simps) (simp only: if_False Let_def prod.case, simp)
      have IH: "case set_ranges (if d = 0 then [] else d # chars zP i1) c2 of
          None \<Rightarrow> fst (set_scan zP c d i1 c2 (seen \<or> c = c2)) = 0
        | Some (s, t) \<Rightarrow> fst (set_scan zP c d i1 c2 (seen \<or> c = c2)) \<noteq> 0
            \<and> chars zP (fst (snd (set_scan zP c d i1 c2 (seen \<or> c = c2)))) = t
            \<and> snd (snd (set_scan zP c d i1 c2 (seen \<or> c = c2))) = ((seen \<or> c = c2) \<or> in_ranges c s)"
        by (rule "1.IH"(2) [OF t False refl d [symmetric]])
      have L: "set_ranges (if c2 = 0 then [] else c2 # chars zP i) prior
          = map_option (\<lambda>(s, t). ((c2, c2) # s, t)) (set_ranges (if d = 0 then [] else d # chars zP i1) c2)"
      proof (cases "d = 0")
        case True
        then show ?thesis using t chars_read [OF d] by simp
      next
        case dn: False
        have "\<not> (c2 = 0x2D \<and> 0 < prior \<and> d \<noteq> 0x5D)" using False read_zero [OF d] read_byte [OF d, of "0x5D"] dn by auto
        then show ?thesis using t dn chars_read [OF d] by auto
      qed
      define R where "R = set_ranges (if d = 0 then [] else d # chars zP i1) c2"
      show ?thesis using IH unfolding L sc R_def [symmetric] by (cases R) auto
    qed
  qed
qed

lemma match_set_spec:
  "case set_items (chars zP i) of
     None \<Rightarrow> \<not> fst (match_set zP i c)
   | Some (neg, s, t) \<Rightarrow> fst (match_set zP i c) = (in_ranges c s \<noteq> neg) \<and> (fst (match_set zP i c) \<longrightarrow> chars zP (snd (match_set zP i c)) = t)"
proof -
  let ?r = "sqlite3Utf8Read zP" and ?l = "\<lambda>c i. if c = 0 then [] else c # chars zP i"
  obtain c2 i1 where 1: "?r i = (c2, i1)" by fastforce
  obtain c3 i2 where 2: "(if c2 = 0x5E then ?r i1 else (c2, i1)) = (c3, i2)" by fastforce
  obtain c4 i3 where 3: "(if c3 = 0x5D then ?r i2 else (c3, i2)) = (c4, i3)" by fastforce
  define seen where "seen = (c3 = 0x5D \<and> c = 0x5D)"
  have m: "match_set zP i c = (case set_scan zP c c4 i3 0 seen of (c5, i4, sn) \<Rightarrow> (\<not> (c5 = 0 \<or> sn = (c2 = 0x5E)), i4))"
    unfolding match_set_def Let_def 1 prod.case 2 3 seen_def ..
  have l1: "chars zP i = ?l c2 i1" using chars_read [OF 1] by simp
  have l2: "(case ?l c2 i1 of [] \<Rightarrow> (False, []) | x # r' \<Rightarrow> if x = 0x5E then (True, r') else (False, ?l c2 i1)) = (c2 = 0x5E, ?l c3 i2)"
    using 2 chars_read [of zP i1] by (auto split: if_splits)
  have l3: "(case ?l c3 i2 of [] \<Rightarrow> ([], []) | x # r' \<Rightarrow> if x = 0x5D then ([(0x5D, 0x5D)], r') else ([], ?l c3 i2))
      = (if c3 = 0x5D then [(0x5D, 0x5D)] else [], ?l c4 i3)"
    using 3 chars_read [of zP i2] by (auto split: if_splits)
  have si: "set_items (chars zP i) = map_option (\<lambda>(s, t). (c2 = 0x5E, (if c3 = 0x5D then [(0x5D, 0x5D)] else []) @ s, t)) (set_ranges (?l c4 i3) 0)"
    using l2 l3 unfolding set_items_def l1 by (auto simp: Let_def split: list.splits if_splits)
  note sp = set_scan_spec [of zP c c4 i3 0 seen]
  show ?thesis
  proof (cases "set_ranges (?l c4 i3) 0")
    case None
    then show ?thesis unfolding si m using sp by (auto split: prod.split)
  next
    case (Some st)
    then show ?thesis unfolding si m using sp by (auto simp: seen_def split: prod.splits if_splits)
  qed
qed

subsection \<open>Case folding\<close>

lemma Toupper_eq: "sqlite3Toupper c = (if 97 \<le> c \<and> c \<le> 122 then c - 32 else c)"
proof -
  have "list_all2 (\<lambda>n t. (word_of_int n :: u8) AND NOT (t AND 0x20) = (if 97 \<le> (word_of_int n :: u8) \<and> word_of_int n \<le> (122 :: u8) then word_of_int n - 32 else word_of_int n)) [0..255] sqlite3CtypeMap"
    by code_simp
  from u8_table [OF this, of c] show ?thesis by (simp add: sqlite3Toupper_def ctype_def)
qed

lemma unat_lower: "unat (UpperToLower c) = (if 65 \<le> unat c \<and> unat c \<le> 90 then unat c + 32 else unat c)"
  by (simp add: UpperToLower_eq word_le_nat_alt unat_word_ariths)

lemma unat_upper: "unat (sqlite3Toupper c) = (if 97 \<le> unat c \<and> unat c \<le> 122 then unat c - 32 else unat c)"
  using unat_sub [of 32 c] by (auto simp: Toupper_eq word_le_nat_alt)

lemma lower_eq_iff: "UpperToLower a = UpperToLower b \<longleftrightarrow> b = sqlite3Toupper a \<or> b = UpperToLower a"
  unfolding word_unat_eq_iff [where 'a = 8] unat_lower unat_upper by (auto split: if_splits)

lemma unat_ucast_u32: "c < 0x80 \<Longrightarrow> unat (ucast (c :: u32) :: u8) = unat c"
  by (simp add: word_less_nat_alt unsigned_ucast_eq take_bit_nat_def)

lemma stop_bytes_same:
  assumes "c < 0x80"
  shows "same_char info c x \<longleftrightarrow> x \<in> ucast ` set (stop_bytes info c)" "b \<in> set (stop_bytes info c) \<Longrightarrow> b < 0x80"
proof -
  have c: "unat (ucast c :: u8) = unat c" "unat c < 128" using assms by (simp_all add: unat_ucast_u32) (simp add: word_less_nat_alt)
  have uc: "ucast (ucast c :: u8) = c" by (simp add: word_unat_eq_iff c(1))
  show small: "b < 0x80" if "b \<in> set (stop_bytes info c)" for b
    using that c by (auto simp: stop_bytes_def word_less_nat_alt unat_upper unat_lower split: if_splits)
  show "same_char info c x \<longleftrightarrow> x \<in> ucast ` set (stop_bytes info c)"
  proof (cases "noCase info")
    case False
    then show ?thesis using uc by (auto simp: same_char_def stop_bytes_def)
  next
    case True
    show ?thesis
    proof (cases "x < 0x80")
      case x: True
      have ux: "ucast (ucast x :: u8) = x" using unat_ucast_u32 [OF x] by (simp add: word_unat_eq_iff)
      have "x \<in> ucast ` set (stop_bytes info c) \<longleftrightarrow> ucast x = sqlite3Toupper (ucast c) \<or> ucast x = UpperToLower (ucast c)"
        using True ux ucast_byte_inj by (auto simp: stop_bytes_def image_iff)
      also have "\<dots> \<longleftrightarrow> UpperToLower (ucast c) = UpperToLower (ucast x)" by (simp add: lower_eq_iff)
      finally show ?thesis using True x assms by (auto simp: same_char_def)
    next
      case False
      have "x \<notin> ucast ` set (stop_bytes info c)"
      proof
        assume "x \<in> ucast ` set (stop_bytes info c)"
        then obtain b :: u8 where "x = ucast b" "b < 0x80" using small by blast
        then show False using False by (simp add: word_less_nat_alt)
      qed
      then show ?thesis using False assms by (auto simp: same_char_def)
    qed
  qed
qed

lemma same_char_big: "\<not> c < 0x80 \<Longrightarrow> same_char info c x \<longleftrightarrow> c = x"
  by (auto simp: same_char_def)

subsection \<open>The matcher decides the meaning of the pattern\<close>

text \<open>The special characters differ from each other (a zero means that there is none).\<close>

definition info_ok :: "compareInfo \<Rightarrow> u32 \<Rightarrow> bool" where
  "info_ok info other \<longleftrightarrow> (other \<noteq> 0 \<longrightarrow> other \<noteq> ucast (matchAll info) \<and> other \<noteq> ucast (matchOne info))
     \<and> (matchAll info \<noteq> 0 \<longrightarrow> matchAll info \<noteq> matchOne info) \<and> (matchSet info \<noteq> 0 \<longrightarrow> other < 0x80)"

lemma star_skip_spec:
  "info_ok info other \<Longrightarrow> matchAll info \<noteq> 0 \<Longrightarrow> case star_skip zP i zS j info of
     None \<Rightarrow> \<not> item_matches info (AnySeq # parse_pattern info other (chars zP i)) (chars zS j)
   | Some (c, i2, j2) \<Rightarrow>
       item_matches info (AnySeq # parse_pattern info other (chars zP i)) (chars zS j)
         = item_matches info (AnySeq # parse_pattern info other (if c = 0 then [] else c # chars zP i2)) (chars zS j2)
       \<and> (c \<noteq> 0 \<longrightarrow> c \<noteq> ucast (matchAll info) \<and> c \<noteq> ucast (matchOne info)) \<and> (\<exists>i0. Utf8Read zP i0 = (c, i2))"
proof (induction zP i zS j info rule: star_skip.induct)
  case (1 zP i zS j info)
  note ok = "1.prems"
  obtain c i1 where r: "Utf8Read zP i = (c, i1)" by fastforce
  then have c: "chars zP i = (if c = 0 then [] else c # chars zP i1)" by (intro chars_read) (simp add: Utf8Read_eq)
  show ?case
  proof (cases "c \<noteq> 0 \<and> (c = ucast (matchAll info) \<or> c = ucast (matchOne info))")
    case False
    then have "star_skip zP i zS j info = Some (c, i1, j)" using r by (subst star_skip.simps) auto
    then show ?thesis using False r c by auto
  next
    case t: True
    show ?thesis
    proof (cases "c = ucast (matchOne info)")
      case True
      obtain d j1 where d: "sqlite3Utf8Read zS j = (d, j1)" by fastforce
      have na: "c \<noteq> ucast (matchAll info)" "c \<noteq> other"
        using ok t True ucast_byte_inj [of "matchAll info" "matchOne info"] by (auto simp: info_ok_def)
      have p: "parse_pattern info other (chars zP i) = AnyOne # parse_pattern info other (chars zP i1)"
        using t True na by (simp add: c parse_pattern.simps(2))
      show ?thesis
      proof (cases "d = 0")
        case z: True
        then have "star_skip zP i zS j info = None" using r d t True by (subst star_skip.simps) simp
        then show ?thesis using chars_read [OF d] z by (simp add: p anyseq_anyone del: item_matches.simps)
      next
        case nz: False
        have e: "star_skip zP i zS j info = star_skip zP i1 zS j1 info" using nz r d t True by (subst star_skip.simps) simp
        have cs: "chars zS j = d # chars zS j1" using chars_read [OF d] nz by simp
        have m: "item_matches info (AnySeq # parse_pattern info other (chars zP i)) (chars zS j)
            = item_matches info (AnySeq # parse_pattern info other (chars zP i1)) (chars zS j1)"
          unfolding p cs anyseq_anyone by simp
        show ?thesis unfolding e m by (rule "1.IH"(1) [OF r [symmetric] refl t True d [symmetric] refl nz ok])
      qed
    next
      case False
      then have a: "c = ucast (matchAll info)" using t by simp
      have e: "star_skip zP i zS j info = star_skip zP i1 zS j info" by (subst star_skip.simps) (simp only: r Let_def prod.case if_P [OF t] if_not_P [OF False])
      have p: "parse_pattern info other (chars zP i) = AnySeq # parse_pattern info other (chars zP i1)"
        using t a by (simp add: c parse_pattern.simps(2))
      have m: "item_matches info (AnySeq # parse_pattern info other (chars zP i)) (chars zS j)
          = item_matches info (AnySeq # parse_pattern info other (chars zP i1)) (chars zS j)"
        unfolding p by (rule anyseq_anyseq)
      show ?thesis unfolding e m by (rule "1.IH"(2) [OF r [symmetric] refl t False ok])
    qed
  qed
qed

text \<open>What one head item lets the answers for the rest say.\<close>

lemma answer_step:
  assumes "answers info p zS m" "chars zS j = x # chars zS j1"
    "\<And>s y. item_matches info (h # p) (y # s) = (f y \<and> item_matches info p s)" "\<And>s. \<not> item_matches info (h # p) []" "f x"
  shows "m j1 \<le> 2 \<and> (m j1 = 0 \<longleftrightarrow> item_matches info (h # p) (chars zS j)) \<and> (m j1 = 2 \<longrightarrow> (\<forall>k. \<not> item_matches info (h # p) (drop k (chars zS j))))"
proof (intro conjI impI allI)
  note a = answersD [OF assms(1)]
  show "m j1 \<le> 2" by (rule a(1))
  show "m j1 = 0 \<longleftrightarrow> item_matches info (h # p) (chars zS j)" using a(2) [of j1] assms(2,3,5) by simp
  fix k assume m: "m j1 = 2"
  show "\<not> item_matches info (h # p) (drop k (chars zS j))"
  proof
    assume h: "item_matches info (h # p) (drop k (chars zS j))"
    then obtain y s where d: "drop k (chars zS j) = y # s" using assms(4) by (cases "drop k (chars zS j)") auto
    then have "s = drop (Suc k) (chars zS j)" by (metis drop_Suc list.sel(3) tl_drop)
    then have "item_matches info p (drop k (chars zS j1))" using h d assms(2,3) by simp
    then show False using a(3) [OF m] by blast
  qed
qed


lemma patternCompare_answers:
  assumes ok: "info_ok info other"
  shows "answers info (parse_pattern info other (chars zP i)) zS (patternCompare info other zP i zS)"
proof (induction "length zP - i" arbitrary: i rule: less_induct)
  case less
  obtain c i1 where r: "Utf8Read zP i = (c, i1)" by fastforce
  have c: "chars zP i = (if c = 0 then [] else c # chars zP i1)" using r by (intro chars_read) (simp add: Utf8Read_eq)
  have adv: "i < i1" "c \<noteq> 0 \<Longrightarrow> i < length zP" using Utf8Read_next [of c i1 zP i] r by auto
  have IH: "answers info (parse_pattern info other (chars zP k)) zS (patternCompare info other zP k zS)" if "c \<noteq> 0" "i1 \<le> k" for k
    by (rule less) (use that adv in linarith)
  let ?p = "parse_pattern info other (chars zP i)"
  consider (fin) "c = 0" | (star) "c \<noteq> 0" "c = ucast (matchAll info)"
    | (set) "c \<noteq> 0" "c \<noteq> ucast (matchAll info)" "c = other" "matchSet info \<noteq> 0"
    | (chr) "c \<noteq> 0" "c \<noteq> ucast (matchAll info)" "\<not> (c = other \<and> matchSet info \<noteq> 0)" by blast
  then show ?case
  proof cases
    case fin
    then have "patternCompare info other zP i zS j = (if byte_at zS j = 0 then 0 else 1)" for j
      using r by (subst patternCompare.simps) (simp add: match_codes)
    then show ?thesis using fin c by (simp add: answers_def chars_empty [symmetric])
  next
    case star
    have ma: "matchAll info \<noteq> 0" using star by auto
    have p: "?p = AnySeq # parse_pattern info other (chars zP i1)" using star by (simp add: c parse_pattern.simps(2))
    have res: "patternCompare info other zP i zS j = (if item_matches info ?p (chars zS j) then 0 else 2)" for j
    proof (cases "star_skip zP i1 zS j info")
      case None
      then have "patternCompare info other zP i zS j = 2" using star r by (subst patternCompare.simps) (simp add: match_codes)
      then show ?thesis using star_skip_spec [OF ok ma, of zP i1 zS j] None p by simp
    next
      case (Some x)
      obtain d i2 j2 where x: "x = (d, i2, j2)" by (metis prod_cases3)
      note ss = Some [unfolded x]
      have sp: "item_matches info ?p (chars zS j) = item_matches info (AnySeq # parse_pattern info other (if d = 0 then [] else d # chars zP i2)) (chars zS j2)"
          "d \<noteq> 0 \<Longrightarrow> d \<noteq> ucast (matchAll info) \<and> d \<noteq> ucast (matchOne info)" "\<exists>i0. Utf8Read zP i0 = (d, i2)"
        using star_skip_spec [OF ok ma, of zP i1 zS j] ss p by auto
      have i2: "i1 < i2" by (rule star_skip_gt [OF ss])
      show ?thesis
      proof (cases "d = 0")
        case True
        then have "patternCompare info other zP i zS j = 0" using star r ss by (subst patternCompare.simps) (simp add: match_codes)
        moreover have "item_matches info (AnySeq # []) s" for s by (induction s) auto
        ultimately show ?thesis unfolding sp(1) using True by simp
      next
        case nz: False
        show ?thesis
        proof (cases "d = other \<and> matchSet info \<noteq> 0")
          case True
          have pc: "patternCompare info other zP i zS j = search_set (patternCompare info other zP (i2 - 1) zS) zS j2"
            using star r ss nz True by (subst patternCompare.simps) simp
          obtain i0 where i0: "sqlite3Utf8Read zP i0 = (d, i2)" using sp(3) by (auto simp: Utf8Read_eq)
          have "d < 0x80" using True ok by (simp add: info_ok_def)
          then have "i0 = i2 - 1" using read_ascii [OF i0] by simp
          then have ch: "chars zP (i2 - 1) = d # chars zP i2" using chars_read [OF i0] nz by simp
          have "answers info (parse_pattern info other (chars zP (i2 - 1))) zS (patternCompare info other zP (i2 - 1) zS)"
            by (rule IH) (use star i2 in auto)
          moreover have "\<not> item_matches info (parse_pattern info other (chars zP (i2 - 1))) []"
            using sp(2) nz True unfolding ch by (auto simp: parse_pattern.simps(2) split: option.split)
          ultimately have "search_set (patternCompare info other zP (i2 - 1) zS) zS j2
              = (if item_matches info (AnySeq # parse_pattern info other (chars zP (i2 - 1))) (chars zS j2) then 0 else 2)"
            by (rule search_set_spec)
          then show ?thesis unfolding pc sp(1) ch using nz by simp
        next
          case nset: False
          obtain e i3 where e: "(if d = other then sqlite3Utf8Read zP i2 else (d, i2)) = (e, i3)" by fastforce
          have i3: "i1 \<le> i3" using e i2 sqlite3Utf8Read_gt [of i2 zP] by (auto split: if_splits)
          have q: "parse_pattern info other (d # chars zP i2) = (if e = 0 then [Never] else Lit e # parse_pattern info other (chars zP i3))"
          proof (cases "d = other")
            case True
            then show ?thesis using nset nz sp(2) e chars_read [of zP i2 e i3] by (simp add: parse_pattern.simps(2))
          next
            case False
            then show ?thesis using nset nz sp(2) e by (auto simp: parse_pattern.simps(2))
          qed
          have m: "item_matches info ?p (chars zS j) = item_matches info (AnySeq # (if e = 0 then [Never] else Lit e # parse_pattern info other (chars zP i3))) (chars zS j2)"
            unfolding sp(1) using nz q by simp
          have a: "answers info (parse_pattern info other (chars zP i3)) zS (patternCompare info other zP i3 zS)"
            by (rule IH) (use star i3 in auto)
          have pc: "patternCompare info other zP i zS j = (if e = 0 then 2 else if e < 0x80 then search_stop (patternCompare info other zP i3 zS) (stop_bytes info e) zS j2
              else search_char (patternCompare info other zP i3 zS) e zS j2)"
            using star r ss nz nset e by (subst patternCompare.simps) (auto simp: match_codes)
          consider "e = 0" | "e \<noteq> 0" "e < 0x80" | "e \<noteq> 0" "\<not> e < 0x80" by blast
          then show ?thesis
          proof cases
            case 1
            have "\<not> item_matches info (AnySeq # [Never]) s" for s by (induction s) auto
            then show ?thesis unfolding pc m using 1 by simp
          next
            case 2
            have "search_stop (patternCompare info other zP i3 zS) (stop_bytes info e) zS j2
                = (if item_matches info (AnySeq # Lit e # parse_pattern info other (chars zP i3)) (chars zS j2) then 0 else 2)"
              by (rule search_stop_spec [OF a stop_bytes_same [OF 2(2)]])
            then show ?thesis unfolding pc m using 2 by simp
          next
            case 3
            have "search_char (patternCompare info other zP i3 zS) e zS j2
                = (if item_matches info (AnySeq # Lit e # parse_pattern info other (chars zP i3)) (chars zS j2) then 0 else 2)"
              by (rule search_char_spec [OF a same_char_big [OF 3(2)] 3(1)])
            then show ?thesis unfolding pc m using 3 by simp
          qed
        qed
      qed
    qed
    show ?thesis unfolding answers_def
    proof (intro allI conjI impI)
      fix j k assume "patternCompare info other zP i zS j = 2"
      then have "\<not> item_matches info ?p (chars zS j)" unfolding res by (auto split: if_splits)
      then show "\<not> item_matches info ?p (drop k (chars zS j))" unfolding p using anyseq_drop by blast
    qed (auto simp: res)
  next
    case set
    have p: "?p = (case set_items (chars zP i1) of None \<Rightarrow> [Never] | Some (neg, s, t) \<Rightarrow> OneOf neg s # parse_pattern info other t)"
      using set by (simp add: c parse_pattern.simps(2))
    show ?thesis unfolding answers_def
    proof (rule allI)
      fix j
      obtain x j1 where x: "sqlite3Utf8Read zS j = (x, j1)" by fastforce
      obtain f i2 where f: "match_set zP i1 x = (f, i2)" by fastforce
      have i2: "i1 \<le> i2" using match_set_gt [of i1 zP x] f by simp
      have pc: "patternCompare info other zP i zS j = (if x = 0 then 1 else if f then patternCompare info other zP i2 zS j1 else 1)"
        using set r x f by (subst patternCompare.simps) (simp add: match_codes)
      have ch: "chars zS j = (if x = 0 then [] else x # chars zS j1)" by (rule chars_read [OF x])
      note ms = match_set_spec [of zP i1 x, unfolded f]
      let ?Q = "patternCompare info other zP i zS j \<le> 2 \<and> (patternCompare info other zP i zS j = 0 \<longleftrightarrow> item_matches info ?p (chars zS j))
          \<and> (patternCompare info other zP i zS j = 2 \<longrightarrow> (\<forall>k. \<not> item_matches info ?p (drop k (chars zS j))))"
      show ?Q
      proof (cases "x \<noteq> 0 \<and> f")
        case False
        then have "patternCompare info other zP i zS j = 1" unfolding pc by auto
        moreover have "\<not> item_matches info ?p (chars zS j)" using False ms unfolding p ch by (auto split: option.splits)
        ultimately show ?thesis by simp
      next
        case True
        then obtain neg s t where si: "set_items (chars zP i1) = Some (neg, s, t)" "in_ranges x s \<noteq> neg" "chars zP i2 = t"
          using ms by (auto split: option.splits)
        have a: "answers info (parse_pattern info other t) zS (patternCompare info other zP i2 zS)"
          using IH [OF set(1) i2] si(3) by simp
        have "patternCompare info other zP i zS j = patternCompare info other zP i2 zS j1" using pc True by simp
        moreover have "chars zS j = x # chars zS j1" using ch True by simp
        moreover have "?p = OneOf neg s # parse_pattern info other t" unfolding p si(1) by simp
        ultimately show ?thesis
          using answer_step [OF a, of j x j1 "OneOf neg s" "\<lambda>y. in_ranges y s \<noteq> neg"] si(2) by simp
      qed
    qed
  next
    case chr
    obtain e i2 where e: "(if c = other then sqlite3Utf8Read zP i1 else (c, i1)) = (e, i2)" by fastforce
    have i2: "i1 \<le> i2" using e sqlite3Utf8Read_gt [of i1 zP] by (auto split: if_splits)
    define one where "one \<longleftrightarrow> e = ucast (matchOne info) \<and> c \<noteq> other"
    have p: "?p = (if e = 0 then [Never] else (if one then AnyOne else Lit e) # parse_pattern info other (chars zP i2))"
    proof (cases "c = other")
      case True
      then show ?thesis using chr e chars_read [of zP i1 e i2] by (simp add: c parse_pattern.simps(2) one_def)
    next
      case False
      then show ?thesis using chr e by (auto simp: c parse_pattern.simps(2) one_def)
    qed
    have a: "answers info (parse_pattern info other (chars zP i2)) zS (patternCompare info other zP i2 zS)" by (rule IH [OF chr(1) i2])
    show ?thesis unfolding answers_def
    proof (rule allI)
      fix j
      obtain x j1 where x: "Utf8Read zS j = (x, j1)" by fastforce
      have ch: "chars zS j = (if x = 0 then [] else x # chars zS j1)" using x by (intro chars_read) (simp add: Utf8Read_eq)
      have pc: "patternCompare info other zP i zS j = (if e = 0 then 1
          else if same_char info e x \<or> one \<and> x \<noteq> 0 then patternCompare info other zP i2 zS j1 else 1)"
        unfolding one_def conj_assoc match_codes [symmetric]
      by (subst patternCompare.simps)
         (simp only: r Let_def prod.case if_not_P [OF chr(1)] if_not_P [OF chr(2)] if_not_P [OF chr(3)] e x)
      let ?Q = "patternCompare info other zP i zS j \<le> 2 \<and> (patternCompare info other zP i zS j = 0 \<longleftrightarrow> item_matches info ?p (chars zS j))
          \<and> (patternCompare info other zP i zS j = 2 \<longrightarrow> (\<forall>k. \<not> item_matches info ?p (drop k (chars zS j))))"
      have s0: "\<not> same_char info e 0" if "e \<noteq> 0"
      proof
        assume s: "same_char info e 0"
        then have "UpperToLower (ucast e) = UpperToLower 0" "e < 0x80" using that by (auto simp: same_char_def)
        then have "ucast e = (0 :: u8)" using UpperToLower_0 by metis
        then show False using that unat_ucast_u32 [OF \<open>e < 0x80\<close>] by (simp add: word_unat_eq_iff)
      qed
      show ?Q
      proof (cases "e \<noteq> 0 \<and> x \<noteq> 0 \<and> (same_char info e x \<or> one)")
        case False
        then have "patternCompare info other zP i zS j = 1" unfolding pc using s0 by auto
        moreover have "\<not> item_matches info ?p (chars zS j)" using False unfolding p ch by auto
        ultimately show ?thesis by simp
      next
        case True
        have "patternCompare info other zP i zS j = patternCompare info other zP i2 zS j1" using pc True by simp
        moreover have "chars zS j = x # chars zS j1" using ch True by simp
        moreover have "?p = (if one then AnyOne else Lit e) # parse_pattern info other (chars zP i2)" using p True by simp
        ultimately show ?thesis
          using answer_step [OF a, of j x j1 "if one then AnyOne else Lit e" "\<lambda>y. one \<or> same_char info e y"] True by auto
      qed
    qed
  qed
qed


text \<open>C7: The matcher of LIKE and GLOB decides exactly whether the text matches the pattern: it answers
  \<open>SQLITE_MATCH\<close> if and only if the characters of the text can be divided among the items of the pattern,
  for every pattern, every text (well-formed or not) and every choice of special characters; when it
  answers \<open>SQLITE_NOWILDCARDMATCH\<close>, which ends the searches of its callers early, no later part of the
  text matches either.\<close>

theorem patternCompare_decides:
  assumes "info_ok info other"
  shows "(patternCompare info other zP i zS j = SQLITE_MATCH \<longleftrightarrow> item_matches info (parse_pattern info other (chars zP i)) (chars zS j))
    \<and> (patternCompare info other zP i zS j = SQLITE_NOWILDCARDMATCH \<longrightarrow>
        (\<forall>k. \<not> item_matches info (parse_pattern info other (chars zP i)) (drop k (chars zS j))))
    \<and> patternCompare info other zP i zS j \<in> {SQLITE_MATCH, SQLITE_NOMATCH, SQLITE_NOWILDCARDMATCH}"
proof -
  note a = answersD [OF patternCompare_answers [OF assms], of zP i zS j]
  have "patternCompare info other zP i zS j \<in> {0, 1, 2}" using a(1) by auto
  then show ?thesis using a by (simp add: match_codes)
qed

lemma glob_ok: "info_ok globInfo 0x5B"
  by (simp add: info_ok_def globInfo_def)

theorem patternCompare_decides_witness:
  "patternCompare globInfo 0x5B [0x2A, 0x5B, 0x61, 0x2D, 0x63, 0x5D, 0x3F] 0 [0x78, 0xC3, 0xA9, 0x62, 0xC3, 0xA9] 0 = SQLITE_MATCH"
proof -
  have c: "chars [0x2A, 0x5B, 0x61, 0x2D, 0x63, 0x5D, 0x3F] 0 = [0x2A, 0x5B, 0x61, 0x2D, 0x63, 0x5D, 0x3F]"
    "chars [0x78, 0xC3, 0xA9, 0x62, 0xC3, 0xA9] 0 = [0x78, 0xE9, 0x62, 0xE9]"
    by (simp_all add: chars.simps sqlite3Utf8Read_def byte_at_def utf8_cont.simps is_cont_def sqlite3Utf8Trans1_def utf8_check_def)
  have p: "parse_pattern globInfo 0x5B [0x2A, 0x5B, 0x61, 0x2D, 0x63, 0x5D, 0x3F] = [AnySeq, OneOf False [(0x61, 0x61), (0x61, 0x63)], AnyOne]"
    by (simp add: parse_pattern.simps(2) globInfo_def set_items_def)
  have "item_matches globInfo [AnySeq, OneOf False [(0x61, 0x61), (0x61, 0x63)], AnyOne] [0x78, 0xE9, 0x62, 0xE9]" by simp
  then show ?thesis using patternCompare_decides [OF glob_ok] c p by simp
qed

definition escape_info :: "compareInfo \<Rightarrow> u32 \<Rightarrow> compareInfo" where
  "escape_info info e = info\<lparr>matchAll := (if e = ucast (matchAll info) then 0 else matchAll info),
      matchOne := (if e = ucast (matchOne info) then 0 else matchOne info)\<rparr>"

lemma escape_info_code:
  assumes "info = likeInfoNorm \<or> info = likeInfoAlt"
  shows "(if e = ucast (matchAll info) \<or> e = ucast (matchOne info) then
      (let q = (if e = ucast (matchAll info) then info\<lparr>matchAll := 0\<rparr> else info)
       in if e = ucast (matchOne q) then q\<lparr>matchOne := 0\<rparr> else q) else info) = escape_info info e"
  using assms by (auto simp: escape_info_def Let_def likeInfoNorm_def likeInfoAlt_def)

lemma escape_info_ok:
  assumes "info = likeInfoNorm \<or> info = likeInfoAlt"
  shows "info_ok (escape_info info e) e"
  using assms by (auto simp: info_ok_def escape_info_def likeInfoNorm_def likeInfoAlt_def)

lemma match_int: "info_ok info e \<Longrightarrow>
    (if patternCompare info e zB 0 zA 0 = SQLITE_MATCH then 1 else 0) = (if item_matches info (parse_pattern info e (chars zB 0)) (chars zA 0) then 1 else (0 :: nat))"
  using answersD(2) [OF patternCompare_answers, of info e zB 0 zA 0] by (simp add: match_codes)

text \<open>C37: The SQL function of LIKE and GLOB returns 1 or 0 as the text matches the pattern or not; an escape
  character that is one of the wildcards takes away the wildcard's meaning, an escape of other than one
  character is an error, a NULL operand gives NULL, and a pattern above the limit is refused.\<close>

theorem likeFunc_result:
  assumes "info = likeInfoNorm \<or> info = likeInfoAlt \<or> info = globInfo \<and> esc = None"
  shows "likeFunc info limit nPat zB zA esc =
    (if limit < nPat then LikeTooComplex
     else case esc of
       None \<Rightarrow> (case (zA, zB) of
           (Some a, Some b) \<Rightarrow> LikeInt (if item_matches info (parse_pattern info (ucast (matchSet info)) (chars b 0)) (chars a 0) then 1 else 0)
         | _ \<Rightarrow> LikeNull)
     | Some None \<Rightarrow> LikeNull
     | Some (Some z) \<Rightarrow>
         if sqlite3Utf8CharLen z (- 1) \<noteq> 1 then LikeBadEscape
         else (let e = fst (sqlite3Utf8Read z 0) in case (zA, zB) of
           (Some a, Some b) \<Rightarrow> LikeInt (if item_matches (escape_info info e) (parse_pattern (escape_info info e) e (chars b 0)) (chars a 0) then 1 else 0)
         | _ \<Rightarrow> LikeNull))"
proof (cases "limit < nPat")
  case True
  then show ?thesis by (simp add: likeFunc_def)
next
  case lim: False
  show ?thesis
  proof (cases esc)
    case None
    have ok: "info_ok info (ucast (matchSet info))"
      using assms by (auto simp: info_ok_def likeInfoNorm_def likeInfoAlt_def globInfo_def)
    show ?thesis using lim None match_int [OF ok] by (simp add: likeFunc_def split: option.split)
  next
    case (Some oe)
    then have like: "info = likeInfoNorm \<or> info = likeInfoAlt" using assms by auto
    show ?thesis
    proof (cases oe)
      case None
      then show ?thesis using lim Some by (simp add: likeFunc_def)
    next
      case z: (Some z)
      show ?thesis
      proof (cases "sqlite3Utf8CharLen z (- 1) = 1")
        case False
        then show ?thesis using lim Some z by (simp add: likeFunc_def)
      next
        case True
        let ?e = "fst (sqlite3Utf8Read z 0)"
        have "likeFunc info limit nPat zB zA esc = (case (zA, zB) of
            (Some a, Some b) \<Rightarrow> LikeInt (if patternCompare (escape_info info ?e) ?e b 0 a 0 = SQLITE_MATCH then 1 else 0) | _ \<Rightarrow> LikeNull)"
          using True lim Some z unfolding likeFunc_def escape_info_code [OF like, symmetric] by (simp add: Let_def)
        then show ?thesis using True lim Some z match_int [OF escape_info_ok [OF like], of ?e] by (simp add: Let_def split: option.split)
      qed
    qed
  qed
qed

theorem likeFunc_result_witness:
  "likeFunc likeInfoNorm 10 3 (Some [0x61, 0x25, 0x25]) (Some [0x41, 0x25]) (Some (Some [0x25])) = LikeInt 1"
proof -
  have c: "chars [0x61, 0x25, 0x25] 0 = [0x61, 0x25, 0x25]" "chars [0x41, 0x25] 0 = [0x41, 0x25]" "sqlite3Utf8Read [0x25] 0 = (0x25, Suc 0)"
    "sqlite3Utf8CharLen [0x25] (- 1) = 1"
    by (simp_all add: chars.simps sqlite3Utf8Read_def byte_at_def sqlite3Utf8CharLen_def Utf8CharLen_loop.simps SQLITE_SKIP_UTF8_def)
  have e: "escape_info likeInfoNorm 0x25 = \<lparr>matchAll = 0, matchOne = 0x5F, matchSet = 0, noCase = True\<rparr>"
    by (simp add: escape_info_def likeInfoNorm_def)
  have "item_matches (escape_info likeInfoNorm 0x25) (parse_pattern (escape_info likeInfoNorm 0x25) 0x25 [0x61, 0x25, 0x25]) [0x41, 0x25]"
    unfolding e by (simp add: parse_pattern.simps(2) same_char_def UpperToLower_eq)
  then show ?thesis
    using likeFunc_result [of likeInfoNorm "Some (Some [0x25])" 10 3 "Some [0x61, 0x25, 0x25]" "Some [0x41, 0x25]"] c by (simp add: Let_def)
qed

end
