(* ===== verification/Token_Codes.thy ===== *)
theory Token_Codes
  imports Sqlite_Prelude
begin

section \<open>Token codes of the SQL parser (parse.h)\<close>

text \<open>
  The codes by which the tokenizer names the kind of a token, as the generated parser header defines
  them, and the parser's fallback table: the keywords that may also serve as identifiers. Only the
  codes that the tokenizer and the keyword table mention are listed. \<open>token_codes\<close> collects their
  values.
\<close>

named_theorems token_codes "the numeric values of the token codes"

definition TK_SEMI :: int where [token_codes]: "TK_SEMI = 1"
definition TK_EXPLAIN :: int where [token_codes]: "TK_EXPLAIN = 2"
definition TK_QUERY :: int where [token_codes]: "TK_QUERY = 3"
definition TK_PLAN :: int where [token_codes]: "TK_PLAN = 4"
definition TK_BEGIN :: int where [token_codes]: "TK_BEGIN = 5"
definition TK_TRANSACTION :: int where [token_codes]: "TK_TRANSACTION = 6"
definition TK_DEFERRED :: int where [token_codes]: "TK_DEFERRED = 7"
definition TK_IMMEDIATE :: int where [token_codes]: "TK_IMMEDIATE = 8"
definition TK_EXCLUSIVE :: int where [token_codes]: "TK_EXCLUSIVE = 9"
definition TK_COMMIT :: int where [token_codes]: "TK_COMMIT = 10"
definition TK_END :: int where [token_codes]: "TK_END = 11"
definition TK_ROLLBACK :: int where [token_codes]: "TK_ROLLBACK = 12"
definition TK_SAVEPOINT :: int where [token_codes]: "TK_SAVEPOINT = 13"
definition TK_RELEASE :: int where [token_codes]: "TK_RELEASE = 14"
definition TK_TO :: int where [token_codes]: "TK_TO = 15"
definition TK_TABLE :: int where [token_codes]: "TK_TABLE = 16"
definition TK_CREATE :: int where [token_codes]: "TK_CREATE = 17"
definition TK_IF :: int where [token_codes]: "TK_IF = 18"
definition TK_NOT :: int where [token_codes]: "TK_NOT = 19"
definition TK_EXISTS :: int where [token_codes]: "TK_EXISTS = 20"
definition TK_TEMP :: int where [token_codes]: "TK_TEMP = 21"
definition TK_LP :: int where [token_codes]: "TK_LP = 22"
definition TK_RP :: int where [token_codes]: "TK_RP = 23"
definition TK_AS :: int where [token_codes]: "TK_AS = 24"
definition TK_COMMA :: int where [token_codes]: "TK_COMMA = 25"
definition TK_WITHOUT :: int where [token_codes]: "TK_WITHOUT = 26"
definition TK_ABORT :: int where [token_codes]: "TK_ABORT = 27"
definition TK_ACTION :: int where [token_codes]: "TK_ACTION = 28"
definition TK_AFTER :: int where [token_codes]: "TK_AFTER = 29"
definition TK_ANALYZE :: int where [token_codes]: "TK_ANALYZE = 30"
definition TK_ASC :: int where [token_codes]: "TK_ASC = 31"
definition TK_ATTACH :: int where [token_codes]: "TK_ATTACH = 32"
definition TK_BEFORE :: int where [token_codes]: "TK_BEFORE = 33"
definition TK_BY :: int where [token_codes]: "TK_BY = 34"
definition TK_CASCADE :: int where [token_codes]: "TK_CASCADE = 35"
definition TK_CAST :: int where [token_codes]: "TK_CAST = 36"
definition TK_CONFLICT :: int where [token_codes]: "TK_CONFLICT = 37"
definition TK_DATABASE :: int where [token_codes]: "TK_DATABASE = 38"
definition TK_DESC :: int where [token_codes]: "TK_DESC = 39"
definition TK_DETACH :: int where [token_codes]: "TK_DETACH = 40"
definition TK_EACH :: int where [token_codes]: "TK_EACH = 41"
definition TK_FAIL :: int where [token_codes]: "TK_FAIL = 42"
definition TK_OR :: int where [token_codes]: "TK_OR = 43"
definition TK_AND :: int where [token_codes]: "TK_AND = 44"
definition TK_IS :: int where [token_codes]: "TK_IS = 45"
definition TK_MATCH :: int where [token_codes]: "TK_MATCH = 47"
definition TK_LIKE_KW :: int where [token_codes]: "TK_LIKE_KW = 48"
definition TK_BETWEEN :: int where [token_codes]: "TK_BETWEEN = 49"
definition TK_IN :: int where [token_codes]: "TK_IN = 50"
definition TK_ISNULL :: int where [token_codes]: "TK_ISNULL = 51"
definition TK_NOTNULL :: int where [token_codes]: "TK_NOTNULL = 52"
definition TK_NE :: int where [token_codes]: "TK_NE = 53"
definition TK_EQ :: int where [token_codes]: "TK_EQ = 54"
definition TK_GT :: int where [token_codes]: "TK_GT = 55"
definition TK_LE :: int where [token_codes]: "TK_LE = 56"
definition TK_LT :: int where [token_codes]: "TK_LT = 57"
definition TK_GE :: int where [token_codes]: "TK_GE = 58"
definition TK_ESCAPE :: int where [token_codes]: "TK_ESCAPE = 59"
definition TK_ID :: int where [token_codes]: "TK_ID = 60"
definition TK_COLUMNKW :: int where [token_codes]: "TK_COLUMNKW = 61"
definition TK_DO :: int where [token_codes]: "TK_DO = 62"
definition TK_FOR :: int where [token_codes]: "TK_FOR = 63"
definition TK_IGNORE :: int where [token_codes]: "TK_IGNORE = 64"
definition TK_INITIALLY :: int where [token_codes]: "TK_INITIALLY = 65"
definition TK_INSTEAD :: int where [token_codes]: "TK_INSTEAD = 66"
definition TK_NO :: int where [token_codes]: "TK_NO = 67"
definition TK_KEY :: int where [token_codes]: "TK_KEY = 68"
definition TK_OF :: int where [token_codes]: "TK_OF = 69"
definition TK_OFFSET :: int where [token_codes]: "TK_OFFSET = 70"
definition TK_PRAGMA :: int where [token_codes]: "TK_PRAGMA = 71"
definition TK_RAISE :: int where [token_codes]: "TK_RAISE = 72"
definition TK_RECURSIVE :: int where [token_codes]: "TK_RECURSIVE = 73"
definition TK_REPLACE :: int where [token_codes]: "TK_REPLACE = 74"
definition TK_RESTRICT :: int where [token_codes]: "TK_RESTRICT = 75"
definition TK_ROW :: int where [token_codes]: "TK_ROW = 76"
definition TK_ROWS :: int where [token_codes]: "TK_ROWS = 77"
definition TK_TRIGGER :: int where [token_codes]: "TK_TRIGGER = 78"
definition TK_VACUUM :: int where [token_codes]: "TK_VACUUM = 79"
definition TK_VIEW :: int where [token_codes]: "TK_VIEW = 80"
definition TK_VIRTUAL :: int where [token_codes]: "TK_VIRTUAL = 81"
definition TK_WITH :: int where [token_codes]: "TK_WITH = 82"
definition TK_NULLS :: int where [token_codes]: "TK_NULLS = 83"
definition TK_FIRST :: int where [token_codes]: "TK_FIRST = 84"
definition TK_LAST :: int where [token_codes]: "TK_LAST = 85"
definition TK_CURRENT :: int where [token_codes]: "TK_CURRENT = 86"
definition TK_FOLLOWING :: int where [token_codes]: "TK_FOLLOWING = 87"
definition TK_PARTITION :: int where [token_codes]: "TK_PARTITION = 88"
definition TK_PRECEDING :: int where [token_codes]: "TK_PRECEDING = 89"
definition TK_RANGE :: int where [token_codes]: "TK_RANGE = 90"
definition TK_UNBOUNDED :: int where [token_codes]: "TK_UNBOUNDED = 91"
definition TK_EXCLUDE :: int where [token_codes]: "TK_EXCLUDE = 92"
definition TK_GROUPS :: int where [token_codes]: "TK_GROUPS = 93"
definition TK_OTHERS :: int where [token_codes]: "TK_OTHERS = 94"
definition TK_TIES :: int where [token_codes]: "TK_TIES = 95"
definition TK_GENERATED :: int where [token_codes]: "TK_GENERATED = 96"
definition TK_ALWAYS :: int where [token_codes]: "TK_ALWAYS = 97"
definition TK_MATERIALIZED :: int where [token_codes]: "TK_MATERIALIZED = 98"
definition TK_REINDEX :: int where [token_codes]: "TK_REINDEX = 99"
definition TK_RENAME :: int where [token_codes]: "TK_RENAME = 100"
definition TK_CTIME_KW :: int where [token_codes]: "TK_CTIME_KW = 101"
definition TK_BITAND :: int where [token_codes]: "TK_BITAND = 103"
definition TK_BITOR :: int where [token_codes]: "TK_BITOR = 104"
definition TK_LSHIFT :: int where [token_codes]: "TK_LSHIFT = 105"
definition TK_RSHIFT :: int where [token_codes]: "TK_RSHIFT = 106"
definition TK_PLUS :: int where [token_codes]: "TK_PLUS = 107"
definition TK_MINUS :: int where [token_codes]: "TK_MINUS = 108"
definition TK_STAR :: int where [token_codes]: "TK_STAR = 109"
definition TK_SLASH :: int where [token_codes]: "TK_SLASH = 110"
definition TK_REM :: int where [token_codes]: "TK_REM = 111"
definition TK_CONCAT :: int where [token_codes]: "TK_CONCAT = 112"
definition TK_PTR :: int where [token_codes]: "TK_PTR = 113"
definition TK_COLLATE :: int where [token_codes]: "TK_COLLATE = 114"
definition TK_BITNOT :: int where [token_codes]: "TK_BITNOT = 115"
definition TK_ON :: int where [token_codes]: "TK_ON = 116"
definition TK_INDEXED :: int where [token_codes]: "TK_INDEXED = 117"
definition TK_STRING :: int where [token_codes]: "TK_STRING = 118"
definition TK_JOIN_KW :: int where [token_codes]: "TK_JOIN_KW = 119"
definition TK_CONSTRAINT :: int where [token_codes]: "TK_CONSTRAINT = 120"
definition TK_DEFAULT :: int where [token_codes]: "TK_DEFAULT = 121"
definition TK_NULL :: int where [token_codes]: "TK_NULL = 122"
definition TK_PRIMARY :: int where [token_codes]: "TK_PRIMARY = 123"
definition TK_UNIQUE :: int where [token_codes]: "TK_UNIQUE = 124"
definition TK_CHECK :: int where [token_codes]: "TK_CHECK = 125"
definition TK_REFERENCES :: int where [token_codes]: "TK_REFERENCES = 126"
definition TK_AUTOINCR :: int where [token_codes]: "TK_AUTOINCR = 127"
definition TK_INSERT :: int where [token_codes]: "TK_INSERT = 128"
definition TK_DELETE :: int where [token_codes]: "TK_DELETE = 129"
definition TK_UPDATE :: int where [token_codes]: "TK_UPDATE = 130"
definition TK_SET :: int where [token_codes]: "TK_SET = 131"
definition TK_DEFERRABLE :: int where [token_codes]: "TK_DEFERRABLE = 132"
definition TK_FOREIGN :: int where [token_codes]: "TK_FOREIGN = 133"
definition TK_DROP :: int where [token_codes]: "TK_DROP = 134"
definition TK_UNION :: int where [token_codes]: "TK_UNION = 135"
definition TK_ALL :: int where [token_codes]: "TK_ALL = 136"
definition TK_EXCEPT :: int where [token_codes]: "TK_EXCEPT = 137"
definition TK_INTERSECT :: int where [token_codes]: "TK_INTERSECT = 138"
definition TK_SELECT :: int where [token_codes]: "TK_SELECT = 139"
definition TK_VALUES :: int where [token_codes]: "TK_VALUES = 140"
definition TK_DISTINCT :: int where [token_codes]: "TK_DISTINCT = 141"
definition TK_DOT :: int where [token_codes]: "TK_DOT = 142"
definition TK_FROM :: int where [token_codes]: "TK_FROM = 143"
definition TK_JOIN :: int where [token_codes]: "TK_JOIN = 144"
definition TK_USING :: int where [token_codes]: "TK_USING = 145"
definition TK_ORDER :: int where [token_codes]: "TK_ORDER = 146"
definition TK_GROUP :: int where [token_codes]: "TK_GROUP = 147"
definition TK_HAVING :: int where [token_codes]: "TK_HAVING = 148"
definition TK_LIMIT :: int where [token_codes]: "TK_LIMIT = 149"
definition TK_WHERE :: int where [token_codes]: "TK_WHERE = 150"
definition TK_RETURNING :: int where [token_codes]: "TK_RETURNING = 151"
definition TK_INTO :: int where [token_codes]: "TK_INTO = 152"
definition TK_NOTHING :: int where [token_codes]: "TK_NOTHING = 153"
definition TK_FLOAT :: int where [token_codes]: "TK_FLOAT = 154"
definition TK_BLOB :: int where [token_codes]: "TK_BLOB = 155"
definition TK_INTEGER :: int where [token_codes]: "TK_INTEGER = 156"
definition TK_VARIABLE :: int where [token_codes]: "TK_VARIABLE = 157"
definition TK_CASE :: int where [token_codes]: "TK_CASE = 158"
definition TK_WHEN :: int where [token_codes]: "TK_WHEN = 159"
definition TK_THEN :: int where [token_codes]: "TK_THEN = 160"
definition TK_ELSE :: int where [token_codes]: "TK_ELSE = 161"
definition TK_INDEX :: int where [token_codes]: "TK_INDEX = 162"
definition TK_ALTER :: int where [token_codes]: "TK_ALTER = 163"
definition TK_ADD :: int where [token_codes]: "TK_ADD = 164"
definition TK_WINDOW :: int where [token_codes]: "TK_WINDOW = 165"
definition TK_OVER :: int where [token_codes]: "TK_OVER = 166"
definition TK_FILTER :: int where [token_codes]: "TK_FILTER = 167"
definition TK_QNUMBER :: int where [token_codes]: "TK_QNUMBER = 183"
definition TK_SPACE :: int where [token_codes]: "TK_SPACE = 184"
definition TK_COMMENT :: int where [token_codes]: "TK_COMMENT = 185"
definition TK_ILLEGAL :: int where [token_codes]: "TK_ILLEGAL = 186"

subsection \<open>Fallback to identifiers\<close>

definition yyFallback :: "int list" where
  "yyFallback =
   [0, 0, 60, 60, 60, 60, 0, 60, 60, 60, 0, 60, 60, 60, 60, 0, 0, 0, 60, 0, 0, 60, 0, 0,
    0, 0, 60, 60, 60, 60, 60, 60, 60, 60, 60, 60, 60, 60, 60, 60, 60, 60, 60, 0, 0, 0, 0, 60,
    60, 0, 0, 0, 0, 0, 0, 0, 0, 0, 0, 0, 0, 60, 60, 60, 60, 60, 60, 60, 60, 60, 60, 60,
    60, 60, 60, 60, 60, 60, 60, 60, 60, 60, 60, 60, 60, 60, 60, 60, 60, 60, 60, 60, 60, 60, 60, 60,
    60, 60, 60, 60, 60, 60, 0, 0, 0, 0, 0, 0, 0, 0, 0, 0, 0, 0, 0, 0, 0, 0, 0, 0,
    0, 0, 0, 0, 0, 0, 0, 0, 0, 0, 0, 0, 0, 0, 0, 0, 0, 0, 0, 0, 0, 0, 0, 0,
    0, 0, 0, 0, 0, 0, 0, 0, 0, 0, 0, 0, 0, 0, 0, 0, 0, 0, 0, 0, 0, 0, 0, 0,
    0, 0, 0, 0, 0, 0, 0, 0, 0, 0, 0, 0, 0, 0, 0, 0, 0, 0, 0]"

definition sqlite3ParserFallback :: "int \<Rightarrow> int" where
  "sqlite3ParserFallback iToken = (if nat iToken < length yyFallback then yyFallback ! nat iToken else 0)"

end
