(* ===== verification/Keywords.thy ===== *)
theory Keywords
  imports Ctype Token_Codes
begin

section \<open>The keyword table (keywordhash.h)\<close>

text \<open>
  The lookup by which the tokenizer tells keywords from identifiers: the tables that mkkeywordhash.c
  packs the keywords into, the hash probe \<open>keywordCode\<close>, and the public functions that enumerate and
  check keywords. \<open>sql_keywords\<close> is the plain list of the keywords; the theorem at the end shows that
  the probe of the packed tables is a search of that list.
\<close>

subsection \<open>Tables\<close>

text \<open>The bytes of a literal string.\<close>

definition ascii :: "string \<Rightarrow> bytes" where
  "ascii s = map of_char s"

definition kw_chars :: string where
  "kw_chars =
    (''REINDEXEDESCAPEACHECKEYBEFOREIGNOREGEXPLAINSTEADDATABASELECT'' @
     ''ABLEFTHENDEFERRABLELSEXCLUDELETEMPORARYISNULLSAVEPOINTERSECT'' @
     ''IESNOTNULLIKEXCEPTRANSACTIONATURALTERAISEXCLUSIVEXISTSCONSTR'' @
     ''AINTOFFSETRIGGERANGENERATEDETACHAVINGLOBEGINNEREFERENCESUNIQ'' @
     ''UERYWITHOUTERELEASEATTACHBETWEENOTHINGROUPSCASCADEFAULTCASEC'' @
     ''OLLATECREATECURRENT_DATEIMMEDIATEJOINSERTMATCHPLANALYZEPRAGM'' @
     ''ATERIALIZEDEFERREDISTINCTUPDATEVALUESVIRTUALWAYSWHENWHERECUR'' @
     ''SIVEABORTAFTERENAMEANDROPARTITIONAUTOINCREMENTCASTCOLUMNCOMM'' @
     ''ITCONFLICTCROSSCURRENT_TIMESTAMPRECEDINGFAILASTFILTEREPLACEF'' @
     ''IRSTFOLLOWINGFROMFULLIMITIFORDERESTRICTOTHERSOVERETURNINGRIG'' @
     ''HTROLLBACKROWSUNBOUNDEDUNIONUSINGVACUUMVIEWINDOWBYINITIALLYP'' @
     ''RIMARY'')"

definition zKWText :: bytes where
  "zKWText = ascii kw_chars"

definition aKWHash :: "int list" where
  "aKWHash =
   [84, 92, 134, 82, 105, 29, 0, 0, 94, 0, 85, 72, 0,
    53, 35, 86, 15, 0, 42, 97, 54, 89, 135, 19, 0, 0,
    140, 0, 40, 129, 0, 22, 107, 0, 9, 0, 0, 123, 80,
    0, 78, 6, 0, 65, 103, 147, 0, 136, 115, 0, 0, 48,
    0, 90, 24, 0, 17, 0, 27, 70, 23, 26, 5, 60, 142,
    110, 122, 0, 73, 91, 71, 145, 61, 120, 74, 0, 49, 0,
    11, 41, 0, 113, 0, 0, 0, 109, 10, 111, 116, 125, 14,
    50, 124, 0, 100, 0, 18, 121, 144, 56, 130, 139, 88, 83,
    37, 30, 126, 0, 0, 108, 51, 131, 128, 0, 34, 0, 0,
    132, 0, 98, 38, 39, 0, 20, 45, 117, 93]"

definition aKWNext :: "int list" where
  "aKWNext =
   [0, 0, 0, 0, 0, 4, 0, 43, 0, 0, 106, 114, 0, 0, 0, 2, 0, 0, 143, 0,
    0, 0, 13, 0, 0, 0, 0, 141, 0, 0, 119, 52, 0, 0, 137, 12, 0, 0, 62, 0,
    138, 0, 133, 0, 0, 36, 0, 0, 28, 77, 0, 0, 0, 0, 59, 0, 47, 0, 0, 0,
    0, 0, 0, 0, 0, 0, 0, 69, 0, 0, 0, 0, 0, 146, 3, 0, 58, 0, 1, 75,
    0, 0, 0, 31, 0, 0, 0, 0, 0, 127, 0, 104, 0, 64, 66, 63, 0, 0, 0, 0,
    0, 46, 0, 16, 8, 0, 0, 0, 0, 0, 0, 0, 0, 0, 0, 81, 101, 0, 112, 21,
    7, 67, 0, 79, 96, 118, 0, 0, 68, 0, 0, 99, 44, 0, 55, 0, 76, 0, 95, 32,
    33, 57, 25, 0, 102, 0, 0, 87]"

definition aKWLen :: "int list" where
  "aKWLen =
   [0, 7, 7, 5, 4, 6, 4, 5, 3, 6, 7, 3, 6, 6, 7, 7, 3, 8, 2, 6,
    5, 4, 4, 3, 10, 4, 7, 6, 9, 4, 2, 6, 5, 9, 9, 4, 7, 3, 2, 4,
    4, 6, 11, 6, 2, 7, 5, 5, 9, 6, 10, 4, 6, 2, 3, 7, 5, 9, 6, 6,
    4, 5, 5, 10, 6, 5, 7, 4, 5, 7, 6, 7, 7, 6, 5, 7, 3, 7, 4, 7,
    6, 12, 9, 4, 6, 5, 4, 7, 6, 12, 8, 8, 2, 6, 6, 7, 6, 4, 5, 9,
    5, 5, 6, 3, 4, 9, 13, 2, 2, 4, 6, 6, 8, 5, 17, 12, 7, 9, 4, 4,
    6, 7, 5, 9, 4, 4, 5, 2, 5, 8, 6, 4, 9, 5, 8, 4, 3, 9, 5, 5,
    6, 4, 6, 2, 2, 9, 3, 7]"

definition aKWOffset :: "int list" where
  "aKWOffset =
   [0, 0, 2, 2, 8, 9, 14, 16, 20, 23, 25, 25, 29, 33, 36, 41, 46, 48, 53, 54,
    59, 62, 65, 67, 69, 78, 81, 86, 90, 90, 94, 99, 101, 105, 111, 119, 123, 123, 123, 126,
    129, 132, 137, 142, 146, 147, 152, 156, 160, 168, 174, 181, 184, 184, 187, 189, 195, 198, 206, 211,
    216, 219, 222, 226, 236, 239, 244, 244, 248, 252, 259, 265, 271, 277, 277, 283, 284, 288, 295, 299,
    306, 312, 324, 333, 335, 341, 346, 348, 355, 359, 370, 377, 378, 385, 391, 397, 402, 408, 412, 415,
    424, 429, 433, 439, 441, 444, 453, 455, 457, 466, 470, 476, 482, 490, 495, 495, 495, 511, 520, 523,
    527, 532, 539, 544, 553, 557, 560, 565, 567, 571, 579, 585, 588, 597, 602, 610, 610, 614, 623, 628,
    633, 639, 642, 645, 648, 650, 655, 659]"

definition aKWCode :: "int list" where
  "aKWCode =
   [0, TK_REINDEX, TK_INDEXED, TK_INDEX, TK_DESC, TK_ESCAPE,
    TK_EACH, TK_CHECK, TK_KEY, TK_BEFORE, TK_FOREIGN, TK_FOR,
    TK_IGNORE, TK_LIKE_KW, TK_EXPLAIN, TK_INSTEAD, TK_ADD, TK_DATABASE,
    TK_AS, TK_SELECT, TK_TABLE, TK_JOIN_KW, TK_THEN, TK_END,
    TK_DEFERRABLE, TK_ELSE, TK_EXCLUDE, TK_DELETE, TK_TEMP, TK_TEMP,
    TK_OR, TK_ISNULL, TK_NULLS, TK_SAVEPOINT, TK_INTERSECT, TK_TIES,
    TK_NOTNULL, TK_NOT, TK_NO, TK_NULL, TK_LIKE_KW, TK_EXCEPT,
    TK_TRANSACTION, TK_ACTION, TK_ON, TK_JOIN_KW, TK_ALTER, TK_RAISE,
    TK_EXCLUSIVE, TK_EXISTS, TK_CONSTRAINT, TK_INTO, TK_OFFSET, TK_OF,
    TK_SET, TK_TRIGGER, TK_RANGE, TK_GENERATED, TK_DETACH, TK_HAVING,
    TK_LIKE_KW, TK_BEGIN, TK_JOIN_KW, TK_REFERENCES, TK_UNIQUE, TK_QUERY,
    TK_WITHOUT, TK_WITH, TK_JOIN_KW, TK_RELEASE, TK_ATTACH, TK_BETWEEN,
    TK_NOTHING, TK_GROUPS, TK_GROUP, TK_CASCADE, TK_ASC, TK_DEFAULT,
    TK_CASE, TK_COLLATE, TK_CREATE, TK_CTIME_KW, TK_IMMEDIATE, TK_JOIN,
    TK_INSERT, TK_MATCH, TK_PLAN, TK_ANALYZE, TK_PRAGMA, TK_MATERIALIZED,
    TK_DEFERRED, TK_DISTINCT, TK_IS, TK_UPDATE, TK_VALUES, TK_VIRTUAL,
    TK_ALWAYS, TK_WHEN, TK_WHERE, TK_RECURSIVE, TK_ABORT, TK_AFTER,
    TK_RENAME, TK_AND, TK_DROP, TK_PARTITION, TK_AUTOINCR, TK_TO,
    TK_IN, TK_CAST, TK_COLUMNKW, TK_COMMIT, TK_CONFLICT, TK_JOIN_KW,
    TK_CTIME_KW, TK_CTIME_KW, TK_CURRENT, TK_PRECEDING, TK_FAIL, TK_LAST,
    TK_FILTER, TK_REPLACE, TK_FIRST, TK_FOLLOWING, TK_FROM, TK_JOIN_KW,
    TK_LIMIT, TK_IF, TK_ORDER, TK_RESTRICT, TK_OTHERS, TK_OVER,
    TK_RETURNING, TK_JOIN_KW, TK_ROLLBACK, TK_ROWS, TK_ROW, TK_UNBOUNDED,
    TK_UNION, TK_USING, TK_VACUUM, TK_VIEW, TK_WINDOW, TK_DO,
    TK_BY, TK_INITIALLY, TK_ALL, TK_PRIMARY]"

text \<open>
  What mkkeywordhash.c generated: the text of all keywords, overlapped, and the arrays that say where
  keyword \<open>i\<close> of 1 to 147 lies in it, its token code, and the chains of the hash table. The tables
  are copied entry by entry.
\<close>

subsection \<open>Lookup\<close>

definition charMap :: "u8 \<Rightarrow> u8" where
  "charMap X = UpperToLower X"

text \<open>\<open>kw_matched z zKW n j\<close> is the inner loop; it returns the final \<open>j\<close>. The outer loop follows the
  chain of the hash slot. An index of a table is below 148, so the second disjunct of the guard only
  keeps the recursion inside the tables.\<close>

function kw_matched :: "bytes \<Rightarrow> bytes \<Rightarrow> nat \<Rightarrow> nat \<Rightarrow> nat" where
  "kw_matched z zKW n j =
     (if j < n \<and> byte_at z j AND NOT 0x20 = byte_at zKW j then kw_matched z zKW n (j + 1) else j)"
  by pat_completeness auto
termination by (relation "measure (\<lambda>(_, _, n, j). n - j)") auto

declare kw_matched.simps [simp del]

fun kw_chain :: "nat \<Rightarrow> int \<Rightarrow> int list" where
  "kw_chain 0 i = []"
| "kw_chain (Suc fuel) i = (if i \<le> 0 \<or> 148 \<le> i then [] else i # kw_chain fuel (aKWNext ! nat i))"

definition kw_depth :: "int \<Rightarrow> nat" where
  "kw_depth i = length (kw_chain 9 i)"

lemma kw_depth_table: "list_all (\<lambda>i. kw_depth (aKWNext ! nat i) < kw_depth i) [1..147]"
  by code_simp

lemma kw_depth_next: "\<not> (i \<le> 0 \<or> 148 \<le> i) \<Longrightarrow> kw_depth (aKWNext ! nat i) < kw_depth i"
  using kw_depth_table by (simp add: list_all_iff)

function keyword_probe :: "bytes \<Rightarrow> nat \<Rightarrow> int \<Rightarrow> int" where
  "keyword_probe z n i =
     (if i \<le> 0 \<or> 148 \<le> i then 0
      else if aKWLen ! nat i \<noteq> int n then keyword_probe z n (aKWNext ! nat i)
      else (let zKW = drop (nat (aKWOffset ! nat i)) zKWText in
        if byte_at z 0 AND NOT 0x20 \<noteq> byte_at zKW 0 then keyword_probe z n (aKWNext ! nat i)
        else if byte_at z 1 AND NOT 0x20 \<noteq> byte_at zKW 1 then keyword_probe z n (aKWNext ! nat i)
        else if kw_matched z zKW n 2 < n then keyword_probe z n (aKWNext ! nat i)
        else i))"
  by pat_completeness auto
termination by (relation "measure (\<lambda>(_, _, i). kw_depth i)") (auto intro: kw_depth_next)

declare keyword_probe.simps [simp del]

definition keyword_hash :: "bytes \<Rightarrow> nat \<Rightarrow> nat" where
  "keyword_hash z n =
     nat (((uint (charMap (byte_at z 0)) * 4) XOR (uint (charMap (byte_at z (n - 1))) * 3) XOR int n * 1) mod 127)"

definition keywordCode :: "bytes \<Rightarrow> nat \<Rightarrow> int \<Rightarrow> nat \<times> int" where
  "keywordCode z n pType =
     (let i = keyword_probe z n (aKWHash ! keyword_hash z n)
      in (n, if i = 0 then pType else aKWCode ! nat i))"

definition sqlite3KeywordCode :: "bytes \<Rightarrow> int \<Rightarrow> int" where
  "sqlite3KeywordCode z n = (let ident = TK_ID in if 2 \<le> n then snd (keywordCode z (nat n) ident) else ident)"

definition SQLITE_N_KEYWORD :: int where
  "SQLITE_N_KEYWORD = 147"

text \<open>\<open>sqlite3_keyword_name\<close> returns the result code and, on success, the pointer and the length it
  stores; the text of the keyword is the first \<open>length\<close> bytes at the pointer.\<close>

definition sqlite3_keyword_name :: "int \<Rightarrow> int \<times> (bytes \<times> int) option" where
  "sqlite3_keyword_name i =
     (if i < 0 \<or> SQLITE_N_KEYWORD \<le> i then (1, None)
      else (let i = i + 1 in (0, Some (drop (nat (aKWOffset ! nat i)) zKWText, aKWLen ! nat i))))"

definition sqlite3_keyword_count :: int where
  "sqlite3_keyword_count = SQLITE_N_KEYWORD"

definition sqlite3_keyword_check :: "bytes \<Rightarrow> int \<Rightarrow> bool" where
  "sqlite3_keyword_check zName nName \<longleftrightarrow> TK_ID \<noteq> sqlite3KeywordCode zName nName"

subsection \<open>The keywords\<close>

text \<open>What the packed tables stand for: the keywords in the order of their index, with their codes.
  \<open>kw_text\<close> is the text the tables give for index \<open>i\<close>.\<close>

definition sql_keywords :: "(string \<times> int) list" where
  "sql_keywords =
   [(''REINDEX'', TK_REINDEX), (''INDEXED'', TK_INDEXED), (''INDEX'', TK_INDEX), (''DESC'', TK_DESC),
    (''ESCAPE'', TK_ESCAPE), (''EACH'', TK_EACH), (''CHECK'', TK_CHECK), (''KEY'', TK_KEY),
    (''BEFORE'', TK_BEFORE), (''FOREIGN'', TK_FOREIGN), (''FOR'', TK_FOR), (''IGNORE'', TK_IGNORE),
    (''REGEXP'', TK_LIKE_KW), (''EXPLAIN'', TK_EXPLAIN), (''INSTEAD'', TK_INSTEAD), (''ADD'', TK_ADD),
    (''DATABASE'', TK_DATABASE), (''AS'', TK_AS), (''SELECT'', TK_SELECT), (''TABLE'', TK_TABLE),
    (''LEFT'', TK_JOIN_KW), (''THEN'', TK_THEN), (''END'', TK_END), (''DEFERRABLE'', TK_DEFERRABLE),
    (''ELSE'', TK_ELSE), (''EXCLUDE'', TK_EXCLUDE), (''DELETE'', TK_DELETE), (''TEMPORARY'', TK_TEMP),
    (''TEMP'', TK_TEMP), (''OR'', TK_OR), (''ISNULL'', TK_ISNULL), (''NULLS'', TK_NULLS),
    (''SAVEPOINT'', TK_SAVEPOINT), (''INTERSECT'', TK_INTERSECT), (''TIES'', TK_TIES), (''NOTNULL'', TK_NOTNULL),
    (''NOT'', TK_NOT), (''NO'', TK_NO), (''NULL'', TK_NULL), (''LIKE'', TK_LIKE_KW),
    (''EXCEPT'', TK_EXCEPT), (''TRANSACTION'', TK_TRANSACTION), (''ACTION'', TK_ACTION), (''ON'', TK_ON),
    (''NATURAL'', TK_JOIN_KW), (''ALTER'', TK_ALTER), (''RAISE'', TK_RAISE), (''EXCLUSIVE'', TK_EXCLUSIVE),
    (''EXISTS'', TK_EXISTS), (''CONSTRAINT'', TK_CONSTRAINT), (''INTO'', TK_INTO), (''OFFSET'', TK_OFFSET),
    (''OF'', TK_OF), (''SET'', TK_SET), (''TRIGGER'', TK_TRIGGER), (''RANGE'', TK_RANGE),
    (''GENERATED'', TK_GENERATED), (''DETACH'', TK_DETACH), (''HAVING'', TK_HAVING), (''GLOB'', TK_LIKE_KW),
    (''BEGIN'', TK_BEGIN), (''INNER'', TK_JOIN_KW), (''REFERENCES'', TK_REFERENCES), (''UNIQUE'', TK_UNIQUE),
    (''QUERY'', TK_QUERY), (''WITHOUT'', TK_WITHOUT), (''WITH'', TK_WITH), (''OUTER'', TK_JOIN_KW),
    (''RELEASE'', TK_RELEASE), (''ATTACH'', TK_ATTACH), (''BETWEEN'', TK_BETWEEN), (''NOTHING'', TK_NOTHING),
    (''GROUPS'', TK_GROUPS), (''GROUP'', TK_GROUP), (''CASCADE'', TK_CASCADE), (''ASC'', TK_ASC),
    (''DEFAULT'', TK_DEFAULT), (''CASE'', TK_CASE), (''COLLATE'', TK_COLLATE), (''CREATE'', TK_CREATE),
    (''CURRENT_DATE'', TK_CTIME_KW), (''IMMEDIATE'', TK_IMMEDIATE), (''JOIN'', TK_JOIN), (''INSERT'', TK_INSERT),
    (''MATCH'', TK_MATCH), (''PLAN'', TK_PLAN), (''ANALYZE'', TK_ANALYZE), (''PRAGMA'', TK_PRAGMA),
    (''MATERIALIZED'', TK_MATERIALIZED), (''DEFERRED'', TK_DEFERRED), (''DISTINCT'', TK_DISTINCT), (''IS'', TK_IS),
    (''UPDATE'', TK_UPDATE), (''VALUES'', TK_VALUES), (''VIRTUAL'', TK_VIRTUAL), (''ALWAYS'', TK_ALWAYS),
    (''WHEN'', TK_WHEN), (''WHERE'', TK_WHERE), (''RECURSIVE'', TK_RECURSIVE), (''ABORT'', TK_ABORT),
    (''AFTER'', TK_AFTER), (''RENAME'', TK_RENAME), (''AND'', TK_AND), (''DROP'', TK_DROP),
    (''PARTITION'', TK_PARTITION), (''AUTOINCREMENT'', TK_AUTOINCR), (''TO'', TK_TO), (''IN'', TK_IN),
    (''CAST'', TK_CAST), (''COLUMN'', TK_COLUMNKW), (''COMMIT'', TK_COMMIT), (''CONFLICT'', TK_CONFLICT),
    (''CROSS'', TK_JOIN_KW), (''CURRENT_TIMESTAMP'', TK_CTIME_KW), (''CURRENT_TIME'', TK_CTIME_KW), (''CURRENT'', TK_CURRENT),
    (''PRECEDING'', TK_PRECEDING), (''FAIL'', TK_FAIL), (''LAST'', TK_LAST), (''FILTER'', TK_FILTER),
    (''REPLACE'', TK_REPLACE), (''FIRST'', TK_FIRST), (''FOLLOWING'', TK_FOLLOWING), (''FROM'', TK_FROM),
    (''FULL'', TK_JOIN_KW), (''LIMIT'', TK_LIMIT), (''IF'', TK_IF), (''ORDER'', TK_ORDER),
    (''RESTRICT'', TK_RESTRICT), (''OTHERS'', TK_OTHERS), (''OVER'', TK_OVER), (''RETURNING'', TK_RETURNING),
    (''RIGHT'', TK_JOIN_KW), (''ROLLBACK'', TK_ROLLBACK), (''ROWS'', TK_ROWS), (''ROW'', TK_ROW),
    (''UNBOUNDED'', TK_UNBOUNDED), (''UNION'', TK_UNION), (''USING'', TK_USING), (''VACUUM'', TK_VACUUM),
    (''VIEW'', TK_VIEW), (''WINDOW'', TK_WINDOW), (''DO'', TK_DO), (''BY'', TK_BY),
    (''INITIALLY'', TK_INITIALLY), (''ALL'', TK_ALL), (''PRIMARY'', TK_PRIMARY)]"

definition kw_text :: "int \<Rightarrow> bytes" where
  "kw_text i = take (nat (aKWLen ! nat i)) (drop (nat (aKWOffset ! nat i)) zKWText)"

fun kw_walk :: "string \<Rightarrow> int \<Rightarrow> (int \<times> int) list \<Rightarrow> string list \<Rightarrow> bool" where
  "kw_walk text pos [] ns = True"
| "kw_walk text pos (p # ps) [] = False"
| "kw_walk text pos ((off, len) # ps) (s # ns) =
     (pos \<le> off \<and> (let rest = drop (nat (off - pos)) text in take (nat len) rest = s \<and> kw_walk rest off ps ns))"

lemma walk_table: "kw_walk kw_chars 0 (zip (tl aKWOffset) (tl aKWLen)) (map fst sql_keywords)"
  by code_simp

lemma kw_walk_texts:
  "kw_walk (drop (nat pos) text) pos ps ns \<Longrightarrow> 0 \<le> pos \<Longrightarrow> k < length ps \<Longrightarrow>
     k < length ns \<and> ns ! k = take (nat (snd (ps ! k))) (drop (nat (fst (ps ! k))) text)"
proof (induction ps arbitrary: pos ns k)
  case (Cons p ps)
  obtain off len where p: "p = (off, len)" by (cases p)
  obtain s ns' where ns: "ns = s # ns'" using Cons.prems(1) by (cases ns) (auto simp: p)
  have le: "pos \<le> off" using Cons.prems(1) by (simp add: p ns)
  have "nat (off - pos) + nat pos = nat off" using le Cons.prems(2) by (simp flip: nat_add_distrib)
  then have d: "drop (nat (off - pos)) (drop (nat pos) text) = drop (nat off) text" by simp
  have s: "s = take (nat len) (drop (nat off) text)" and w: "kw_walk (drop (nat off) text) off ps ns'"
    using Cons.prems(1) d by (simp_all add: p ns Let_def)
  have "0 \<le> off" using le Cons.prems(2) by simp
  then show ?case using Cons.IH [OF w] Cons.prems(3) s by (cases k) (simp_all add: p ns)
qed simp

lemma codes_table: "map snd sql_keywords = tl aKWCode"
  by code_simp

definition upper_hash :: "char \<Rightarrow> char \<Rightarrow> int \<Rightarrow> int" where
  "upper_hash a b n = (((of_char a + 32) * 4) XOR ((of_char b + 32) * 3) XOR n) mod 127"

lemma hash_table: "list_all (\<lambda>(i, s, c). filter (\<lambda>j. fst (sql_keywords ! nat (j - 1)) = s)
     (kw_chain 9 (aKWHash ! nat (upper_hash (hd s) (last s) (int (length s))))) = [i]) (zip [1..147] sql_keywords)"
  by code_simp

text \<open>The bytes of a keyword.\<close>

definition kw_char :: "u8 \<Rightarrow> bool" where
  "kw_char k \<longleftrightarrow> k = 95 \<or> 65 \<le> k \<and> k \<le> 90"

definition kw_string :: "string \<Rightarrow> bool" where
  "kw_string s \<longleftrightarrow> 1 < int (length s) \<and> list_all kw_char (ascii s) \<and> hd s \<noteq> CHR ''_'' \<and> last s \<noteq> CHR ''_''"

lemma kw_string_table: "list_all (\<lambda>(s, c). kw_string s) sql_keywords"
  by code_simp

lemma kw_length_table: "list_all2 (\<lambda>(s, c) l. int (length s) = l) sql_keywords (tl aKWLen)"
  by code_simp

text \<open>Clearing bit 5, as the comparison does, against a byte of a keyword.\<close>

definition clear5_spec :: "u8 \<Rightarrow> u8 \<Rightarrow> bool" where
  "clear5_spec b t \<longleftrightarrow>
     (65 \<le> b \<and> b \<le> 90 \<longrightarrow> t = b) \<and> (97 \<le> b \<and> b \<le> 122 \<longrightarrow> t = b - 32) \<and> (b = 95 \<longrightarrow> t = b) \<and>
     (65 \<le> t \<and> t \<le> 90 \<longrightarrow> b = t \<or> b = t + 32) \<and> (t = 95 \<longrightarrow> b = 95 \<or> b = 127)"

lemma clear5_table: "list_all (\<lambda>n. clear5_spec (word_of_int n) (word_of_int n AND NOT 0x20)) [0..255]"
  by code_simp

subsection \<open>What the tables hold\<close>

abbreviation kw_name :: "int \<Rightarrow> string" where
  "kw_name i \<equiv> fst (sql_keywords ! nat (i - 1))"

lemma table_lengths: "length sql_keywords = 147" "length aKWLen = 148" "length aKWOffset = 148"
  by (simp_all add: sql_keywords_def aKWLen_def aKWOffset_def)

lemma nth_tl_table: "xs \<noteq> [] \<Longrightarrow> 0 < i \<Longrightarrow> i < int (length xs) \<Longrightarrow> tl xs ! nat (i - 1) = xs ! nat i"
  by (cases xs) (auto simp: nth_Cons' nat_diff_distrib)

lemma kw_text_name:
  assumes "0 < i" "i < 148"
  shows "kw_text i = ascii (kw_name i)"
proof -
  let ?k = "nat (i - 1)"
  have k: "?k < length (zip (tl aKWOffset) (tl aKWLen))" using assms by (simp add: table_lengths)
  have ne: "aKWOffset \<noteq> []" "aKWLen \<noteq> []" using table_lengths by auto
  have "map fst sql_keywords ! ?k = take (nat (tl aKWLen ! ?k)) (drop (nat (tl aKWOffset ! ?k)) kw_chars)"
    using kw_walk_texts [of 0 kw_chars _ _ ?k] walk_table k by simp
  moreover have "map fst sql_keywords ! ?k = kw_name i" using assms by (simp add: table_lengths)
  ultimately show ?thesis
    using nth_tl_table [OF ne(1), of i] nth_tl_table [OF ne(2), of i] assms
    by (simp add: kw_text_def zKWText_def ascii_def take_map drop_map table_lengths)
qed

lemma kw_length: "0 < i \<Longrightarrow> i < 148 \<Longrightarrow> aKWLen ! nat i = int (length (kw_name i))"
proof -
  assume i: "0 < i" "i < 148"
  then have "tl aKWLen ! nat (i - 1) = aKWLen ! nat i"
    using table_lengths by (intro nth_tl_table) auto
  moreover have "nat (i - 1) < length sql_keywords" using i table_lengths by simp
  ultimately show ?thesis using list_all2_nthD [OF kw_length_table, of "nat (i - 1)"] by (simp add: case_prod_beta)
qed

lemma kw_code: "0 < i \<Longrightarrow> i < 148 \<Longrightarrow> aKWCode ! nat i = snd (sql_keywords ! nat (i - 1))"
proof -
  assume i: "0 < i" "i < 148"
  have "length aKWCode = 148" by (simp add: aKWCode_def)
  then have "tl aKWCode ! nat (i - 1) = aKWCode ! nat i" using i by (intro nth_tl_table) auto
  then show ?thesis using i by (simp add: table_lengths flip: codes_table)
qed

lemma kw_string_name: "0 < i \<Longrightarrow> i < 148 \<Longrightarrow> kw_string (kw_name i)"
  using kw_string_table table_lengths(1) by (auto simp: list_all_length case_prod_beta)

lemma clear5: "clear5_spec b (b AND NOT 0x20)"
proof -
  have u: "uint b \<in> set [0..255]" using uint_bounded [of b] by simp
  show ?thesis using list_all_iff [THEN iffD1, OF clear5_table, THEN bspec, OF u] by simp
qed

lemma u8_add32: "b \<le> 90 \<Longrightarrow> unat (b + 32 :: u8) = unat b + 32"
  by (simp add: word_le_nat_alt unat_plus_if_size word_size)

lemma clear5_eq:
  assumes "kw_char k" "b \<noteq> 127"
  shows "b AND NOT 0x20 = k \<longleftrightarrow> UpperToLower b = UpperToLower k"
proof -
  consider "k = 95" | "65 \<le> k" "k \<le> 90" using assms(1) by (auto simp: kw_char_def)
  then show ?thesis
  proof cases
    case 1
    then have "b AND NOT 0x20 = k \<longleftrightarrow> b = 95" using clear5 [of b] assms(2) by (auto simp: clear5_spec_def)
    moreover have "UpperToLower b = 95 \<longleftrightarrow> b = 95"
      using u8_add32 [of b] by (auto simp: UpperToLower_eq word_unat_eq_iff word_le_nat_alt)
    ultimately show ?thesis using 1 by (simp add: UpperToLower_eq)
  next
    case 2
    have u: "unat (k + 32) = unat k + 32" using 2 u8_add32 by simp
    have "b AND NOT 0x20 = k \<longleftrightarrow> b = k \<or> b = k + 32"
    proof
      assume "b AND NOT 0x20 = k"
      then show "b = k \<or> b = k + 32" using clear5 [of b] 2 by (auto simp: clear5_spec_def)
    next
      assume "b = k \<or> b = k + 32"
      moreover have "97 \<le> k + 32" "k + 32 \<le> 122" using 2 u by (simp_all add: word_le_nat_alt)
      ultimately show "b AND NOT 0x20 = k" using clear5 [of b] 2 unfolding clear5_spec_def by fastforce
    qed
    moreover have "UpperToLower b = k + 32 \<longleftrightarrow> b = k \<or> b = k + 32"
      using u u8_add32 [of b] 2 by (auto simp: UpperToLower_eq word_unat_eq_iff word_le_nat_alt)
    ultimately show ?thesis using 2 by (simp add: UpperToLower_eq)
  qed
qed

lemma upper_inj:
  assumes "kw_char a" "kw_char b" "UpperToLower a = UpperToLower b"
  shows "a = b"
proof -
  have "a \<noteq> 127" using assms(1) by (auto simp: kw_char_def)
  then have "a AND NOT 0x20 = b" using clear5_eq [OF assms(2), of a] assms(3) by simp
  moreover have "a AND NOT 0x20 = a" using clear5 [of a] assms(1) by (auto simp: kw_char_def clear5_spec_def)
  ultimately show ?thesis by simp
qed

lemma upper_inj_list:
  "list_all kw_char xs \<Longrightarrow> list_all kw_char ys \<Longrightarrow> map UpperToLower xs = map UpperToLower ys \<Longrightarrow> xs = ys"
  by (induction xs ys rule: list_induct2') (auto intro: upper_inj)

lemma ascii_inj: "ascii s = ascii t \<Longrightarrow> s = t"
proof -
  have c: "c = d" if "(of_char c :: u8) = of_char d" for c d
  proof -
    have "(of_char c :: nat) = of_char d"
      using that unat_of_nat [where 'a = 8, of "of_char c"] unat_of_nat [where 'a = 8, of "of_char d"]
      by (simp add: of_nat_of_char)
    then show ?thesis by simp
  qed
  assume "ascii s = ascii t"
  then show ?thesis by (induction s t rule: list_induct2') (auto simp: ascii_def dest: c)
qed


subsection \<open>The lookup is a search of the list\<close>

text \<open>\<open>kw_hit\<close> is the test of one entry, as a comparison of texts.\<close>

definition same_word :: "bytes \<Rightarrow> string \<Rightarrow> bool" where
  "same_word w s \<longleftrightarrow> map UpperToLower w = map UpperToLower (ascii s)"

lemma kw_matched_ge: "j \<le> n \<Longrightarrow> kw_matched z zKW n j < n \<longleftrightarrow> \<not> (\<forall>k\<in>{j..<n}. byte_at z k AND NOT 0x20 = byte_at zKW k)"
proof (induction z zKW n j rule: kw_matched.induct)
  case (1 z zKW n j)
  have s: "{j..<n} = insert j {j + 1..<n}" if "j < n" using that by auto
  show ?case
  proof (cases "j < n \<and> byte_at z j AND NOT 0x20 = byte_at zKW j")
    case True
    then show ?thesis using "1.IH" [OF True] s by (simp add: kw_matched.simps [of z zKW n j])
  next
    case False
    then show ?thesis using "1.prems" s by (auto simp add: kw_matched.simps [of z zKW n j])
  qed
qed

lemma entry_bytes:
  assumes i: "0 < i" "i < 148" and k: "k < length (kw_name i)"
  shows "byte_at (drop (nat (aKWOffset ! nat i)) zKWText) k = of_char (kw_name i ! k)"
proof -
  let ?zKW = "drop (nat (aKWOffset ! nat i)) zKWText"
  have t: "take (length (kw_name i)) ?zKW = ascii (kw_name i)"
    using kw_text_name [OF i] kw_length [OF i] by (simp add: kw_text_def)
  have "length (kw_name i) \<le> length ?zKW" using arg_cong [OF t, of length] by (simp add: ascii_def min_def split: if_splits)
  then have "byte_at ?zKW k = take (length (kw_name i)) ?zKW ! k" using k by (simp add: byte_at_def)
  then show ?thesis using k by (simp only: t) (simp add: ascii_def)
qed

lemma entry_test:
  assumes i: "0 < i" "i < 148" and n: "n \<le> length z" and nd: "127 \<notin> set (take n z)"
    and len: "aKWLen ! nat i = int n"
  defines "zKW \<equiv> drop (nat (aKWOffset ! nat i)) zKWText"
  shows "byte_at z 0 AND NOT 0x20 = byte_at zKW 0 \<and> byte_at z 1 AND NOT 0x20 = byte_at zKW 1 \<and> \<not> kw_matched z zKW n 2 < n
     \<longleftrightarrow> same_word (take n z) (kw_name i)"
proof -
  let ?s = "ascii (kw_name i)"
  have s: "kw_string (kw_name i)" by (rule kw_string_name [OF i])
  have ls: "length ?s = n" using kw_length [OF i] len by (simp add: ascii_def)
  have n2: "2 \<le> n" using s ls by (simp add: kw_string_def ascii_def)
  have b: "byte_at zKW k = ?s ! k" if "k < n" for k
    using entry_bytes [OF i, of k] that ls by (simp add: zKW_def ascii_def)
  have e: "(byte_at z k AND NOT 0x20 = byte_at zKW k) = (UpperToLower (z ! k) = UpperToLower (?s ! k))" if "k < n" for k
  proof -
    have z: "byte_at z k = z ! k" using that n by (simp add: byte_at_def)
    have "z ! k \<in> set (take n z)" using nth_mem [of k "take n z"] that n by simp
    then have nz: "z ! k \<noteq> 127" using nd by metis
    have "list_all kw_char ?s" using s by (simp add: kw_string_def)
    then have "kw_char (?s ! k)" using that ls by (simp add: list_all_length)
    then show ?thesis unfolding z b [OF that] using nz by (rule clear5_eq)
  qed
  have sp: "{0..<n} = insert 0 (insert 1 {2..<n})" using n2 by auto
  have "same_word (take n z) (kw_name i) \<longleftrightarrow> (\<forall>k\<in>{0..<n}. UpperToLower (z ! k) = UpperToLower (?s ! k))"
    using n ls unfolding same_word_def list_eq_iff_nth_eq by (simp add: atLeast0LessThan Ball_def)
  also have "\<dots> \<longleftrightarrow> (\<forall>k\<in>{0..<n}. byte_at z k AND NOT 0x20 = byte_at zKW k)" using e by simp
  finally show ?thesis using kw_matched_ge [OF n2, of z zKW] by (simp add: sp)
qed

text \<open>The probe returns the first matching entry of the chain.\<close>

lemma length_kw_chain: "length (kw_chain f i) \<le> f"
  by (induction f i rule: kw_chain.induct) auto

lemma kw_chain_range: "j \<in> set (kw_chain f i) \<Longrightarrow> 0 < j \<and> j < 148"
  by (induction f i rule: kw_chain.induct) (auto split: if_splits)

definition kw_hit :: "bytes \<Rightarrow> nat \<Rightarrow> int \<Rightarrow> bool" where
  "kw_hit z n j \<longleftrightarrow> same_word (take n z) (kw_name j)"

lemma hit_length:
  assumes "0 < i" "i < 148" "n \<le> length z" "kw_hit z n i"
  shows "aKWLen ! nat i = int n"
proof -
  have "length (take n z) = length (kw_name i)"
    using assms(4) map_eq_imp_length_eq by (fastforce simp: kw_hit_def same_word_def ascii_def)
  then show ?thesis using kw_length [OF assms(1,2)] assms(3) by simp
qed

lemma probe_step:
  assumes i: "\<not> (i \<le> 0 \<or> 148 \<le> i)" and z: "n \<le> length z" "127 \<notin> set (take n z)"
  shows "keyword_probe z n i = (if kw_hit z n i then i else keyword_probe z n (aKWNext ! nat i))"
proof (cases "aKWLen ! nat i = int n")
  case True
  have i': "0 < i" "i < 148" using i by auto
  note t = entry_test [OF i' z True]
  show ?thesis
    by (subst keyword_probe.simps) (use i True t in \<open>auto simp: Let_def kw_hit_def\<close>)
next
  case False
  then have "\<not> kw_hit z n i" using hit_length [of i n z] i z(1) by auto
  then show ?thesis using False i by (subst keyword_probe.simps) simp
qed

lemma probe_chain:
  assumes z: "n \<le> length z" "127 \<notin> set (take n z)"
  shows "kw_depth i \<le> f \<Longrightarrow> keyword_probe z n i = (case filter (kw_hit z n) (kw_chain f i) of [] \<Rightarrow> 0 | j # _ \<Rightarrow> j)"
proof (induction f arbitrary: i)
  case 0
  then have "i \<le> 0 \<or> 148 \<le> i" by (auto simp: kw_depth_def numeral_eq_Suc split: if_splits)
  then show ?case by (simp add: keyword_probe.simps)
next
  case (Suc f)
  show ?case
  proof (cases "i \<le> 0 \<or> 148 \<le> i")
    case True
    then show ?thesis by (simp add: keyword_probe.simps)
  next
    case False
    have "kw_depth (aKWNext ! nat i) \<le> f" using kw_depth_next [OF False] Suc.prems by simp
    then show ?thesis using Suc.IH probe_step [OF False z] False by simp
  qed
qed


lemma uint_of_char: "uint (of_char c :: u8) = of_char c"
proof -
  have "uint (of_nat (of_char c) :: u8) = of_nat (of_char c)"
    using nat_of_char_less_256 [of c] by (simp add: uint_nat unat_of_nat)
  then show ?thesis by (simp add: of_nat_of_char)
qed

lemma same_word_hash:
  assumes s: "kw_string s" and n: "n \<le> length z" and m: "same_word (take n z) s"
  shows "keyword_hash z n = nat (upper_hash (hd s) (last s) (int (length s)))" and "n = length s"
proof -
  show ln: "n = length s" using arg_cong [OF m [unfolded same_word_def], of length] n by (simp add: ascii_def)
  have s2: "1 < length s" using s by (simp add: kw_string_def)
  have up: "UpperToLower (of_char (s ! k)) = of_char (s ! k) + 32 \<and> uint (of_char (s ! k) + 32 :: u8) = of_char (s ! k) + 32"
    if k: "k < length s" "s ! k \<noteq> CHR ''_''" for k
  proof -
    let ?c = "of_char (s ! k) :: u8"
    have "kw_char ?c" using s k by (simp add: kw_string_def list_all_length ascii_def)
    moreover have "?c \<noteq> 95"
    proof
      assume "?c = 95"
      then have "ascii [s ! k] = ascii ''_''" by (simp add: ascii_def)
      from ascii_inj [OF this] show False using k by simp
    qed
    ultimately have r: "65 \<le> ?c" "?c \<le> 90" by (auto simp: kw_char_def)
    have "uint (?c + 32) = uint ?c + 32"
      by (simp only: uint_nat u8_add32 [OF r(2)] of_nat_add of_nat_numeral)
    then show ?thesis using r by (simp add: UpperToLower_eq uint_of_char)
  qed
  have c: "UpperToLower (byte_at z k) = UpperToLower (of_char (s ! k))" if "k < length s" for k
  proof -
    have "map UpperToLower (take n z) ! k = map UpperToLower (ascii s) ! k" using m by (simp add: same_word_def)
    moreover have "byte_at z k = z ! k" using that n ln by (simp add: byte_at_def)
    ultimately show ?thesis using that n ln by (simp add: ascii_def)
  qed
  have ends: "s ! 0 = hd s" "s ! (length s - 1) = last s" "0 < length s" "length s - 1 < length s"
    using s2 hd_conv_nth [of s] last_conv_nth [of s] by (cases s; simp)+
  have f: "uint (charMap (byte_at z 0)) = of_char (hd s) + 32"
    using c [OF ends(3)] up [OF ends(3)] s unfolding ends(1) kw_string_def charMap_def by metis
  have l: "uint (charMap (byte_at z (n - 1))) = of_char (last s) + 32"
    using c [OF ends(4)] up [OF ends(4)] s unfolding ends(2) kw_string_def charMap_def ln by metis
  show "keyword_hash z n = nat (upper_hash (hd s) (last s) (int (length s)))"
    unfolding keyword_hash_def upper_hash_def f l by (simp only: ln mult_1_right)
qed

lemma hash_chain:
  assumes "0 < i" "i < 148"
  shows "filter (\<lambda>j. kw_name j = kw_name i)
     (kw_chain 9 (aKWHash ! nat (upper_hash (hd (kw_name i)) (last (kw_name i)) (int (length (kw_name i)))))) = [i]"
proof -
  let ?k = "nat (i - 1)"
  have "?k < length (zip [1..147] sql_keywords)" using assms by (simp add: table_lengths)
  moreover from this have "[1..147] ! ?k = i" using assms by simp
  ultimately show ?thesis
    using hash_table assms unfolding list_all_length
    by (auto simp: case_prod_beta table_lengths)
qed

text \<open>The reference: the first entry of the keyword list that equals the word up to case.\<close>

definition keyword_search :: "bytes \<Rightarrow> (string \<times> int) option" where
  "keyword_search w = find (\<lambda>(s, c). same_word w s) sql_keywords"

lemma keyword_found:
  assumes z: "n \<le> length z" "127 \<notin> set (take n z)" and i: "0 < i" "i < 148" and hit: "kw_hit z n i"
  shows "keyword_probe z n (aKWHash ! keyword_hash z n) = i"
proof -
  have s: "kw_string (kw_name i)" by (rule kw_string_name [OF i])
  have "kw_hit z n j \<longleftrightarrow> kw_name j = kw_name i" if "j \<in> set (kw_chain 9 h)" for j h
  proof -
    have j: "kw_string (kw_name j)" using kw_chain_range [OF that] by (intro kw_string_name) auto
    have "kw_hit z n j \<longleftrightarrow> map UpperToLower (ascii (kw_name j)) = map UpperToLower (ascii (kw_name i))"
      using hit by (auto simp: kw_hit_def same_word_def)
    also have "\<dots> \<longleftrightarrow> kw_name j = kw_name i"
      using upper_inj_list [of "ascii (kw_name j)" "ascii (kw_name i)"] ascii_inj s j by (auto simp: kw_string_def)
    finally show ?thesis .
  qed
  then have "filter (kw_hit z n) (kw_chain 9 h) = filter (\<lambda>j. kw_name j = kw_name i) (kw_chain 9 h)" for h
    by (intro filter_cong) auto
  then have "filter (kw_hit z n) (kw_chain 9 (aKWHash ! keyword_hash z n)) = [i]"
    using hash_chain [OF i] same_word_hash(1) [OF s z(1)] hit by (simp add: kw_hit_def)
  then show ?thesis
    using probe_chain [OF z, of _ 9] length_kw_chain [of 9] by (simp add: kw_depth_def)
qed

lemma keyword_absent:
  assumes z: "n \<le> length z" "127 \<notin> set (take n z)" and none: "\<And>i. 0 < i \<Longrightarrow> i < 148 \<Longrightarrow> \<not> kw_hit z n i"
  shows "keyword_probe z n h = 0"
proof -
  have "filter (kw_hit z n) (kw_chain 9 h) = []"
    using none kw_chain_range [of _ 9 h] by (auto simp: filter_empty_conv)
  then show ?thesis
    using probe_chain [OF z, of h 9] length_kw_chain [of 9 h] by (simp add: kw_depth_def)
qed

lemma KeywordCode_search:
  assumes z: "n \<le> length z" "127 \<notin> set (take n z)"
  shows "sqlite3KeywordCode z (int n) = (case keyword_search (take n z) of None \<Rightarrow> TK_ID | Some (s, c) \<Rightarrow> c)"
proof (cases "keyword_search (take n z)")
  case None
  then have no: "\<not> same_word (take n z) (fst p)" if "p \<in> set sql_keywords" for p
    using that by (cases p) (auto simp: keyword_search_def find_None_iff)
  have "\<not> kw_hit z n i" if "0 < i" "i < 148" for i
    using that no nth_mem [of "nat (i - 1)" sql_keywords] by (simp add: kw_hit_def table_lengths)
  then show ?thesis using keyword_absent [OF z] None by (simp add: sqlite3KeywordCode_def keywordCode_def Let_def)
next
  case (Some p)
  then obtain k where k: "k < 147" "p = sql_keywords ! k" "same_word (take n z) (fst p)"
    by (auto simp: keyword_search_def find_Some_iff table_lengths)
  define i where "i = int k + 1"
  have i: "0 < i" "i < 148" "nat (i - 1) = k" using k(1) by (auto simp: i_def)
  have hit: "kw_hit z n i" using k i by (simp add: kw_hit_def)
  have "n = length (kw_name i)" using same_word_hash(2) [OF kw_string_name [OF i(1,2)] z(1)] hit by (simp add: kw_hit_def)
  then have "2 \<le> int n" using kw_string_name [OF i(1,2)] by (simp add: kw_string_def)
  moreover have "aKWCode ! nat i = snd p" using kw_code [OF i(1,2)] i(3) k(2) by simp
  ultimately show ?thesis
    using keyword_found [OF z i(1,2) hit] i Some by (simp add: sqlite3KeywordCode_def keywordCode_def Let_def case_prod_beta)
qed

text \<open>C10: a word is recognised as a keyword by the packed hash table exactly when it equals, up to the
  case of its letters, one of the 147 keywords, and it then gets the code of that keyword; every other
  word is an identifier. The table is equivalent to a search of the plain list of keywords. The
  hypothesis excludes the byte 0x7f, which the comparison takes for an underscore (see
  \<open>keyword_check_accepts_DEL\<close>).\<close>

theorem KeywordCode_decides_keywords:
  assumes "n \<le> length z" "127 \<notin> set (take n z)"
  shows "sqlite3KeywordCode z (int n) = (case keyword_search (take n z) of None \<Rightarrow> TK_ID | Some (s, c) \<Rightarrow> c)"
  using assms by (rule KeywordCode_search)

theorem KeywordCode_decides_keywords_witness:
  "sqlite3KeywordCode (ascii ''Select 1'') 6 = (case keyword_search (take 6 (ascii ''Select 1'')) of None \<Rightarrow> TK_ID | Some (s, c) \<Rightarrow> c)
   \<and> keyword_search (take 6 (ascii ''Select 1'')) = Some (''SELECT'', TK_SELECT)"
proof -
  have "6 \<le> length (ascii ''Select 1'')" "127 \<notin> set (take 6 (ascii ''Select 1''))" by (simp_all add: ascii_def)
  from KeywordCode_decides_keywords [OF this] show ?thesis
    by (simp add: keyword_search_def sql_keywords_def same_word_def ascii_def UpperToLower_eq)
qed

definition del_word :: bytes where
  "del_word = ascii ''CURRENT'' @ [0x7f] @ ascii ''DATE''"

lemma keyword_check_accepts_DEL: "sqlite3_keyword_check del_word 12"
proof -
  have w: "del_word = [67, 85, 82, 82, 69, 78, 84, 127, 68, 65, 84, 69]" by (simp add: del_word_def ascii_def)
  have "keyword_hash del_word 12 = 48" by (simp add: w keyword_hash_def charMap_def UpperToLower_eq byte_at_def)
  then have h: "aKWHash ! keyword_hash del_word 12 = 115" by (simp add: aKWHash_def)
  have k: "fst (sql_keywords ! 114) = ''CURRENT_TIME''" "fst (sql_keywords ! 80) = ''CURRENT_DATE''" by (simp_all add: sql_keywords_def)
  have len: "aKWLen ! 115 = 12" "aKWLen ! 81 = 12" "aKWNext ! 115 = 81" by (simp_all add: aKWLen_def aKWNext_def)
  note b = entry_bytes [of 115, simplified, unfolded k] entry_bytes [of 81, simplified, unfolded k]
  note c = b [simplified byte_at_drop] b(1) [of 2, simplified] b(2) [of 0, simplified] b(2) [of 1, simplified] b(2) [of 2, simplified]
  have "set [2..<12] = {2, 3, 4, 5, 6, 7, 8, 9, 10, 11 :: nat}" by (simp add: upt_rec)
  then have s: "{2..<12} = {2, 3, 4, 5, 6, 7, 8, 9, 10, 11 :: nat}" by (simp only: set_upt)
  let ?kw = "\<lambda>i. drop (nat (aKWOffset ! i)) zKWText"
  have m: "kw_matched del_word (?kw 115) 12 2 < 12" "\<not> kw_matched del_word (?kw 81) 12 2 < 12"
    by (simp_all add: kw_matched_ge s c) (simp_all add: w byte_at_def)
  have "keyword_probe del_word 12 81 = 81"
    using m(2) len by (subst keyword_probe.simps) (simp add: Let_def c, simp add: w byte_at_def)
  moreover have "keyword_probe del_word 12 115 = keyword_probe del_word 12 81"
    using m(1) len by (subst keyword_probe.simps) (simp add: Let_def del: byte_at_drop)
  ultimately show ?thesis
    by (simp add: sqlite3_keyword_check_def sqlite3KeywordCode_def keywordCode_def h aKWCode_def token_codes)
qed

text \<open>The public enumeration reports exactly the names of this list.\<close>

lemma keyword_name_reports:
  assumes "0 \<le> i" "i < SQLITE_N_KEYWORD"
  shows "\<exists>p. sqlite3_keyword_name i = (0, Some (p, int (length (fst (sql_keywords ! nat i))))) \<and>
     take (length (fst (sql_keywords ! nat i))) p = ascii (fst (sql_keywords ! nat i))"
proof -
  have i: "0 < i + 1" "i + 1 < 148" using assms by (simp_all add: SQLITE_N_KEYWORD_def)
  show ?thesis using kw_length [OF i] kw_text_name [OF i] assms
    by (simp add: sqlite3_keyword_name_def kw_text_def Let_def)
qed

end
