(* ===== verification/Tokenizer.thy ===== *)
theory Tokenizer
  imports Keywords Identifiers
begin

section \<open>The SQL tokenizer (tokenize.c)\<close>

text \<open>
  \<open>sqlite3GetToken\<close> and its callers. A text is the list of bytes at the pointer; the byte behind the
  list is the terminator 0, as \<open>byte_at\<close> reads it. A token is the pair of its length and its code.
  \<open>sqlite3GetToken\<close> is one switch on the class of the first byte; its longer cases have a definition
  each, in the order of the source.
\<close>

subsection \<open>Character classes\<close>

definition CC_X :: int where "CC_X = 0"
definition CC_KYWD0 :: int where "CC_KYWD0 = 1"
definition CC_KYWD :: int where "CC_KYWD = 2"
definition CC_DIGIT :: int where "CC_DIGIT = 3"
definition CC_DOLLAR :: int where "CC_DOLLAR = 4"
definition CC_VARALPHA :: int where "CC_VARALPHA = 5"
definition CC_VARNUM :: int where "CC_VARNUM = 6"
definition CC_SPACE :: int where "CC_SPACE = 7"
definition CC_QUOTE :: int where "CC_QUOTE = 8"
definition CC_QUOTE2 :: int where "CC_QUOTE2 = 9"
definition CC_PIPE :: int where "CC_PIPE = 10"
definition CC_MINUS :: int where "CC_MINUS = 11"
definition CC_LT :: int where "CC_LT = 12"
definition CC_GT :: int where "CC_GT = 13"
definition CC_EQ :: int where "CC_EQ = 14"
definition CC_BANG :: int where "CC_BANG = 15"
definition CC_SLASH :: int where "CC_SLASH = 16"
definition CC_LP :: int where "CC_LP = 17"
definition CC_RP :: int where "CC_RP = 18"
definition CC_SEMI :: int where "CC_SEMI = 19"
definition CC_PLUS :: int where "CC_PLUS = 20"
definition CC_STAR :: int where "CC_STAR = 21"
definition CC_PERCENT :: int where "CC_PERCENT = 22"
definition CC_COMMA :: int where "CC_COMMA = 23"
definition CC_AND :: int where "CC_AND = 24"
definition CC_TILDA :: int where "CC_TILDA = 25"
definition CC_DOT :: int where "CC_DOT = 26"
definition CC_ID :: int where "CC_ID = 27"
definition CC_ILLEGAL :: int where "CC_ILLEGAL = 28"
definition CC_NUL :: int where "CC_NUL = 29"
definition CC_BOM :: int where "CC_BOM = 30"

definition aiClass :: "int list" where
  "aiClass =
   [29, 28, 28, 28, 28, 28, 28, 28, 28, 7, 7, 28, 7, 7, 28, 28,
    28, 28, 28, 28, 28, 28, 28, 28, 28, 28, 28, 28, 28, 28, 28, 28,
    7, 15, 8, 5, 4, 22, 24, 8, 17, 18, 21, 20, 23, 11, 26, 16,
    3, 3, 3, 3, 3, 3, 3, 3, 3, 3, 5, 19, 12, 14, 13, 6,
    5, 1, 1, 1, 1, 1, 1, 1, 1, 1, 1, 1, 1, 1, 1, 1,
    1, 1, 1, 1, 1, 1, 1, 1, 0, 2, 2, 9, 28, 28, 28, 2,
    8, 1, 1, 1, 1, 1, 1, 1, 1, 1, 1, 1, 1, 1, 1, 1,
    1, 1, 1, 1, 1, 1, 1, 1, 0, 2, 2, 28, 10, 28, 25, 28,
    27, 27, 27, 27, 27, 27, 27, 27, 27, 27, 27, 27, 27, 27, 27, 27,
    27, 27, 27, 27, 27, 27, 27, 27, 27, 27, 27, 27, 27, 27, 27, 27,
    27, 27, 27, 27, 27, 27, 27, 27, 27, 27, 27, 27, 27, 27, 27, 27,
    27, 27, 27, 27, 27, 27, 27, 27, 27, 27, 27, 27, 27, 27, 27, 27,
    27, 27, 27, 27, 27, 27, 27, 27, 27, 27, 27, 27, 27, 27, 27, 27,
    27, 27, 27, 27, 27, 27, 27, 27, 27, 27, 27, 27, 27, 27, 27, 27,
    27, 27, 27, 27, 27, 27, 27, 27, 27, 27, 27, 27, 27, 27, 27, 30,
    27, 27, 27, 27, 27, 27, 27, 27, 27, 27, 27, 27, 27, 27, 27, 27]"

definition char_class :: "u8 \<Rightarrow> int" where
  "char_class c = aiClass ! unat c"

lemmas CC_defs = CC_X_def CC_KYWD0_def CC_KYWD_def CC_DIGIT_def CC_DOLLAR_def CC_VARALPHA_def
  CC_VARNUM_def CC_SPACE_def CC_QUOTE_def CC_QUOTE2_def CC_PIPE_def CC_MINUS_def
  CC_LT_def CC_GT_def CC_EQ_def CC_BANG_def CC_SLASH_def CC_LP_def
  CC_RP_def CC_SEMI_def CC_PLUS_def CC_STAR_def CC_PERCENT_def CC_COMMA_def
  CC_AND_def CC_TILDA_def CC_DOT_def CC_ID_def CC_ILLEGAL_def CC_NUL_def
  CC_BOM_def

subsection \<open>Scanning loops\<close>

text \<open>\<open>scan P z i\<close> is the loop \<open>for(; P(z[i]); i++){}\<close>. Every predicate it is used with is false of the
  terminator, so that the loop never goes beyond it.\<close>

function scan :: "(u8 \<Rightarrow> bool) \<Rightarrow> bytes \<Rightarrow> nat \<Rightarrow> nat" where
  "scan P z i = (if i < length z \<and> P (byte_at z i) then scan P z (i + 1) else i)"
  by pat_completeness auto
termination by (relation "measure (\<lambda>(_, z, i). length z - i)") auto

text \<open>The loop of a C-style comment, with the byte \<open>c\<close> before position \<open>i\<close>. It returns the final \<open>i\<close>
  and \<open>c\<close>; \<open>42\<close> and \<open>47\<close> are star and slash.\<close>

function comment_scan :: "bytes \<Rightarrow> nat \<Rightarrow> u8 \<Rightarrow> nat \<times> u8" where
  "comment_scan z i c =
     (if c = 42 \<and> byte_at z i = 47 then (i, c)
      else if byte_at z i = 0 then (i, 0)
      else comment_scan z (i + 1) (byte_at z i))"
  by pat_completeness auto
termination by (relation "measure (\<lambda>(z, i, _). length z - i)") (auto simp: byte_at_def split: if_splits)

text \<open>The loop of a quoted token: a doubled delimiter stands for itself. The second result is the
  delimiter that ended the token, or 0 at the end of the text.\<close>

function quote_scan :: "bytes \<Rightarrow> u8 \<Rightarrow> nat \<Rightarrow> nat \<times> u8" where
  "quote_scan z delim i =
     (if byte_at z i = 0 then (i, 0)
      else if byte_at z i = delim then
        (if byte_at z (i + 1) = delim then quote_scan z delim (i + 2) else (i, byte_at z i))
      else quote_scan z delim (i + 1))"
  by pat_completeness auto
termination by (relation "measure (\<lambda>(z, _, i). length z - i)") (auto simp: byte_at_def split: if_splits)

definition SQLITE_DIGIT_SEPARATOR :: u8 where
  "SQLITE_DIGIT_SEPARATOR = 95"

text \<open>The digits of a number; a separator makes the token a TK_QNUMBER.\<close>

function digit_scan :: "(u8 \<Rightarrow> bool) \<Rightarrow> bytes \<Rightarrow> nat \<Rightarrow> int \<Rightarrow> nat \<times> int" where
  "digit_scan P z i t =
     (if length z \<le> i then (i, t)
      else if \<not> P (byte_at z i) then
        (if byte_at z i = SQLITE_DIGIT_SEPARATOR then digit_scan P z (i + 1) TK_QNUMBER else (i, t))
      else digit_scan P z (i + 1) t)"
  by pat_completeness auto
termination by (relation "measure (\<lambda>(_, z, i, _). length z - i)") auto

text \<open>The loop of an identifier in brackets; \<open>93\<close> is the closing bracket.\<close>

function bracket_scan :: "bytes \<Rightarrow> nat \<Rightarrow> u8 \<Rightarrow> nat \<times> u8" where
  "bracket_scan z i c =
     (if c = 93 then (i, c)
      else if byte_at z i = 0 then (i, 0)
      else bracket_scan z (i + 1) (byte_at z i))"
  by pat_completeness auto
termination by (relation "measure (\<lambda>(z, i, _). length z - i)") (auto simp: byte_at_def split: if_splits)

text \<open>The loop of a named variable: \<open>n\<close> counts the identifier characters; a parenthesised suffix
  (\<open>40\<close>, \<open>41\<close>) ends the token and a double colon (\<open>58\<close>) may be part of it.\<close>

function var_scan :: "bytes \<Rightarrow> nat \<Rightarrow> nat \<Rightarrow> int \<Rightarrow> nat \<times> nat \<times> int" where
  "var_scan z i n t =
     (let c = byte_at z i in
      if c = 0 then (i, n, t)
      else if IdChar c then var_scan z (i + 1) (n + 1) t
      else if c = 40 \<and> 0 < n then
        (let j = scan (\<lambda>c. c \<noteq> 0 \<and> \<not> sqlite3Isspace c \<and> c \<noteq> 41) z (i + 1) in
         if byte_at z j = 41 then (j + 1, n, t) else (j, n, TK_ILLEGAL))
      else if c = 58 \<and> byte_at z (i + 1) = 58 then var_scan z (i + 2) n t
      else (i, n, t))"
  by pat_completeness auto
termination by (relation "measure (\<lambda>(z, i, _). length z - i)") (auto simp: byte_at_def split: if_splits)

declare scan.simps [simp del] comment_scan.simps [simp del] quote_scan.simps [simp del]
  digit_scan.simps [simp del] bracket_scan.simps [simp del] var_scan.simps [simp del]

subsection \<open>The cases of the switch\<close>

definition token_minus :: "bytes \<Rightarrow> nat \<times> int" where
  "token_minus z =
     (if byte_at z 1 = 45 then (scan (\<lambda>c. c \<noteq> 0 \<and> c \<noteq> 10) z 2, TK_COMMENT)
      else if byte_at z 1 = 62 then (2 + (if byte_at z 2 = 62 then 1 else 0), TK_PTR)
      else (1, TK_MINUS))"

definition token_slash :: "bytes \<Rightarrow> nat \<times> int" where
  "token_slash z =
     (if byte_at z 1 \<noteq> 42 \<or> byte_at z 2 = 0 then (1, TK_SLASH)
      else (case comment_scan z 3 (byte_at z 2) of (i, c) \<Rightarrow> (if c \<noteq> 0 then i + 1 else i, TK_COMMENT)))"

definition token_lt :: "bytes \<Rightarrow> nat \<times> int" where
  "token_lt z =
     (let c = byte_at z 1 in
      if c = 61 then (2, TK_LE) else if c = 62 then (2, TK_NE) else if c = 60 then (2, TK_LSHIFT) else (1, TK_LT))"

definition token_gt :: "bytes \<Rightarrow> nat \<times> int" where
  "token_gt z =
     (let c = byte_at z 1 in if c = 61 then (2, TK_GE) else if c = 62 then (2, TK_RSHIFT) else (1, TK_GT))"

definition token_quote :: "bytes \<Rightarrow> nat \<times> int" where
  "token_quote z =
     (let delim = byte_at z 0 in
      case quote_scan z delim 1 of (i, c) \<Rightarrow>
        if c = 39 then (i + 1, TK_STRING) else if c \<noteq> 0 then (i + 1, TK_ID) else (i, TK_ILLEGAL))"

definition number_point :: "bytes \<Rightarrow> nat \<times> int \<Rightarrow> nat \<times> int" where
  "number_point z it =
     (case it of (i, t) \<Rightarrow>
        if byte_at z i = 46 then digit_scan sqlite3Isdigit z (i + 1) (if t = TK_INTEGER then TK_FLOAT else t)
        else (i, t))"

definition number_exponent :: "bytes \<Rightarrow> nat \<times> int \<Rightarrow> nat \<times> int" where
  "number_exponent z it =
     (case it of (i, t) \<Rightarrow>
        if (byte_at z i = 101 \<or> byte_at z i = 69) \<and>
           (sqlite3Isdigit (byte_at z (i + 1)) \<or>
            (byte_at z (i + 1) = 43 \<or> byte_at z (i + 1) = 45) \<and> sqlite3Isdigit (byte_at z (i + 2)))
        then digit_scan sqlite3Isdigit z (i + 2) (if t = TK_INTEGER then TK_FLOAT else t)
        else (i, t))"

definition token_number :: "bytes \<Rightarrow> nat \<times> int" where
  "token_number z =
     (let it = (if byte_at z 0 = 48 \<and> (byte_at z 1 = 120 \<or> byte_at z 1 = 88) \<and> sqlite3Isxdigit (byte_at z 2)
                then digit_scan sqlite3Isxdigit z 3 TK_INTEGER
                else number_exponent z (number_point z (digit_scan sqlite3Isdigit z 0 TK_INTEGER)))
      in case it of (i, t) \<Rightarrow>
        let j = scan IdChar z i in (j, if i < j then TK_ILLEGAL else t))"

definition token_bracket :: "bytes \<Rightarrow> nat \<times> int" where
  "token_bracket z =
     (case bracket_scan z 1 (byte_at z 0) of (i, c) \<Rightarrow> (i, if c = 93 then TK_ID else TK_ILLEGAL))"

definition token_variable :: "bytes \<Rightarrow> nat \<times> int" where
  "token_variable z =
     (case var_scan z 1 0 TK_VARIABLE of (i, n, t) \<Rightarrow> (i, if n = 0 then TK_ILLEGAL else t))"

text \<open>The common end of the identifier cases: \<open>while( IdChar(z[i]) ){ i++; }\<close>.\<close>

definition token_ident :: "bytes \<Rightarrow> nat \<Rightarrow> nat \<times> int" where
  "token_ident z i = (scan IdChar z i, TK_ID)"

definition token_keyword :: "bytes \<Rightarrow> nat \<times> int" where
  "token_keyword z =
     (if CC_KYWD < char_class (byte_at z 1) then token_ident z 1
      else (let i = scan (\<lambda>c. char_class c \<le> CC_KYWD) z 2 in
        if IdChar (byte_at z i) then token_ident z (i + 1) else keywordCode z i TK_ID))"

definition token_blob :: "bytes \<Rightarrow> nat \<times> int" where
  "token_blob z =
     (if byte_at z 1 = 39 then
        (let i = scan sqlite3Isxdigit z 2;
             (i, t) = (if byte_at z i \<noteq> 39 \<or> i mod 2 \<noteq> 0
                       then (scan (\<lambda>c. c \<noteq> 0 \<and> c \<noteq> 39) z i, TK_ILLEGAL) else (i, TK_BLOB))
         in (if byte_at z i \<noteq> 0 then i + 1 else i, t))
      else token_ident z 1)"

definition sqlite3GetToken :: "bytes \<Rightarrow> nat \<times> int" where
  "sqlite3GetToken z =
     (let cc = char_class (byte_at z 0) in
      if cc = CC_SPACE then (scan sqlite3Isspace z 1, TK_SPACE)
      else if cc = CC_MINUS then token_minus z
      else if cc = CC_LP then (1, TK_LP)
      else if cc = CC_RP then (1, TK_RP)
      else if cc = CC_SEMI then (1, TK_SEMI)
      else if cc = CC_PLUS then (1, TK_PLUS)
      else if cc = CC_STAR then (1, TK_STAR)
      else if cc = CC_SLASH then token_slash z
      else if cc = CC_PERCENT then (1, TK_REM)
      else if cc = CC_EQ then (1 + (if byte_at z 1 = 61 then 1 else 0), TK_EQ)
      else if cc = CC_LT then token_lt z
      else if cc = CC_GT then token_gt z
      else if cc = CC_BANG then (if byte_at z 1 \<noteq> 61 then (1, TK_ILLEGAL) else (2, TK_NE))
      else if cc = CC_PIPE then (if byte_at z 1 \<noteq> 124 then (1, TK_BITOR) else (2, TK_CONCAT))
      else if cc = CC_COMMA then (1, TK_COMMA)
      else if cc = CC_AND then (1, TK_BITAND)
      else if cc = CC_TILDA then (1, TK_BITNOT)
      else if cc = CC_QUOTE then token_quote z
      else if cc = CC_DOT then (if \<not> sqlite3Isdigit (byte_at z 1) then (1, TK_DOT) else token_number z)
      else if cc = CC_DIGIT then token_number z
      else if cc = CC_QUOTE2 then token_bracket z
      else if cc = CC_VARNUM then (scan sqlite3Isdigit z 1, TK_VARIABLE)
      else if cc = CC_DOLLAR \<or> cc = CC_VARALPHA then token_variable z
      else if cc = CC_KYWD0 then token_keyword z
      else if cc = CC_X then token_blob z
      else if cc = CC_KYWD \<or> cc = CC_ID then token_ident z 1
      else if cc = CC_BOM then
        (if byte_at z 1 = 0xbb \<and> byte_at z 2 = 0xbf then (3, TK_SPACE) else token_ident z 1)
      else if cc = CC_NUL then (0, TK_ILLEGAL)
      else (1, TK_ILLEGAL))"

subsection \<open>Scans stay within the text\<close>

abbreviation strlen :: "bytes \<Rightarrow> nat" where
  "strlen z \<equiv> length (cstr z)"

lemma byte_at_strlen: "byte_at z (strlen z) = 0"
  by (induction z) (auto simp: cstr_def byte_at_def)

lemma byte_at_cstr:
  assumes "i < strlen z"
  shows "byte_at z i \<noteq> 0"
proof -
  have "cstr z ! i \<noteq> 0" using nth_mem [OF assms] set_takeWhileD unfolding cstr_def by metis
  moreover have "i < length z" using assms length_takeWhile_le unfolding cstr_def by (rule order_less_le_trans)
  ultimately show ?thesis using assms unfolding cstr_def by (simp add: byte_at_def takeWhile_nth)
qed

lemma strlen_next: "i \<le> strlen z \<Longrightarrow> byte_at z i \<noteq> 0 \<Longrightarrow> i + 1 \<le> strlen z"
  using byte_at_strlen [of z] by (cases "i = strlen z") auto

lemma strlen_next2: "i \<le> strlen z \<Longrightarrow> byte_at z i \<noteq> 0 \<Longrightarrow> byte_at z (i + 1) \<noteq> 0 \<Longrightarrow> i + 2 \<le> strlen z"
  using strlen_next [of i z] strlen_next [of "i + 1" z] by simp

lemma strlen_length: "strlen z \<le> length z"
  by (simp add: cstr_def length_takeWhile_le)

lemma scan_bounds: "i \<le> strlen z \<Longrightarrow> \<not> P 0 \<Longrightarrow> i \<le> scan P z i \<and> scan P z i \<le> strlen z"
proof (induction P z i rule: scan.induct)
  case (1 P z i)
  show ?case
  proof (cases "i < length z \<and> P (byte_at z i)")
    case True
    then have "i + 1 \<le> strlen z" using "1.prems" by (intro strlen_next) metis+
    then show ?thesis using "1.IH" [OF True] "1.prems" True by (simp add: scan.simps [of P z i])
  next
    case False
    then have "scan P z i = i" by (subst scan.simps) (simp only: if_False)
    then show ?thesis using "1.prems" by simp
  qed
qed

lemma scan_stops: "\<not> P 0 \<Longrightarrow> \<not> P (byte_at z (scan P z i))"
proof (induction P z i rule: scan.induct)
  case (1 P z i)
  then show ?case by (cases "i < length z \<and> P (byte_at z i)") (auto simp add: scan.simps [of P z i] byte_at_def)
qed

lemma scan_all: "i \<le> k \<Longrightarrow> k < scan P z i \<Longrightarrow> P (byte_at z k)"
proof (induction P z i rule: scan.induct)
  case (1 P z i)
  show ?case
  proof (cases "i < length z \<and> P (byte_at z i)")
    case True
    then show ?thesis using "1.IH" [OF True] "1.prems" by (cases "k = i") (auto simp: scan.simps [of P z i])
  qed (use "1.prems" in \<open>auto simp add: scan.simps [of P z i]\<close>)
qed

lemma comment_scan_bounds:
  "i \<le> strlen z \<Longrightarrow> comment_scan z i c = (j, d) \<Longrightarrow> i \<le> j \<and> j \<le> strlen z \<and> (d \<noteq> 0 \<longrightarrow> j < strlen z)"
proof (induction z i c rule: comment_scan.induct)
  case (1 z i c)
  show ?case
  proof (cases "c = 42 \<and> byte_at z i = 47")
    case True
    then have "i < strlen z" using strlen_next [of i z] "1.prems"(1) by simp
    moreover have "comment_scan z i c = (i, c)" using True by (subst comment_scan.simps) simp
    ultimately show ?thesis using "1.prems" by simp
  next
    case F: False
    show ?thesis
    proof (cases "byte_at z i = 0")
      case True
      then show ?thesis using F "1.prems" by (simp add: comment_scan.simps [of z i c])
    next
      case False
      then have "i + 1 \<le> strlen z" using "1.prems"(1) by (intro strlen_next)
      then show ?thesis using "1.IH" [OF F False] "1.prems" F False
        by (simp add: comment_scan.simps [of z i c] if_not_P [OF F])
    qed
  qed
qed

lemma quote_scan_bounds:
  "i \<le> strlen z \<Longrightarrow> delim \<noteq> 0 \<Longrightarrow> quote_scan z delim i = (j, d) \<Longrightarrow> i \<le> j \<and> j \<le> strlen z \<and> (d \<noteq> 0 \<longrightarrow> j < strlen z)"
proof (induction z delim i rule: quote_scan.induct)
  case (1 z delim i)
  consider "byte_at z i = 0" | "byte_at z i \<noteq> 0" "byte_at z i = delim" "byte_at z (i + 1) = delim"
    | "byte_at z i \<noteq> 0" "byte_at z i = delim" "byte_at z (i + 1) \<noteq> delim" | "byte_at z i \<noteq> 0" "byte_at z i \<noteq> delim"
    by blast
  then show ?case
  proof cases
    case 1
    then show ?thesis using "1.prems" by (simp add: quote_scan.simps [of z delim i])
  next
    case 2
    then have "i + 2 \<le> strlen z" using "1.prems" by (intro strlen_next2) auto
    then show ?thesis using "1.IH"(1) [OF 2] "1.prems" 2 by (simp add: quote_scan.simps [of z delim i])
  next
    case 3
    then have "i + 1 \<le> strlen z" using "1.prems" by (intro strlen_next)
    then show ?thesis using "1.prems" 3 by (simp add: quote_scan.simps [of z delim i] Let_def)
  next
    case 4
    then have "i + 1 \<le> strlen z" using "1.prems" by (intro strlen_next)
    then show ?thesis using "1.IH"(2) [OF 4] "1.prems" 4 by (simp add: quote_scan.simps [of z delim i])
  qed
qed

lemma digit_scan_bounds:
  "i \<le> strlen z \<Longrightarrow> \<not> P 0 \<Longrightarrow> digit_scan P z i t = (j, u) \<Longrightarrow> i \<le> j \<and> j \<le> strlen z \<and> (u = t \<or> u = TK_QNUMBER)"
proof (induction P z i t rule: digit_scan.induct)
  case (1 P z i t)
  consider "length z \<le> i" | "i < length z" "\<not> P (byte_at z i)" "byte_at z i \<noteq> SQLITE_DIGIT_SEPARATOR"
    | "i < length z" "\<not> P (byte_at z i)" "byte_at z i = SQLITE_DIGIT_SEPARATOR" | "i < length z" "P (byte_at z i)"
    by force
  then show ?case
  proof cases
    case 3
    then have "i + 1 \<le> strlen z" using "1.prems" by (intro strlen_next) (auto simp: SQLITE_DIGIT_SEPARATOR_def)
    then show ?thesis using "1.IH"(1) "1.prems" 3 by (simp add: digit_scan.simps [of P z i t])
  next
    case 4
    then have "i + 1 \<le> strlen z" using "1.prems" by (intro strlen_next) metis+
    then show ?thesis using "1.IH"(2) "1.prems" 4 by (simp add: digit_scan.simps [of P z i t])
  qed (use "1.prems" in \<open>auto simp add: digit_scan.simps [of P z i t]\<close>)
qed

lemma bracket_scan_bounds:
  "i \<le> strlen z \<Longrightarrow> bracket_scan z i c = (j, d) \<Longrightarrow> i \<le> j \<and> j \<le> strlen z"
proof (induction z i c rule: bracket_scan.induct)
  case (1 z i c)
  consider "c = 93" | "c \<noteq> 93" "byte_at z i = 0" | "c \<noteq> 93" "byte_at z i \<noteq> 0" by blast
  then show ?case
  proof cases
    case 1
    then have "bracket_scan z i c = (i, c)" by (subst bracket_scan.simps) simp
    then show ?thesis using "1.prems" by simp
  next
    case 3
    then have "i + 1 \<le> strlen z" using "1.prems"(1) by (intro strlen_next)
    then show ?thesis using "1.IH" [OF 3] "1.prems" 3 by (simp add: bracket_scan.simps [of z i c])
  qed (use "1.prems" in \<open>auto simp add: bracket_scan.simps [of z i c]\<close>)
qed

lemma IdChar_0: "\<not> IdChar 0" "\<not> sqlite3Isspace 0" "\<not> sqlite3Isdigit 0" "\<not> sqlite3Isxdigit 0"
  by (simp_all add: IdChar_eq Isalpha_eq Isdigit_eq Isspace_eq Isxdigit_eq)

lemma var_scan_bounds:
  "i \<le> strlen z \<Longrightarrow> var_scan z i n t = (j, m, u) \<Longrightarrow> i \<le> j \<and> j \<le> strlen z \<and> (u = t \<or> u = TK_ILLEGAL)"
proof (induction z i n t rule: var_scan.induct)
  case (1 z i n t)
  let ?c = "byte_at z i"
  let ?P = "\<lambda>c. c \<noteq> 0 \<and> \<not> sqlite3Isspace c \<and> c \<noteq> 41"
  consider "?c = 0" | "?c \<noteq> 0" "IdChar ?c" | "?c \<noteq> 0" "\<not> IdChar ?c" "?c = 40 \<and> 0 < n"
    | "?c \<noteq> 0" "\<not> IdChar ?c" "\<not> (?c = 40 \<and> 0 < n)" "?c = 58 \<and> byte_at z (i + 1) = 58"
    | "?c \<noteq> 0" "\<not> IdChar ?c" "\<not> (?c = 40 \<and> 0 < n)" "\<not> (?c = 58 \<and> byte_at z (i + 1) = 58)" by blast
  then show ?case
  proof cases
    case 1
    then show ?thesis using "1.prems" by (simp add: var_scan.simps [of z i n t])
  next
    case 2
    then have "i + 1 \<le> strlen z" using "1.prems"(1) by (intro strlen_next)
    then show ?thesis using "1.IH"(1) [OF refl 2] "1.prems" 2 by (simp add: var_scan.simps [of z i n t])
  next
    case 3
    let ?j = "scan ?P z (i + 1)"
    have "i + 1 \<le> strlen z" using 3 "1.prems"(1) by (intro strlen_next)
    then have j: "i + 1 \<le> ?j" "?j \<le> strlen z" using scan_bounds [of "i + 1" z ?P] by auto
    have "?j + 1 \<le> strlen z" if "byte_at z ?j = 41" using j(2) that by (intro strlen_next) auto
    then show ?thesis using j "1.prems" 3 by (simp add: var_scan.simps [of z i n t] Let_def split: if_splits)
  next
    case 4
    then have "i + 2 \<le> strlen z" using "1.prems"(1) by (intro strlen_next2) auto
    then show ?thesis using "1.IH"(2) [OF refl 4] "1.prems" 4 by (simp add: var_scan.simps [of z i n t])
  next
    case 5
    then show ?thesis using "1.prems" by (auto simp add: var_scan.simps [of z i n t])
  qed
qed

subsection \<open>Every token lies within the text and has a valid code\<close>

text \<open>The assertions that the callers make about a token: its code indexes the fallback table, a code
  from TK_WINDOW on is one of seven, and the context-dependent keywords have their length.\<close>

definition token_type_ok :: "nat \<Rightarrow> int \<Rightarrow> bool" where
  "token_type_ok n t \<longleftrightarrow> 0 < t \<and> t \<le> TK_ILLEGAL \<and>
     (TK_WINDOW \<le> t \<longrightarrow> t \<in> {TK_SPACE, TK_OVER, TK_FILTER, TK_ILLEGAL, TK_WINDOW, TK_QNUMBER, TK_COMMENT}) \<and>
     (t = TK_WINDOW \<longrightarrow> int n = 6) \<and> (t = TK_OVER \<longrightarrow> int n = 4) \<and> (t = TK_FILTER \<longrightarrow> int n = 6)"

definition token_ok :: "bytes \<Rightarrow> nat \<times> int \<Rightarrow> bool" where
  "token_ok z r \<longleftrightarrow> 0 < fst r \<and> fst r \<le> strlen z \<and> token_type_ok (fst r) (snd r)"

lemma token_okI: "0 < n \<Longrightarrow> n \<le> strlen z \<Longrightarrow> token_type_ok n t \<Longrightarrow> token_ok z (n, t)"
  by (simp add: token_ok_def)

lemma keyword_types: "list_all2 (\<lambda>l t. token_type_ok (nat l) t) (tl aKWLen) (tl aKWCode)"
  by code_simp

lemma plain_types [simp]:
  "token_type_ok n TK_SPACE" "token_type_ok n TK_COMMENT" "token_type_ok n TK_PTR" "token_type_ok n TK_MINUS"
  "token_type_ok n TK_SLASH" "token_type_ok n TK_LE" "token_type_ok n TK_NE" "token_type_ok n TK_LSHIFT"
  "token_type_ok n TK_LT" "token_type_ok n TK_GE" "token_type_ok n TK_RSHIFT" "token_type_ok n TK_GT"
  "token_type_ok n TK_STRING" "token_type_ok n TK_ID" "token_type_ok n TK_ILLEGAL" "token_type_ok n TK_INTEGER"
  "token_type_ok n TK_FLOAT" "token_type_ok n TK_QNUMBER" "token_type_ok n TK_VARIABLE" "token_type_ok n TK_BLOB"
  "token_type_ok n TK_LP" "token_type_ok n TK_RP" "token_type_ok n TK_SEMI" "token_type_ok n TK_PLUS"
  "token_type_ok n TK_STAR" "token_type_ok n TK_REM" "token_type_ok n TK_EQ" "token_type_ok n TK_BITOR"
  "token_type_ok n TK_CONCAT" "token_type_ok n TK_COMMA" "token_type_ok n TK_BITAND" "token_type_ok n TK_BITNOT"
  "token_type_ok n TK_DOT"
  by (simp_all add: token_type_ok_def token_codes)

lemma probe_result: "keyword_probe z n i = 0 \<or> 0 < keyword_probe z n i \<and> keyword_probe z n i < 148 \<and> aKWLen ! nat (keyword_probe z n i) = int n"
proof (induction z n i rule: keyword_probe.induct)
  case (1 z n i)
  show ?case
    by (subst (1 2 3 4) keyword_probe.simps) (use 1 in \<open>auto simp add: Let_def\<close>)
qed

lemma keywordCode_ok: "fst (keywordCode z n TK_ID) = n" "token_type_ok n (snd (keywordCode z n TK_ID))"
proof -
  let ?i = "keyword_probe z n (aKWHash ! keyword_hash z n)"
  show "fst (keywordCode z n TK_ID) = n" by (simp add: keywordCode_def Let_def)
  show "token_type_ok n (snd (keywordCode z n TK_ID))"
  proof (cases "?i = 0")
    case False
    then have i: "0 < ?i" "?i < 148" "aKWLen ! nat ?i = int n" using probe_result by metis+
    have l: "length aKWLen = 148" "length aKWCode = 148" by (simp_all add: aKWLen_def aKWCode_def)
    then have ne: "aKWLen \<noteq> []" "aKWCode \<noteq> []" by auto
    have "token_type_ok (nat (tl aKWLen ! nat (?i - 1))) (tl aKWCode ! nat (?i - 1))"
      using i l by (intro list_all2_nthD [OF keyword_types]) simp
    moreover have "tl aKWLen ! nat (?i - 1) = aKWLen ! nat ?i" "tl aKWCode ! nat (?i - 1) = aKWCode ! nat ?i"
      using nth_tl_table [OF ne(1), of ?i] nth_tl_table [OF ne(2), of ?i] i l by simp_all
    ultimately show ?thesis using i(1,3) by (simp add: keywordCode_def Let_def)
  qed (simp add: keywordCode_def Let_def)
qed

lemma first_byte: "1 \<le> strlen z \<Longrightarrow> byte_at z 0 \<noteq> 0"
  by (rule byte_at_cstr) linarith

lemma token_minus_ok:
  assumes "1 \<le> strlen z"
  shows "token_ok z (token_minus z)"
proof -
  consider "byte_at z 1 = 45" | "byte_at z 1 = 62" | "byte_at z 1 \<noteq> 45" "byte_at z 1 \<noteq> 62" by blast
  then show ?thesis
  proof cases
    case 1
    then have "2 \<le> strlen z" using strlen_next [OF assms] by simp
    then show ?thesis using 1 scan_bounds [of 2 z "\<lambda>c. c \<noteq> 0 \<and> c \<noteq> 10"]
      by (simp add: token_minus_def token_ok_def)
  next
    case 2
    then have "2 \<le> strlen z" using strlen_next [OF assms] by simp
    then show ?thesis using 2 strlen_next [of 2 z] by (auto simp: token_minus_def token_ok_def)
  qed (use assms in \<open>simp add: token_minus_def token_ok_def\<close>)
qed

lemma token_slash_ok:
  assumes "1 \<le> strlen z"
  shows "token_ok z (token_slash z)"
proof (cases "byte_at z 1 \<noteq> 42 \<or> byte_at z 2 = 0")
  case False
  then have "2 \<le> strlen z" using strlen_next [OF assms] by simp
  then have 3: "3 \<le> strlen z" using strlen_next [of 2 z] False by simp
  obtain i c where r: "comment_scan z 3 (byte_at z 2) = (i, c)" by fastforce
  have "3 \<le> i" "i \<le> strlen z" "c \<noteq> 0 \<longrightarrow> i + 1 \<le> strlen z" using comment_scan_bounds [OF 3 r] by auto
  moreover have "token_slash z = (if c \<noteq> 0 then i + 1 else i, TK_COMMENT)" using False by (simp add: token_slash_def r)
  ultimately show ?thesis by (simp add: token_ok_def)
qed (use assms in \<open>simp add: token_slash_def token_ok_def\<close>)

lemma token_operator_ok:
  assumes "1 \<le> strlen z"
  shows "token_ok z (token_lt z)" "token_ok z (token_gt z)"
  using assms strlen_next [OF assms] by (auto simp: token_lt_def token_gt_def token_ok_def Let_def)

lemma token_quote_ok:
  assumes "1 \<le> strlen z"
  shows "token_ok z (token_quote z)"
proof -
  obtain i c where q: "quote_scan z (byte_at z 0) 1 = (i, c)" by fastforce
  have "byte_at z 0 \<noteq> 0" using assms by (rule first_byte)
  then have "1 \<le> i" "i \<le> strlen z" "c \<noteq> 0 \<longrightarrow> i + 1 \<le> strlen z" using quote_scan_bounds [OF assms _ q] by auto
  then show ?thesis unfolding token_quote_def Let_def q prod.case by (auto simp: token_ok_def)
qed

text \<open>The parts of a number.\<close>

definition number_ok :: "bytes \<Rightarrow> nat \<Rightarrow> nat \<times> int \<Rightarrow> bool" where
  "number_ok z i r \<longleftrightarrow> i \<le> fst r \<and> fst r \<le> strlen z \<and> snd r \<in> {TK_INTEGER, TK_FLOAT, TK_QNUMBER}"

lemma digits_ok:
  assumes "i \<le> strlen z" "\<not> P 0" "t \<in> {TK_INTEGER, TK_FLOAT, TK_QNUMBER}"
  shows "number_ok z i (digit_scan P z i t)"
proof -
  obtain j u where r: "digit_scan P z i t = (j, u)" by fastforce
  show ?thesis using digit_scan_bounds [OF assms(1,2) r] assms(3) by (auto simp: number_ok_def r)
qed

lemma number_ok_weaken: "number_ok z j r \<Longrightarrow> i \<le> j \<Longrightarrow> number_ok z i r"
  by (simp add: number_ok_def)

lemma float_type: "t \<in> {TK_INTEGER, TK_FLOAT, TK_QNUMBER} \<Longrightarrow> (if t = TK_INTEGER then TK_FLOAT else t) \<in> {TK_INTEGER, TK_FLOAT, TK_QNUMBER}"
  by auto

lemma number_point_ok:
  assumes "number_ok z i r"
  shows "number_ok z i (number_point z r)"
proof -
  obtain j t where r: "r = (j, t)" by (cases r)
  have j: "i \<le> j" "j \<le> strlen z" and t: "t \<in> {TK_INTEGER, TK_FLOAT, TK_QNUMBER}" using assms by (simp_all add: number_ok_def r)
  show ?thesis
  proof (cases "byte_at z j = 46")
    case True
    then have "j + 1 \<le> strlen z" using j(2) by (intro strlen_next) auto
    then have "number_ok z (j + 1) (digit_scan sqlite3Isdigit z (j + 1) (if t = TK_INTEGER then TK_FLOAT else t))"
      using IdChar_0 float_type [OF t] by (intro digits_ok)
    then show ?thesis using True j by (simp add: number_point_def r number_ok_weaken)
  qed (use assms in \<open>simp add: number_point_def r\<close>)
qed

lemma number_exponent_ok:
  assumes "number_ok z i r"
  shows "number_ok z i (number_exponent z r)"
proof -
  obtain j t where r: "r = (j, t)" by (cases r)
  have j: "i \<le> j" "j \<le> strlen z" and t: "t \<in> {TK_INTEGER, TK_FLOAT, TK_QNUMBER}" using assms by (simp_all add: number_ok_def r)
  let ?e = "(byte_at z j = 101 \<or> byte_at z j = 69) \<and>
           (sqlite3Isdigit (byte_at z (j + 1)) \<or>
            (byte_at z (j + 1) = 43 \<or> byte_at z (j + 1) = 45) \<and> sqlite3Isdigit (byte_at z (j + 2)))"
  show ?thesis
  proof (cases ?e)
    case True
    have "byte_at z j \<noteq> 0" using True by auto
    moreover have "byte_at z (j + 1) \<noteq> 0"
    proof
      assume "byte_at z (j + 1) = 0"
      with True show False using IdChar_0 by simp
    qed
    ultimately have "j + 2 \<le> strlen z" using j(2) by (intro strlen_next2)
    then have "number_ok z (j + 2) (digit_scan sqlite3Isdigit z (j + 2) (if t = TK_INTEGER then TK_FLOAT else t))"
      using IdChar_0 float_type [OF t] by (intro digits_ok)
    then have "number_ok z i (digit_scan sqlite3Isdigit z (j + 2) (if t = TK_INTEGER then TK_FLOAT else t))"
      using j(1) by (rule number_ok_weaken [OF _ trans_le_add1])
    then show ?thesis unfolding number_exponent_def r prod.case if_P [OF True] .
  next
    case False
    show ?thesis using assms unfolding number_exponent_def r prod.case if_not_P [OF False] .
  qed
qed

lemma number_types [simp]: "t \<in> {TK_INTEGER, TK_FLOAT, TK_QNUMBER} \<Longrightarrow> token_type_ok n t"
  by auto

lemma token_number_ok:
  assumes "1 \<le> strlen z" "sqlite3Isdigit (byte_at z 0) \<or> byte_at z 0 = 46 \<and> sqlite3Isdigit (byte_at z 1)"
  shows "token_ok z (token_number z)"
proof -
  let ?hex = "byte_at z 0 = 48 \<and> (byte_at z 1 = 120 \<or> byte_at z 1 = 88) \<and> sqlite3Isxdigit (byte_at z 2)"
  define it where "it = (if ?hex then digit_scan sqlite3Isxdigit z 3 TK_INTEGER
    else number_exponent z (number_point z (digit_scan sqlite3Isdigit z 0 TK_INTEGER)))"
  have it: "number_ok z 1 it"
  proof (cases ?hex)
    case True
    have "byte_at z 1 \<noteq> 0" using True by auto
    then have "2 \<le> strlen z" using strlen_next [OF assms(1)] by simp
    moreover have "byte_at z 2 \<noteq> 0" using True IdChar_0 by metis
    ultimately have "3 \<le> strlen z" using strlen_next [of 2 z] by simp
    then have "number_ok z 3 (digit_scan sqlite3Isxdigit z 3 TK_INTEGER)" using IdChar_0 by (intro digits_ok) auto
    then have "number_ok z 1 (digit_scan sqlite3Isxdigit z 3 TK_INTEGER)" by (rule number_ok_weaken) simp
    then show ?thesis unfolding it_def if_P [OF True] .
  next
    case False
    have n: "number_ok z 0 (digit_scan sqlite3Isdigit z 0 TK_INTEGER)" using IdChar_0 by (intro digits_ok) auto
    have "number_ok z 1 (number_point z (digit_scan sqlite3Isdigit z 0 TK_INTEGER))"
    proof (cases "sqlite3Isdigit (byte_at z 0)")
      case True
      have "0 < length z" using assms(1) strlen_length [of z] by linarith
      then have "digit_scan sqlite3Isdigit z 0 TK_INTEGER = digit_scan sqlite3Isdigit z (0 + 1) TK_INTEGER"
        using True by (subst digit_scan.simps) (simp only: not_le [symmetric] if_False not_True_eq_False)
      then show ?thesis using assms(1) IdChar_0 by (intro number_point_ok) (auto intro: digits_ok)
    next
      case False
      then have z: "byte_at z 0 = 46" using assms(2) by blast
      then have "digit_scan sqlite3Isdigit z 0 TK_INTEGER = (0, TK_INTEGER)"
        using False by (subst digit_scan.simps) (simp add: SQLITE_DIGIT_SEPARATOR_def)
      moreover have "number_ok z 1 (digit_scan sqlite3Isdigit z 1 TK_FLOAT)" using assms(1) IdChar_0 by (intro digits_ok) auto
      ultimately show ?thesis using z by (simp add: number_point_def)
    qed
    then have "number_ok z 1 (number_exponent z (number_point z (digit_scan sqlite3Isdigit z 0 TK_INTEGER)))"
      by (rule number_exponent_ok)
    then show ?thesis unfolding it_def if_not_P [OF False] .
  qed
  obtain i t where r: "it = (i, t)" by fastforce
  have i: "1 \<le> i" "i \<le> strlen z" "t \<in> {TK_INTEGER, TK_FLOAT, TK_QNUMBER}" using it by (simp_all add: number_ok_def r)
  have j: "i \<le> scan IdChar z i" "scan IdChar z i \<le> strlen z" using scan_bounds [OF i(2)] IdChar_0 by auto
  have "token_number z = (scan IdChar z i, if i < scan IdChar z i then TK_ILLEGAL else t)"
    unfolding token_number_def it_def [symmetric] by (simp add: r Let_def)
  then show ?thesis using i j number_types [OF i(3)] by (auto simp: token_ok_def)
qed

lemma token_bracket_ok:
  assumes "1 \<le> strlen z"
  shows "token_ok z (token_bracket z)"
proof -
  obtain i c where r: "bracket_scan z 1 (byte_at z 0) = (i, c)" by fastforce
  show ?thesis using bracket_scan_bounds [OF assms r] unfolding token_bracket_def r prod.case by (auto simp: token_ok_def)
qed

lemma token_variable_ok:
  assumes "1 \<le> strlen z"
  shows "token_ok z (token_variable z)"
proof -
  obtain i n t where r: "var_scan z 1 0 TK_VARIABLE = (i, n, t)" by (metis prod_cases3)
  show ?thesis using var_scan_bounds [OF assms r] unfolding token_variable_def r prod.case by (auto simp: token_ok_def)
qed

lemma token_ident_ok: "1 \<le> i \<Longrightarrow> i \<le> strlen z \<Longrightarrow> token_ok z (token_ident z i)"
  using scan_bounds [of i z IdChar] IdChar_0 by (simp add: token_ident_def token_ok_def)

definition class_spec :: "u8 \<Rightarrow> int \<Rightarrow> bool" where
  "class_spec c k \<longleftrightarrow>
     0 \<le> k \<and> k \<le> 30 \<and> (k = CC_NUL \<longleftrightarrow> c = 0) \<and> (k = CC_DIGIT \<longleftrightarrow> 48 \<le> c \<and> c \<le> 57) \<and> (k = CC_DOT \<longleftrightarrow> c = 46) \<and>
     (k = CC_QUOTE \<longleftrightarrow> c = 34 \<or> c = 39 \<or> c = 96) \<and> (k = CC_SEMI \<longleftrightarrow> c = 59) \<and>
     (k \<le> CC_KYWD \<longleftrightarrow> 65 \<le> c \<and> c \<le> 90 \<or> 97 \<le> c \<and> c \<le> 122 \<or> c = 95) \<and>
     (k = CC_X \<longleftrightarrow> c = 88 \<or> c = 120) \<and> (k = CC_SPACE \<longleftrightarrow> c = 32 \<or> 9 \<le> c \<and> c \<le> 10 \<or> 12 \<le> c \<and> c \<le> 13)"

lemma char_class: "class_spec c (char_class c)"
proof -
  have "list_all2 (\<lambda>n t. class_spec (word_of_int n) t) [0..255] aiClass"
    by code_simp
  from u8_table [OF this] show ?thesis by (simp add: char_class_def)
qed

lemma class_NUL: "char_class c = CC_NUL \<longleftrightarrow> c = 0"
  using char_class [of c] by (simp only: class_spec_def)

lemma class_DIGIT: "char_class c = CC_DIGIT \<longleftrightarrow> sqlite3Isdigit c"
  using char_class [of c] by (simp only: class_spec_def Isdigit_eq)

lemma class_DOT: "char_class c = CC_DOT \<longleftrightarrow> c = 46"
  using char_class [of c] by (simp only: class_spec_def)

lemma class_QUOTE: "char_class c = CC_QUOTE \<longleftrightarrow> c = 34 \<or> c = 39 \<or> c = 96"
  using char_class [of c] by (simp only: class_spec_def)

lemma class_word: "char_class c \<le> CC_KYWD \<longleftrightarrow> sqlite3Isalpha c \<or> c = 95"
  using char_class [of c] by (simp only: class_spec_def Isalpha_eq) blast

lemma token_keyword_ok:
  assumes "1 \<le> strlen z"
  shows "token_ok z (token_keyword z)"
proof (cases "CC_KYWD < char_class (byte_at z 1)")
  case True
  then show ?thesis using assms by (simp add: token_keyword_def token_ident_ok)
next
  case False
  let ?P = "\<lambda>c. char_class c \<le> CC_KYWD"
  have p0: "\<not> ?P 0" by (simp add: class_word Isalpha_eq)
  have "byte_at z 1 \<noteq> 0" using False p0 by (metis not_le)
  then have "2 \<le> strlen z" using strlen_next [OF assms] by simp
  then have i: "2 \<le> scan ?P z 2" "scan ?P z 2 \<le> strlen z" using scan_bounds [of 2 z ?P] p0 by auto
  show ?thesis
  proof (cases "IdChar (byte_at z (scan ?P z 2))")
    case True
    then have "byte_at z (scan ?P z 2) \<noteq> 0" using IdChar_0 by metis
    then have "scan ?P z 2 + 1 \<le> strlen z" using i(2) by (intro strlen_next)
    then show ?thesis using False True by (simp add: token_keyword_def Let_def token_ident_ok)
  next
    case F: False
    have "token_keyword z = keywordCode z (scan ?P z 2) TK_ID" using False F by (simp add: token_keyword_def Let_def)
    then show ?thesis using i keywordCode_ok [where z = z and n = "scan ?P z 2"] by (simp add: token_ok_def)
  qed
qed

lemma token_blob_ok:
  assumes "1 \<le> strlen z"
  shows "token_ok z (token_blob z)"
proof (cases "byte_at z 1 = 39")
  case True
  let ?i = "scan sqlite3Isxdigit z 2" and ?Q = "\<lambda>c. c \<noteq> (0 :: u8) \<and> c \<noteq> 39"
  have "2 \<le> strlen z" using True strlen_next [OF assms] by simp
  then have i: "2 \<le> ?i" "?i \<le> strlen z" using scan_bounds [of 2 z sqlite3Isxdigit] IdChar_0 by auto
  have j: "?i \<le> scan ?Q z ?i" "scan ?Q z ?i \<le> strlen z" using scan_bounds [OF i(2), of ?Q] by auto
  define k where "k = (if byte_at z ?i \<noteq> 39 \<or> ?i mod 2 \<noteq> 0 then scan ?Q z ?i else ?i)"
  have k: "2 \<le> k" "k \<le> strlen z" using i j by (auto simp: k_def)
  have r: "token_blob z = (if byte_at z k \<noteq> 0 then k + 1 else k, if byte_at z ?i \<noteq> 39 \<or> ?i mod 2 \<noteq> 0 then TK_ILLEGAL else TK_BLOB)"
    using True by (simp add: token_blob_def k_def Let_def)
  show ?thesis unfolding r using k strlen_next [OF k(2)] by (auto simp: token_ok_def)
next
  case False
  then show ?thesis using assms by (simp add: token_blob_def token_ident_ok)
qed

lemma next_two:
  assumes "1 \<le> strlen z" "byte_at z 1 \<noteq> 0"
  shows "2 \<le> strlen z"
  using strlen_next [OF assms] by simp

lemma token_ok_if: "(c \<Longrightarrow> token_ok z a) \<Longrightarrow> (\<not> c \<Longrightarrow> token_ok z b) \<Longrightarrow> token_ok z (if c then a else b)"
  by simp

lemma GetToken_ok:
  assumes "byte_at z 0 \<noteq> 0"
  shows "token_ok z (sqlite3GetToken z)"
proof -
  have z: "1 \<le> strlen z" using strlen_next [of 0 z] assms by simp
  have two: "token_ok z (2, t)" if "byte_at z 1 \<noteq> 0" "token_type_ok 2 t" for t
    using next_two [OF z that(1)] that(2) by (simp add: token_ok_def)
  have one: "token_ok z (1, t)" if "token_type_ok 1 t" for t
    using z that by (simp add: token_ok_def)
  have nn: "char_class (byte_at z 0) \<noteq> CC_NUL" using assms by (simp add: class_NUL)
  have sp: "token_ok z (scan sqlite3Isspace z 1, TK_SPACE)" "token_ok z (scan sqlite3Isdigit z 1, TK_VARIABLE)"
    using scan_bounds [OF z, of sqlite3Isspace] scan_bounds [OF z, of sqlite3Isdigit] IdChar_0 by (auto simp: token_ok_def)
  have eq: "token_ok z (1 + (if byte_at z 1 = 61 then 1 else 0), TK_EQ)"
  proof (cases "byte_at z 1 = 61")
    case True
    then have "2 \<le> strlen z" using next_two [OF z] by simp
    then show ?thesis using True by (simp add: token_ok_def)
  qed (use one [of TK_EQ] in simp)
  have bang: "token_ok z (2, TK_NE)" if "byte_at z 1 = 61"
    by (rule two) (use that in auto)
  have pipe: "token_ok z (2, TK_CONCAT)" if "byte_at z 1 = 124"
    by (rule two) (use that in auto)
  have bom: "token_ok z (3, TK_SPACE)" if "byte_at z 1 = 0xbb \<and> byte_at z 2 = 0xbf"
  proof -
    have "2 \<le> strlen z" using that next_two [OF z] by simp
    then have "3 \<le> strlen z" using strlen_next [of 2 z] that by simp
    then show ?thesis by (simp add: token_ok_def)
  qed
  have dot: "token_ok z (token_number z)" if "char_class (byte_at z 0) = CC_DOT" "\<not> \<not> sqlite3Isdigit (byte_at z 1)"
    using token_number_ok [OF z] that by (auto simp: class_DOT)
  have digit: "token_ok z (token_number z)" if "char_class (byte_at z 0) = CC_DIGIT"
    using token_number_ok [OF z] that by (simp add: class_DIGIT)
  note parts = token_minus_ok [OF z] token_slash_ok [OF z] token_operator_ok [OF z] token_quote_ok [OF z]
    token_bracket_ok [OF z] token_variable_ok [OF z] token_keyword_ok [OF z] token_blob_ok [OF z] token_ident_ok [OF order_refl z]
    sp eq
  show ?thesis
    unfolding sqlite3GetToken_def Let_def
    by (intro token_ok_if) (simp_all only: one bang pipe bom parts plain_types dot digit nn simp_thms)
qed

lemma GetToken_end: "byte_at z 0 = 0 \<Longrightarrow> sqlite3GetToken z = (0, TK_ILLEGAL)"
  using class_NUL [of 0] by (simp add: sqlite3GetToken_def Let_def CC_defs)

subsection \<open>Callers of the tokenizer\<close>

text \<open>\<open>getToken\<close> skips blanks and comments. Its loop is a partial function: that it returns is a
  theorem below. It returns the pointer behind the token, as the rest of the text, and the code.\<close>

partial_function (option) skip_blanks :: "bytes \<Rightarrow> (bytes \<times> int) option" where
  "skip_blanks z =
     (case sqlite3GetToken z of (n, t) \<Rightarrow>
        if t = TK_SPACE \<or> t = TK_COMMENT then skip_blanks (drop n z) else Some (drop n z, t))"

definition getToken :: "bytes \<Rightarrow> (bytes \<times> int) option" where
  "getToken pz =
     (case skip_blanks pz of
        None \<Rightarrow> None
      | Some (z, t) \<Rightarrow>
          Some (z, if t = TK_ID \<or> t = TK_STRING \<or> t = TK_JOIN_KW \<or> t = TK_WINDOW \<or> t = TK_OVER \<or>
                      sqlite3ParserFallback t = TK_ID then TK_ID else t))"

definition analyzeWindowKeyword :: "bytes \<Rightarrow> int option" where
  "analyzeWindowKeyword z =
     Option.bind (getToken z) (\<lambda>(z, t).
       if t \<noteq> TK_ID then Some TK_ID
       else Option.bind (getToken z) (\<lambda>(z, t). if t \<noteq> TK_AS then Some TK_ID else Some TK_WINDOW))"

definition analyzeOverKeyword :: "bytes \<Rightarrow> int \<Rightarrow> int option" where
  "analyzeOverKeyword z lastToken =
     (if lastToken = TK_RP
      then Option.bind (getToken z) (\<lambda>(z, t). if t = TK_LP \<or> t = TK_ID then Some TK_OVER else Some TK_ID)
      else Some TK_ID)"

definition analyzeFilterKeyword :: "bytes \<Rightarrow> int \<Rightarrow> int option" where
  "analyzeFilterKeyword z lastToken =
     (if lastToken = TK_RP
      then Option.bind (getToken z) (\<lambda>(z, t). if t = TK_LP then Some TK_FILTER else Some TK_ID)
      else Some TK_ID)"

text \<open>
  The loop of \<open>sqlite3RunParser\<close>. The generated LALR(1) parser is the argument \<open>engine\<close>: it takes its
  own state, a token code and the text of the token, and returns its new state and \<open>pParse->rc\<close>.
  \<open>intr k\<close> is the value of \<open>db->u1.isInterrupted\<close>, which another thread may set, in round \<open>k\<close>;
  \<open>skipComments\<close> is \<open>db->init.busy || (db->flags & SQLITE_Comments)!=0\<close>. A run ends in one of the ways
  of \<open>parse_end\<close>; \<open>pr_tail\<close> is \<open>pParse->zTail\<close>.
\<close>

datatype parse_end = End_Of_Input | Too_Big | Interrupted | Unrecognized bytes | Stopped int

record 'p parse_result =
  pr_end :: parse_end
  pr_engine :: 'p
  pr_tail :: bytes

type_synonym 'p parser = "'p \<Rightarrow> int \<Rightarrow> bytes \<Rightarrow> 'p \<times> int"

text \<open>What a round does with a token: end the loop, pass over it, or feed the parser \<open>n\<close> bytes with a
  code.\<close>

datatype round = Break parse_end | Continue | Feed int nat

definition special_round :: "bool \<Rightarrow> bool \<Rightarrow> bytes \<Rightarrow> int \<Rightarrow> nat \<Rightarrow> int \<Rightarrow> round option" where
  "special_round isInterrupted skipComments zSql lastTokenParsed n tokenType =
     (if isInterrupted then Some (Break Interrupted)
      else if tokenType = TK_SPACE then Some Continue
      else if byte_at zSql 0 = 0 then
        Some (if lastTokenParsed = TK_SEMI then Feed 0 0
              else if lastTokenParsed = 0 then Break End_Of_Input
              else Feed TK_SEMI 0)
      else if tokenType = TK_WINDOW then map_option (\<lambda>t. Feed t n) (analyzeWindowKeyword (drop 6 zSql))
      else if tokenType = TK_OVER then map_option (\<lambda>t. Feed t n) (analyzeOverKeyword (drop 4 zSql) lastTokenParsed)
      else if tokenType = TK_FILTER then map_option (\<lambda>t. Feed t n) (analyzeFilterKeyword (drop 6 zSql) lastTokenParsed)
      else if tokenType = TK_COMMENT \<and> skipComments then Some Continue
      else if tokenType \<noteq> TK_QNUMBER then Some (Break (Unrecognized (take n zSql)))
      else Some (Feed tokenType n))"

definition token_round :: "bool \<Rightarrow> bool \<Rightarrow> bytes \<Rightarrow> int \<Rightarrow> nat \<Rightarrow> int \<Rightarrow> int \<Rightarrow> round option" where
  "token_round isInterrupted skipComments zSql lastTokenParsed n tokenType mxSqlLen =
     (if mxSqlLen < 0 then Some (Break Too_Big)
      else if TK_WINDOW \<le> tokenType then special_round isInterrupted skipComments zSql lastTokenParsed n tokenType
      else Some (Feed tokenType n))"

partial_function (option) RunParser_loop ::
    "'p parser \<Rightarrow> (nat \<Rightarrow> bool) \<Rightarrow> bool \<Rightarrow> nat \<Rightarrow> 'p \<Rightarrow> bytes \<Rightarrow> int \<Rightarrow> int \<Rightarrow> 'p parse_result option" where
  "RunParser_loop engine intr skipComments k p zSql lastTokenParsed mxSqlLen =
     (case sqlite3GetToken zSql of (n, tokenType) \<Rightarrow>
        (case token_round (intr k) skipComments zSql lastTokenParsed n tokenType (mxSqlLen - int n) of
           None \<Rightarrow> None
         | Some (Break e) \<Rightarrow> Some \<lparr>pr_end = e, pr_engine = p, pr_tail = zSql\<rparr>
         | Some Continue \<Rightarrow> RunParser_loop engine intr skipComments (k + 1) p (drop n zSql) lastTokenParsed (mxSqlLen - int n)
         | Some (Feed t m) \<Rightarrow>
             (case engine p t (take m zSql) of (p, rc) \<Rightarrow>
                if rc \<noteq> 0 then Some \<lparr>pr_end = Stopped rc, pr_engine = p, pr_tail = drop m zSql\<rparr>
                else RunParser_loop engine intr skipComments (k + 1) p (drop m zSql) t (mxSqlLen - int n))))"

definition RunParser :: "'p parser \<Rightarrow> (nat \<Rightarrow> bool) \<Rightarrow> bool \<Rightarrow> int \<Rightarrow> 'p \<Rightarrow> bytes \<Rightarrow> 'p parse_result option" where
  "RunParser engine intr skipComments mxSqlLen p zSql =
     RunParser_loop engine intr skipComments 0 p zSql (-1) mxSqlLen"

subsection \<open>The tokens of a text\<close>

lemma take_cstr:
  assumes "n \<le> strlen z"
  shows "take n z = take n (cstr z)"
proof -
  have "cstr z = take (strlen z) z" unfolding cstr_def by (rule takeWhile_eq_take)
  then have "take n (cstr z) = take n (take (strlen z) z)" by simp
  then show ?thesis using assms by (simp add: min_absorb1)
qed

lemma cstr_drop:
  assumes "n \<le> strlen z"
  shows "cstr (drop n z) = drop n (cstr z)"
proof -
  have l: "length (take n z) = n" using assms strlen_length [of z] by simp
  have "\<forall>c\<in>set (take n z). c \<noteq> 0"
    unfolding take_cstr [OF assms] by (auto simp: cstr_def dest!: in_set_takeD set_takeWhileD)
  then have "cstr (take n z @ drop n z) = take n z @ cstr (drop n z)"
    unfolding cstr_def by (intro takeWhile_append2) auto
  then have "drop n (cstr z) = drop n (take n z @ cstr (drop n z))" by simp
  then show ?thesis using l by simp
qed


lemma GetToken_progress:
  assumes "byte_at z 0 \<noteq> 0" "sqlite3GetToken z = (n, t)"
  shows "0 < n" "n \<le> strlen z" "length (drop n z) < length z" "strlen (drop n z) = strlen z - n" "token_type_ok n t"
proof -
  have "token_ok z (n, t)" using GetToken_ok [OF assms(1)] assms(2) by simp
  then show n: "0 < n" "n \<le> strlen z" and "token_type_ok n t" by (simp_all add: token_ok_def)
  show "length (drop n z) < length z" using n strlen_length [of z] by simp
  show "strlen (drop n z) = strlen z - n" using n by (simp add: cstr_drop)
qed







subsection \<open>The callers return\<close>

lemma drop_within:
  assumes "n \<le> strlen z" "k \<le> strlen (drop n z)"
  shows "n + k \<le> strlen z" "drop k (drop n z) = drop (n + k) z"
  using assms by (simp_all add: cstr_drop add.commute)

lemma skip_blanks_returns:
  "\<exists>k t. skip_blanks z = Some (drop k z, t) \<and> k \<le> strlen z \<and> t \<noteq> TK_SPACE \<and> t \<noteq> TK_COMMENT \<and> 0 < t \<and> t \<le> TK_ILLEGAL"
proof (induction z rule: length_induct)
  case (1 z)
  obtain n t where r: "sqlite3GetToken z = (n, t)" by fastforce
  show ?case
  proof (cases "byte_at z 0 = 0")
    case True
    then have "skip_blanks z = Some (drop 0 z, TK_ILLEGAL)"
      by (subst skip_blanks.simps) (simp add: GetToken_end token_codes)
    then show ?thesis by (intro exI [of _ 0] exI [of _ TK_ILLEGAL]) (simp add: token_codes)
  next
    case False
    note p = GetToken_progress [OF False r]
    show ?thesis
    proof (cases "t = TK_SPACE \<or> t = TK_COMMENT")
      case True
      then have e: "skip_blanks z = skip_blanks (drop n z)" by (subst skip_blanks.simps) (simp add: r)
      obtain k u where "skip_blanks (drop n z) = Some (drop k (drop n z), u)" "k \<le> strlen (drop n z)"
        "u \<noteq> TK_SPACE" "u \<noteq> TK_COMMENT" "0 < u" "u \<le> TK_ILLEGAL" using 1 p(3) by blast
      then show ?thesis using e drop_within [OF p(2), of k] by metis
    next
      case F: False
      then have "skip_blanks z = Some (drop n z, t)" by (subst skip_blanks.simps) (simp add: r)
      then show ?thesis using p F by (auto simp: token_type_ok_def)
    qed
  qed
qed

lemma getToken_returns: "\<exists>z' t. getToken z = Some (z', t)"
  using skip_blanks_returns [of z] by (auto simp: getToken_def)

lemma analyze_returns:
  "\<exists>t. analyzeWindowKeyword z = Some t" "\<exists>t. analyzeOverKeyword z l = Some t" "\<exists>t. analyzeFilterKeyword z l = Some t"
proof -
  obtain z1 t1 where 1: "getToken z = Some (z1, t1)" using getToken_returns by blast
  obtain z2 t2 where 2: "getToken z1 = Some (z2, t2)" using getToken_returns by blast
  show "\<exists>t. analyzeWindowKeyword z = Some t" by (simp add: analyzeWindowKeyword_def 1 2)
  show "\<exists>t. analyzeOverKeyword z l = Some t" "\<exists>t. analyzeFilterKeyword z l = Some t"
    by (simp_all add: analyzeOverKeyword_def analyzeFilterKeyword_def 1)
qed

text \<open>What a round does: at the end of the text it feeds the final codes, before the end it either
  stops, or passes over the token, or feeds all of it.\<close>

lemma round_end:
  assumes "byte_at z 0 = 0"
  shows "token_round i sc z l 0 TK_ILLEGAL mx = Some
     (if mx < 0 then Break Too_Big else if i then Break Interrupted
      else if l = TK_SEMI then Feed 0 0 else if l = 0 then Break End_Of_Input else Feed TK_SEMI 0)"
  using assms by (simp add: token_round_def special_round_def token_codes)

lemma round_inside:
  assumes "byte_at z 0 \<noteq> 0"
  shows "(\<exists>e. token_round i sc z l n t mx = Some (Break e)) \<or> token_round i sc z l n t mx = Some Continue \<or>
     (\<exists>c. token_round i sc z l n t mx = Some (Feed c n))"
proof -
  obtain w f v where "analyzeWindowKeyword (drop 6 z) = Some w" "analyzeFilterKeyword (drop 6 z) l = Some f"
    "analyzeOverKeyword (drop 4 z) l = Some v" using analyze_returns by metis
  then show ?thesis using assms unfolding token_round_def special_round_def by simp
qed

subsection \<open>The driver of the parser\<close>

text \<open>At the end of the text the parser gets TK_SEMI, unless that was its last token, and then 0.\<close>

abbreviation tail_returns :: "'p parse_result option \<Rightarrow> bytes \<Rightarrow> bool" where
  "tail_returns r z \<equiv> \<exists>s j. r = Some s \<and> j \<le> strlen z \<and> pr_tail s = drop j z"

lemma tail_returnsI: "pr_tail s = drop j z \<Longrightarrow> j \<le> strlen z \<Longrightarrow> tail_returns (Some s) z"
  by blast

lemma TK_SEMI_nonzero: "TK_SEMI \<noteq> 0"
  by (simp add: token_codes)

lemma loop_end:
  assumes "byte_at z 0 = 0"
  shows "tail_returns (RunParser_loop engine intr sc k p z l mx) z"
proof -
  have stop: "tail_returns (Some \<lparr>pr_end = e, pr_engine = q, pr_tail = z\<rparr>) z" for e q
    by (intro tail_returnsI [of _ 0]) simp_all
  note simps = RunParser_loop.simps [of engine intr sc _ _ z] GetToken_end [OF assms] round_end [OF assms]
  have 0: "tail_returns (RunParser_loop engine intr sc k p z 0 mx) z" for k p mx
    using stop TK_SEMI_nonzero by (subst simps) (simp add: simps(2,3))
  have semi: "tail_returns (RunParser_loop engine intr sc k p z TK_SEMI mx) z" for k p mx
    using stop 0 by (subst simps) (simp add: simps(2,3) split: prod.split)
  show ?thesis
    using stop 0 semi by (subst simps) (auto simp add: simps(2,3) split: prod.split)
qed

lemma loop_returns: "tail_returns (RunParser_loop engine intr sc k p z l mx) z"
proof (induction z arbitrary: k p l mx rule: length_induct)
  case (1 z)
  show ?case
  proof (cases "byte_at z 0 = 0")
    case True
    then show ?thesis by (rule loop_end)
  next
    case False
    obtain n t where r: "sqlite3GetToken z = (n, t)" by fastforce
    note g = GetToken_progress [OF False r]
    have rest: "tail_returns (RunParser_loop engine intr sc k' p' (drop n z) l' mx') z" for k' p' l' mx'
      using 1 g(3) drop_within [OF g(2)] by metis
    note step = RunParser_loop.simps [of engine intr sc k p z l mx]
    consider e where "token_round (intr k) sc z l n t (mx - int n) = Some (Break e)"
      | "token_round (intr k) sc z l n t (mx - int n) = Some Continue"
      | c where "token_round (intr k) sc z l n t (mx - int n) = Some (Feed c n)"
      using round_inside [OF False] by blast
    then show ?thesis
    proof cases
      case (1 e)
      then have "RunParser_loop engine intr sc k p z l mx = Some \<lparr>pr_end = e, pr_engine = p, pr_tail = z\<rparr>" by (simp add: step r)
      then show ?thesis by (simp only:) (rule tail_returnsI [of _ 0], simp_all)
    next
      case 2
      then show ?thesis using rest by (simp add: step r)
    next
      case (3 c)
      obtain q rc where e: "engine p c (take n z) = (q, rc)" by fastforce
      show ?thesis
      proof (cases "rc = 0")
        case True
        then show ?thesis using rest by (simp add: step r 3 e)
      next
        case F: False
        then have "RunParser_loop engine intr sc k p z l mx = Some \<lparr>pr_end = Stopped rc, pr_engine = q, pr_tail = drop n z\<rparr>"
          by (simp add: step r 3 e)
        then show ?thesis using g(2) by (simp only:) (rule tail_returnsI [of _ n], simp_all)
      qed
    qed
  qed
qed

text \<open>C18: the driver of the parser always returns: whatever the parser does with the tokens, whenever
  another thread interrupts, and on every byte string, the loop ends after finitely many rounds, and
  the tail it reports is a suffix of the text that starts at most at the terminator.\<close>

theorem RunParser_returns:
  "\<exists>r j. RunParser engine intr skipComments mxSqlLen p z = Some r \<and> j \<le> strlen z \<and> pr_tail r = drop j z"
  unfolding RunParser_def by (rule loop_returns)













subsection \<open>Quoted tokens\<close>

lemma quote_scan_body:
  assumes "q \<noteq> 0" "byte_at rest 0 \<noteq> q"
  shows "0 \<notin> set s \<Longrightarrow> drop i z = concat (map (\<lambda>c. if c = q then [c, c] else [c]) s) @ q # rest \<Longrightarrow>
    quote_scan z q i = (i + length (concat (map (\<lambda>c. if c = q then [c, c] else [c]) s)), q)"
proof (induction s arbitrary: i)
  case Nil
  then have "i < length z" "z ! i = q" "drop (Suc i) z = rest" using drop_nth [of i z q rest] by auto
  then have "byte_at z i = q" "byte_at z (i + 1) = byte_at rest 0" using byte_at_drop [of "Suc i" z 0] by (simp_all add: byte_at_def)
  then show ?case using assms by (subst quote_scan.simps) (simp add: Let_def)
next
  case (Cons c s)
  let ?esc = "\<lambda>s. concat (map (\<lambda>c. if c = q then [c, c] else [c]) s)"
  show ?case
  proof (cases "c = q")
    case True
    then have "drop i z = q # q # ?esc s @ q # rest" using Cons.prems by simp
    then have d: "i < length z" "z ! i = q" "Suc i < length z" "z ! Suc i = q" "drop (i + 2) z = ?esc s @ q # rest"
      using drop_nth [of i z q] drop_nth [of "Suc i" z q] by auto
    have "quote_scan z q i = quote_scan z q (i + 2)"
      using d assms(1) by (subst quote_scan.simps) (simp add: byte_at_def Let_def)
    then show ?thesis using Cons.IH [OF _ d(5)] Cons.prems(1) True by simp
  next
    case False
    then have "drop i z = c # ?esc s @ q # rest" using Cons.prems by simp
    then have d: "i < length z" "z ! i = c" "drop (i + 1) z = ?esc s @ q # rest" using drop_nth [of i z c] by auto
    have "quote_scan z q i = quote_scan z q (i + 1)"
      using d Cons.prems(1) False by (subst quote_scan.simps) (simp add: byte_at_def Let_def)
    then show ?thesis using Cons.IH [OF _ d(3)] Cons.prems(1) False by simp
  qed
qed

text \<open>C8: quoting is safe: text between single quotes, double quotes or backquotes with the quote
  doubled inside is one token, whatever bytes it contains and whatever follows (other than one more
  quote), a string for single quotes and an identifier otherwise; and dequoting the token gives the
  text back. So no text can end its own literal and be read as SQL.\<close>

theorem Quoted_text_is_one_token:
  assumes "q = 39 \<or> q = 34 \<or> q = 96" "0 \<notin> set s" "byte_at rest 0 \<noteq> q"
  shows "sqlite3GetToken (enquote q s @ rest) = (length (enquote q s), if q = 39 then TK_STRING else TK_ID) \<and>
    sqlite3Dequote (take (length (enquote q s)) (enquote q s @ rest)) = Some s"
proof
  let ?esc = "concat (map (\<lambda>c. if c = q then [c, c] else [c]) s)"
  have q: "q \<noteq> 0" "closing q = q" "sqlite3Isquote q" using assms(1) by (auto simp: closing_def Isquote_eq)
  have e: "enquote q s = q # ?esc @ [q]" by (simp add: enquote_def q(2))
  have "drop 1 (enquote q s @ rest) = ?esc @ q # rest" by (simp add: e)
  from quote_scan_body [OF q(1) assms(3,2) this]
  have "quote_scan (enquote q s @ rest) q 1 = (1 + length ?esc, q)" .
  moreover have b: "byte_at (enquote q s @ rest) 0 = q" by (simp add: e byte_at_def)
  ultimately have "token_quote (enquote q s @ rest) = (length (enquote q s), if q = 39 then TK_STRING else TK_ID)"
    using q(1) by (simp add: token_quote_def Let_def e)
  moreover have "char_class q = CC_QUOTE" using assms(1) class_QUOTE [of q] by auto
  ultimately show "sqlite3GetToken (enquote q s @ rest) = (length (enquote q s), if q = 39 then TK_STRING else TK_ID)"
    by (simp add: sqlite3GetToken_def Let_def b CC_defs)
  show "sqlite3Dequote (take (length (enquote q s)) (enquote q s @ rest)) = Some s"
    using Dequote_enquote [OF q(3)] by simp
qed

theorem Quoted_text_is_one_token_witness:
  "sqlite3GetToken (enquote 39 (ascii ''it''  @ [39] @ ascii ''s'') @ ascii '';'') = (7, TK_STRING) \<and>
    sqlite3Dequote (take 7 (enquote 39 (ascii ''it''  @ [39] @ ascii ''s'') @ ascii '';'')) = Some (ascii ''it'' @ [39] @ ascii ''s'')"
proof -
  have "0 \<notin> set (ascii ''it''  @ [39] @ ascii ''s'')" "byte_at (ascii '';'') 0 \<noteq> 39" by (simp_all add: ascii_def byte_at_def)
  note t = Quoted_text_is_one_token [OF _ this]
  have "length (enquote 39 (ascii ''it''  @ [39] @ ascii ''s'')) = 7" by (simp add: enquote_def ascii_def closing_def)
  then show ?thesis using t by simp
qed

end
