(* ===== verification/Complete.thy ===== *)
theory Complete
  imports Tokenizer
begin

section \<open>Complete statements (complete.c)\<close>

text \<open>
  \<open>sqlite3_complete\<close> decides whether a text ends at the end of a statement: a scanner that reduces the
  text to tokens of eight kinds, and the table-driven automaton over them that knows about
  CREATE TRIGGER. The specification splits the token sequence into statements.
\<close>

subsection \<open>The scanner\<close>

datatype complete_token = tkSEMI | tkWS | tkOTHER | tkEXPLAIN | tkCREATE | tkTEMP | tkTRIGGER | tkEND

text \<open>The value of the macro of each kind, the column of the transition table.\<close>

primrec tk_code :: "complete_token \<Rightarrow> nat" where
  "tk_code tkSEMI = 0"
| "tk_code tkWS = 1"
| "tk_code tkOTHER = 2"
| "tk_code tkEXPLAIN = 3"
| "tk_code tkCREATE = 4"
| "tk_code tkTEMP = 5"
| "tk_code tkTRIGGER = 6"
| "tk_code tkEND = 7"

definition trans :: "nat list list" where
  "trans =
    [[1, 0, 2, 3, 4, 2, 2, 2],
     [1, 1, 2, 3, 4, 2, 2, 2],
     [1, 2, 2, 2, 2, 2, 2, 2],
     [1, 3, 3, 2, 4, 2, 2, 2],
     [1, 4, 2, 2, 2, 4, 5, 2],
     [6, 5, 5, 5, 5, 5, 5, 5],
     [6, 6, 5, 5, 5, 5, 5, 7],
     [1, 7, 5, 5, 5, 5, 5, 5]]"

text \<open>The comment loop \<open>while( zSql[0] && (zSql[0]!='*' || zSql[1]!='/') ){ zSql++; }\<close>.\<close>

function block_scan :: "bytes \<Rightarrow> nat \<Rightarrow> nat" where
  "block_scan z i =
     (if byte_at z i \<noteq> 0 \<and> (byte_at z i \<noteq> 42 \<or> byte_at z (i + 1) \<noteq> 47) then block_scan z (i + 1) else i)"
  by pat_completeness auto
termination by (relation "measure (\<lambda>(z, i). length z - i)") (auto simp: byte_at_def split: if_splits)

declare block_scan.simps [simp del]

text \<open>\<open>sqlite3StrNICmp\<close> is a macro for \<open>sqlite3_strnicmp\<close>. The kind of a word of \<open>nId\<close> bytes depends on
  its first letter.\<close>

definition word_is :: "bytes \<Rightarrow> nat \<Rightarrow> string \<Rightarrow> bool" where
  "word_is zSql nId w \<longleftrightarrow> nId = length w \<and> sqlite3_strnicmp (Some zSql) (Some (ascii w)) (int (length w)) = 0"

definition word_token :: "bytes \<Rightarrow> nat \<Rightarrow> complete_token" where
  "word_token zSql nId =
     (let c = byte_at zSql 0 in
      if c = 99 \<or> c = 67 then (if word_is zSql nId ''create'' then tkCREATE else tkOTHER)
      else if c = 116 \<or> c = 84 then
        (if word_is zSql nId ''trigger'' then tkTRIGGER
         else if word_is zSql nId ''temp'' then tkTEMP
         else if word_is zSql nId ''temporary'' then tkTEMP
         else tkOTHER)
      else if c = 101 \<or> c = 69 then
        (if word_is zSql nId ''end'' then tkEND
         else if word_is zSql nId ''explain'' then tkEXPLAIN
         else tkOTHER)
      else tkOTHER)"

text \<open>One round of the loop: a token and the bytes it covers, or one of the early returns, \<open>return 0\<close>
  and \<open>return state==1\<close>.\<close>

datatype complete_round = Token complete_token nat | Return_0 | Return_State

definition complete_round :: "bytes \<Rightarrow> complete_round" where
  "complete_round z =
     (let c = byte_at z 0 in
      if c = 59 then Token tkSEMI 1
      else if c = 32 \<or> c = 13 \<or> c = 9 \<or> c = 10 \<or> c = 12 then Token tkWS 1
      else if c = 47 then
        (if byte_at z 1 \<noteq> 42 then Token tkOTHER 1
         else (let i = block_scan z 2 in if byte_at z i = 0 then Return_0 else Token tkWS (i + 1 + 1)))
      else if c = 45 then
        (if byte_at z 1 \<noteq> 45 then Token tkOTHER 1
         else (let i = scan (\<lambda>c. c \<noteq> 0 \<and> c \<noteq> 10) z 0 in if byte_at z i = 0 then Return_State else Token tkWS (i + 1)))
      else if c = 91 then
        (let i = scan (\<lambda>c. c \<noteq> 0 \<and> c \<noteq> 93) z 1 in if byte_at z i = 0 then Return_0 else Token tkOTHER (i + 1))
      else if c = 96 \<or> c = 34 \<or> c = 39 then
        (let i = scan (\<lambda>x. x \<noteq> 0 \<and> x \<noteq> c) z 1 in if byte_at z i = 0 then Return_0 else Token tkOTHER (i + 1))
      else if IdChar c then (let nId = scan IdChar z 1 in Token (word_token z nId) (nId - 1 + 1))
      else Token tkOTHER 1)"

lemma round_advances: "complete_round z = Token t n \<Longrightarrow> 0 < n"
  by (auto simp: complete_round_def Let_def split: if_splits)

definition step :: "nat \<Rightarrow> complete_token \<Rightarrow> nat" where
  "step state token = trans ! state ! tk_code token"

function complete_loop :: "bytes \<Rightarrow> nat \<Rightarrow> bool" where
  "complete_loop zSql state =
     (if byte_at zSql 0 = 0 then state = 1
      else (case complete_round zSql of
              Return_0 \<Rightarrow> False
            | Return_State \<Rightarrow> state = 1
            | Token token n \<Rightarrow> complete_loop (drop n zSql) (step state token)))"
  by pat_completeness auto
termination
  by (relation "measure (\<lambda>(z, _). length z)") (auto dest: round_advances simp: byte_at_def split: if_splits)

declare complete_loop.simps [simp del]

definition sqlite3_complete :: "bytes option \<Rightarrow> bool" where
  "sqlite3_complete zSql = (case zSql of None \<Rightarrow> False | Some z \<Rightarrow> complete_loop z 0)"

subsection \<open>The automaton on tokens\<close>

text \<open>The tokens of a text, up to the point where the loop ends; \<open>None\<close> for a text that ends inside a
  comment, a string or a quoted identifier.\<close>

function complete_lex :: "bytes \<Rightarrow> complete_token list option" where
  "complete_lex z =
     (if byte_at z 0 = 0 then Some []
      else (case complete_round z of
              Return_0 \<Rightarrow> None
            | Return_State \<Rightarrow> Some []
            | Token token n \<Rightarrow> map_option ((#) token) (complete_lex (drop n z))))"
  by pat_completeness auto
termination
  by (relation "measure length") (auto dest: round_advances simp: byte_at_def split: if_splits)

declare complete_lex.simps [simp del]

definition accepts :: "nat \<Rightarrow> complete_token list \<Rightarrow> bool" where
  "accepts q ts \<longleftrightarrow> foldl step q ts = 1"

lemma accepts_Nil [simp]: "accepts q [] \<longleftrightarrow> q = 1"
  by (simp add: accepts_def)

lemma accepts_Cons: "accepts q (t # ts) \<longleftrightarrow> accepts (step q t) ts"
  by (simp add: accepts_def)

lemma loop_accepts: "complete_loop z q \<longleftrightarrow> (case complete_lex z of None \<Rightarrow> False | Some ts \<Rightarrow> accepts q ts)"
proof (induction z q rule: complete_loop.induct)
  case (1 z q)
  show ?case
  proof (cases "byte_at z 0 = 0")
    case True
    then show ?thesis by (simp add: complete_loop.simps [of z] complete_lex.simps [of z])
  next
    case False
    show ?thesis
    proof (cases "complete_round z")
      case (Token t n)
      then show ?thesis using "1.IH" [OF False Token] False
        by (simp add: complete_loop.simps [of z] complete_lex.simps [of z] accepts_Cons split: option.split)
    qed (use False in \<open>simp_all add: complete_loop.simps [of z] complete_lex.simps [of z]\<close>)
  qed
qed

lemma step_table [simp]:
  "step 0 tkSEMI = 1" "step 0 tkOTHER = 2" "step 0 tkEXPLAIN = 3" "step 0 tkCREATE = 4" "step 0 tkTEMP = 2"
  "step 0 tkTRIGGER = 2" "step 0 tkEND = 2"
  "step (Suc 0) t = (if t = tkWS then 1 else step 0 t)"
  "step 2 t = (if t = tkSEMI then 1 else 2)"
  "step 3 tkSEMI = 1" "step 3 tkOTHER = 3" "step 3 tkEXPLAIN = 2" "step 3 tkCREATE = 4" "step 3 tkTEMP = 2"
  "step 3 tkTRIGGER = 2" "step 3 tkEND = 2"
  "step 4 tkSEMI = 1" "step 4 tkOTHER = 2" "step 4 tkEXPLAIN = 2" "step 4 tkCREATE = 2" "step 4 tkTEMP = 4"
  "step 4 tkTRIGGER = 5" "step 4 tkEND = 2"
  "step 5 t = (if t = tkSEMI then 6 else 5)"
  "step 6 t = (if t = tkEND then 7 else if t = tkSEMI \<or> t = tkWS then 6 else 5)"
  "step 7 t = (if t = tkSEMI then 1 else if t = tkWS then 7 else 5)"
  by (cases t; simp add: step_def trans_def)+

lemma step_WS: "q < 8 \<Longrightarrow> step q tkWS = q"
  by (simp add: step_def trans_def less_Suc_eq numeral_eq_Suc) auto

lemma step_range: "q < 8 \<Longrightarrow> step q t < 8"
  by (cases t) (auto simp add: step_def trans_def less_Suc_eq numeral_eq_Suc)

definition significant :: "complete_token list \<Rightarrow> complete_token list" where
  "significant ts = filter (\<lambda>t. t \<noteq> tkWS) ts"

lemma accepts_significant: "q < 8 \<Longrightarrow> accepts q ts \<longleftrightarrow> accepts q (significant ts)"
  by (induction ts arbitrary: q) (auto simp: accepts_Cons significant_def step_WS step_range)

subsection \<open>Specification: a sequence of statements\<close>

text \<open>The rest behind the first semicolon, and behind the first \<open>; END ;\<close>.\<close>

fun after_semi :: "complete_token list \<Rightarrow> complete_token list option" where
  "after_semi [] = None"
| "after_semi (t # ts) = (if t = tkSEMI then Some ts else after_semi ts)"

fun after_end :: "complete_token list \<Rightarrow> complete_token list option" where
  "after_end [] = None"
| "after_end (t # ts) = (if t = tkSEMI \<and> take 2 ts = [tkEND, tkSEMI] then Some (drop 2 ts) else after_end ts)"

text \<open>A statement that begins with CREATE, any number of TEMP and TRIGGER is a trigger; the result is
  what follows TRIGGER. The statement may be preceded by EXPLAIN and other words, as in EXPLAIN QUERY
  PLAN.\<close>

fun after_trigger :: "complete_token list \<Rightarrow> complete_token list option" where
  "after_trigger [] = None"
| "after_trigger (t # ts) = (if t = tkTEMP then after_trigger ts else if t = tkTRIGGER then Some ts else None)"

fun create_trigger :: "complete_token list \<Rightarrow> complete_token list option" where
  "create_trigger [] = None"
| "create_trigger (t # ts) = (if t = tkCREATE then after_trigger ts else None)"

fun trigger_body :: "complete_token list \<Rightarrow> complete_token list option" where
  "trigger_body [] = None"
| "trigger_body (t # ts) = create_trigger (if t = tkEXPLAIN then dropWhile (\<lambda>t. t = tkOTHER) ts else t # ts)"

text \<open>The tokens behind the first statement: a trigger ends at \<open>; END ;\<close>, any other statement at the
  first semicolon.\<close>

definition next_statement :: "complete_token list \<Rightarrow> complete_token list option" where
  "next_statement ts = (case trigger_body ts of Some body \<Rightarrow> after_end body | None \<Rightarrow> after_semi ts)"

text \<open>Each of these functions returns a proper suffix.\<close>

definition shortens :: "('a list \<Rightarrow> 'a list option) \<Rightarrow> bool" where
  "shortens f \<longleftrightarrow> (\<forall>ts r. f ts = Some r \<longrightarrow> length r < length ts \<and> set r \<subseteq> set ts)"

lemma shortensD: "shortens f \<Longrightarrow> f ts = Some r \<Longrightarrow> length r < length ts \<and> set r \<subseteq> set ts"
  by (simp add: shortens_def)

lemma shortens_tails: "shortens after_semi" "shortens after_end" "shortens after_trigger"
proof -
  have "after_semi ts = Some r \<longrightarrow> length r < length ts \<and> set r \<subseteq> set ts" for ts r by (induction ts) auto
  then show "shortens after_semi" by (simp add: shortens_def)
  have "after_end ts = Some r \<longrightarrow> length r < length ts \<and> set r \<subseteq> set ts" for ts r by (induction ts) (auto dest: in_set_dropD)
  then show "shortens after_end" by (simp add: shortens_def)
  have "after_trigger ts = Some r \<longrightarrow> length r < length ts \<and> set r \<subseteq> set ts" for ts r by (induction ts) auto
  then show "shortens after_trigger" by (simp add: shortens_def)
qed

lemma shortens_create: "shortens create_trigger"
proof -
  have "create_trigger ts = Some r \<longrightarrow> length r < length ts \<and> set r \<subseteq> set ts" for ts r
    using shortensD [OF shortens_tails(3), of "tl ts" r] by (cases ts) auto
  then show ?thesis by (simp add: shortens_def)
qed

lemma shortens_body: "shortens trigger_body"
  unfolding shortens_def
proof (intro allI impI)
  fix ts r assume b: "trigger_body ts = Some r"
  then obtain t us where ts: "ts = t # us" by (cases ts) auto
  let ?vs = "if t = tkEXPLAIN then dropWhile (\<lambda>t. t = tkOTHER) us else t # us"
  have "length r < length ?vs \<and> set r \<subseteq> set ?vs" using shortensD [OF shortens_create] b ts by simp
  moreover have "length ?vs \<le> length ts" using length_dropWhile_le [of "\<lambda>t. t = tkOTHER" us] by (simp add: ts)
  moreover have "set ?vs \<subseteq> set ts" by (auto simp: ts dest: set_dropWhileD)
  ultimately show "length r < length ts \<and> set r \<subseteq> set ts" by (meson order_less_le_trans subset_trans)
qed

lemma shortens_next: "shortens next_statement"
  unfolding shortens_def
proof (intro allI impI)
  fix ts r assume n: "next_statement ts = Some r"
  show "length r < length ts \<and> set r \<subseteq> set ts"
  proof (cases "trigger_body ts")
    case None
    then show ?thesis using n shortensD [OF shortens_tails(1)] by (simp add: next_statement_def)
  next
    case (Some b)
    then have "length r < length b \<and> set r \<subseteq> set b" using n shortensD [OF shortens_tails(2)] by (simp add: next_statement_def)
    then show ?thesis using shortensD [OF shortens_body Some] by auto
  qed
qed

lemma next_statement_shorter: "next_statement ts = Some r \<Longrightarrow> length r < length ts"
  using shortensD [OF shortens_next] by blast

function whole_statements :: "complete_token list \<Rightarrow> bool" where
  "whole_statements ts \<longleftrightarrow> ts = [] \<or> (case next_statement ts of None \<Rightarrow> False | Some r \<Rightarrow> whole_statements r)"
  by pat_completeness auto
termination by (relation "measure length") (auto dest: next_statement_shorter)

declare whole_statements.simps [simp del]

subsection \<open>The automaton decides the specification\<close>

abbreviation no_WS :: "complete_token list \<Rightarrow> bool" where
  "no_WS ts \<equiv> tkWS \<notin> set ts"

abbreviation accepts_rest :: "complete_token list option \<Rightarrow> bool" where
  "accepts_rest r \<equiv> (case r of None \<Rightarrow> False | Some ts \<Rightarrow> accepts 1 ts)"

lemma accepts_2: "accepts 2 ts \<longleftrightarrow> accepts_rest (after_semi ts)"
  by (induction ts) (auto simp: accepts_Cons)

lemma accepts_5: "no_WS ts \<Longrightarrow> (accepts 5 ts \<longleftrightarrow> accepts_rest (after_end ts)) \<and>
    (accepts 6 ts \<longleftrightarrow> accepts_rest (after_end (tkSEMI # ts))) \<and>
    (accepts 7 ts \<longleftrightarrow> accepts_rest (after_end (tkSEMI # tkEND # ts)))"
proof (induction ts)
  case (Cons t ts)
  then show ?case by (cases t; cases ts) (auto simp: accepts_Cons)
qed (auto simp: accepts_Cons)

abbreviation trigger_or_plain :: "complete_token list option \<Rightarrow> complete_token list \<Rightarrow> complete_token list option" where
  "trigger_or_plain body ts \<equiv> (case body of Some b \<Rightarrow> after_end b | None \<Rightarrow> after_semi ts)"

lemma accepts_4: "no_WS ts \<Longrightarrow> accepts 4 ts \<longleftrightarrow> accepts_rest (trigger_or_plain (after_trigger ts) ts)"
proof (induction ts)
  case (Cons t ts)
  have "no_WS ts" using Cons.prems by simp
  then have "accepts 5 ts \<longleftrightarrow> accepts_rest (after_end ts)" using accepts_5 by blast
  then show ?case
    using Cons accepts_2 [of ts] by (cases t; cases "after_trigger ts") (simp_all add: accepts_Cons)
qed simp

lemma accepts_3:
  "no_WS ts \<Longrightarrow> accepts 3 ts \<longleftrightarrow> accepts_rest (trigger_or_plain (create_trigger (dropWhile (\<lambda>t. t = tkOTHER) ts)) ts)"
proof (induction ts)
  case (Cons t ts)
  have "no_WS ts" using Cons.prems by simp
  then have "accepts 4 ts \<longleftrightarrow> accepts_rest (trigger_or_plain (after_trigger ts) ts)" by (rule accepts_4)
  then show ?case
    using Cons accepts_2 [of ts]
    by (cases t; cases "after_trigger ts"; cases "create_trigger (dropWhile (\<lambda>t. t = tkOTHER) ts)") (simp_all add: accepts_Cons)
qed simp

lemma accepts_start:
  assumes "no_WS ts" "ts \<noteq> []"
  shows "accepts 0 ts \<longleftrightarrow> accepts_rest (next_statement ts)" and "accepts 1 ts \<longleftrightarrow> accepts_rest (next_statement ts)"
proof -
  obtain t r where ts: "ts = t # r" "t \<noteq> tkWS" "no_WS r" using assms by (cases ts) auto
  have 4: "accepts 4 r \<longleftrightarrow> accepts_rest (trigger_or_plain (after_trigger r) r)" by (rule accepts_4 [OF ts(3)])
  have 3: "accepts 3 r \<longleftrightarrow> accepts_rest (trigger_or_plain (create_trigger (dropWhile (\<lambda>t. t = tkOTHER) r)) r)"
    by (rule accepts_3 [OF ts(3)])
  show 0: "accepts 0 ts \<longleftrightarrow> accepts_rest (next_statement ts)"
    using accepts_2 [of r] 3 4 ts
    by (cases t; cases "after_trigger r"; cases "create_trigger (dropWhile (\<lambda>t. t = tkOTHER) r)")
      (simp_all add: accepts_Cons next_statement_def)
  show "accepts 1 ts \<longleftrightarrow> accepts_rest (next_statement ts)"
    using 0 ts by (simp add: accepts_Cons)
qed

lemma accepts_whole: "no_WS ts \<Longrightarrow> accepts 1 ts \<longleftrightarrow> whole_statements ts"
proof (induction ts rule: whole_statements.induct)
  case (1 ts)
  show ?case
  proof (cases "ts = []")
    case True
    then show ?thesis by (simp add: whole_statements.simps)
  next
    case False
    show ?thesis
    proof (cases "next_statement ts")
      case None
      then show ?thesis using accepts_start(2) [OF "1.prems" False] False by (simp add: whole_statements.simps [of ts])
    next
      case (Some r)
      have "no_WS r" using shortensD [OF shortens_next Some] "1.prems" by blast
      then show ?thesis using accepts_start(2) [OF "1.prems" False] "1.IH" [OF Some] Some False
        by (simp add: whole_statements.simps [of ts])
    qed
  qed
qed

lemma accepts_input:
  assumes "no_WS ts"
  shows "accepts 0 ts \<longleftrightarrow> ts \<noteq> [] \<and> whole_statements ts"
proof (cases "ts = []")
  case False
  then show ?thesis using accepts_start [OF assms False] accepts_whole [OF assms] by simp
qed simp

text \<open>C12: \<open>sqlite3_complete\<close> answers yes exactly when the text does not end inside a comment, a string or
  a quoted identifier and its tokens, blanks apart, are a non-empty sequence of whole statements,
  where a statement ends at its first semicolon, and one that starts with CREATE, optionally TEMP, and
  TRIGGER, possibly behind EXPLAIN, ends at the first \<open>; END ;\<close>. The 8 by 8 transition table decides
  this specification.\<close>

theorem complete_decides_statements:
  "sqlite3_complete (Some z) \<longleftrightarrow>
     (case complete_lex z of None \<Rightarrow> False | Some ts \<Rightarrow> significant ts \<noteq> [] \<and> whole_statements (significant ts))"
proof -
  have "accepts 0 ts \<longleftrightarrow> significant ts \<noteq> [] \<and> whole_statements (significant ts)" for ts
    using accepts_significant [of 0 ts] accepts_input [of "significant ts"] by (simp add: significant_def)
  then show ?thesis by (auto simp: sqlite3_complete_def loop_accepts split: option.split)
qed

text \<open>A byte order mark, which the tokenizer passes over, hides the CREATE of a trigger: the text is
  taken for complete at the first semicolon of its body. Without the mark it is not.\<close>

definition open_trigger :: bytes where
  "open_trigger = ascii ''CREATE TRIGGER t INSERT ON a BEGIN SELECT 1;''"

lemma complete_misled_by_BOM:
  "sqlite3GetToken ([0xef, 0xbb, 0xbf] @ open_trigger) = (3, TK_SPACE)"
  "sqlite3_complete (Some ([0xef, 0xbb, 0xbf] @ open_trigger))"
  "\<not> sqlite3_complete (Some open_trigger)"
  by code_simp+

end
