(* ===== verification/Wal_Index.thy ===== *)
theory Wal_Index
  imports Sqlite_Prelude File_Interface
begin

section \<open>The wal-index: frames of the write-ahead log by page number (wal.c)\<close>

text \<open>
  The wal-index is shared memory: pages of 32KB, each with an array of 4096 32-bit page numbers and a
  hash table of 8192 16-bit slots; the first 136 bytes of page 0 are the header. \<open>wi_page\<close> is one such
  page (words and slots by position), \<open>wal_shm\<close> the shared memory, \<open>Wal\<close> the part of a connection's
  \<open>struct Wal\<close> that is used (\<open>szPageWal\<close> is its \<open>szPage\<close>), with its private copy \<open>hdr\<close> of the header. \<open>map_rc\<close> is what the
  VFS answers when a page of the index has to be mapped. Frame numbers are \<open>u32\<close> below \<open>2 ^ 32 - 4096\<close>,
  where the sums of \<open>walFramePage\<close> do not wrap; a new slot value is cut to 16 bits as in the code.
\<close>

definition HASHTABLE_NPAGE :: nat where "HASHTABLE_NPAGE = 4096"
definition HASHTABLE_HASH_1 :: nat where "HASHTABLE_HASH_1 = 383"
definition HASHTABLE_NSLOT :: nat where "HASHTABLE_NSLOT = HASHTABLE_NPAGE * 2"
definition WALINDEX_HDR_SIZE :: nat where "WALINDEX_HDR_SIZE = 48 * 2 + 40"
definition HASHTABLE_NPAGE_ONE :: nat where "HASHTABLE_NPAGE_ONE = HASHTABLE_NPAGE - WALINDEX_HDR_SIZE div 4"

record wi_page =
  pgWord :: "nat \<Rightarrow> nat"
  pgSlot :: "nat \<Rightarrow> nat"

definition sqlite3Get4byte :: "bytes \<Rightarrow> u32" where
  "sqlite3Get4byte p =
     push_bit 24 (ucast (byte_at p 0)) OR push_bit 16 (ucast (byte_at p 1)) OR push_bit 8 (ucast (byte_at p 2)) OR ucast (byte_at p 3)"

definition sqlite3Put4byte :: "u32 \<Rightarrow> bytes" where
  "sqlite3Put4byte v = [ucast (drop_bit 24 v), ucast (drop_bit 16 v), ucast (drop_bit 8 v), ucast v]"

record WalIndexHdr =
  iChange :: nat
  bigEndCksum :: bool
  szPage16 :: nat
  mxFrame :: nat
  nPage :: nat
  aFrameCksum :: "u32 \<times> u32"
  aSalt :: bytes

definition WAL_NREADER :: nat where "WAL_NREADER = 8 - 3"
definition READMARK_NOT_USED :: nat where "READMARK_NOT_USED = 0xffffffff"

record WalCkptInfo =
  nBackfill :: nat
  aReadMark :: "nat list"
  nBackfillAttempted :: nat

record wal_shm =
  shmPage :: "nat \<Rightarrow> wi_page"
  shmHdr :: WalIndexHdr
  shmInfo :: WalCkptInfo

record Wal =
  hdr :: WalIndexHdr
  minFrame :: nat
  readLock :: int
  bShmUnreliable :: bool
  writeLock :: bool
  iReCksum :: nat
  nCkpt :: nat
  szPageWal :: nat
  syncHeader :: bool
  padToSectorBoundary :: bool
  truncateOnCommit :: bool
  mxWalSize :: int

record WalHashLoc =
  locPage :: nat
  aPgno :: nat
  iZero :: nat

text \<open>The header is written to the shared memory. (Its two copies and its own checksum, which let a
  reader detect a torn header, are one value here.)\<close>

definition walIndexWriteHdr :: "wal_shm \<Rightarrow> Wal \<Rightarrow> wal_shm" where
  "walIndexWriteHdr m w = m\<lparr>shmHdr := hdr w\<rparr>"

definition walHash :: "nat \<Rightarrow> nat" where
  "walHash iPage = ((iPage * HASHTABLE_HASH_1) mod 2 ^ 32) AND (HASHTABLE_NSLOT - 1)"

definition walNextHash :: "nat \<Rightarrow> nat" where
  "walNextHash iPriorHash = (iPriorHash + 1) AND (HASHTABLE_NSLOT - 1)"

definition walHashGet :: "(nat \<Rightarrow> nat) \<Rightarrow> nat \<Rightarrow> nat + WalHashLoc" where
  "walHashGet map_rc iHash =
     (if map_rc iHash \<noteq> 0 then Inl (map_rc iHash)
      else if iHash = 0 then Inr \<lparr>locPage = 0, aPgno = WALINDEX_HDR_SIZE div 4, iZero = 0\<rparr>
      else Inr \<lparr>locPage = iHash, aPgno = 0, iZero = HASHTABLE_NPAGE_ONE + (iHash - 1) * HASHTABLE_NPAGE\<rparr>)"

definition walFramePage :: "nat \<Rightarrow> nat" where
  "walFramePage iFrame = (iFrame + HASHTABLE_NPAGE - HASHTABLE_NPAGE_ONE - 1) div HASHTABLE_NPAGE"

definition walFramePgno :: "wal_shm \<Rightarrow> nat \<Rightarrow> nat" where
  "walFramePgno m iFrame =
     (if walFramePage iFrame = 0 then pgWord (shmPage m 0) (WALINDEX_HDR_SIZE div 4 + iFrame - 1)
      else pgWord (shmPage m (walFramePage iFrame)) ((iFrame - 1 - HASHTABLE_NPAGE_ONE) mod HASHTABLE_NPAGE))"

abbreviation loc_pgno :: "wal_shm \<Rightarrow> WalHashLoc \<Rightarrow> nat \<Rightarrow> nat" where
  "loc_pgno m l i \<equiv> pgWord (shmPage m (locPage l)) (aPgno l + i)"

abbreviation loc_slot :: "wal_shm \<Rightarrow> WalHashLoc \<Rightarrow> nat \<Rightarrow> nat" where
  "loc_slot m l i \<equiv> pgSlot (shmPage m (locPage l)) i"

definition loc_update :: "wal_shm \<Rightarrow> WalHashLoc \<Rightarrow> (wi_page \<Rightarrow> wi_page) \<Rightarrow> wal_shm" where
  "loc_update m l f = m\<lparr>shmPage := (shmPage m)(locPage l := f (shmPage m (locPage l)))\<rparr>"

text \<open>The two stores of the clean-up: slots above the limit, then the page numbers from the limit to
  the hash table.\<close>

definition cleanup_page :: "WalHashLoc \<Rightarrow> nat \<Rightarrow> wi_page \<Rightarrow> wi_page" where
  "cleanup_page l iLimit pg =
     \<lparr>pgWord = (\<lambda>k. if aPgno l + iLimit \<le> k \<and> k < HASHTABLE_NPAGE then 0 else pgWord pg k),
      pgSlot = (\<lambda>i. if i < HASHTABLE_NSLOT \<and> pgSlot pg i > iLimit then 0 else pgSlot pg i)\<rparr>"

definition walCleanupHash :: "(nat \<Rightarrow> nat) \<Rightarrow> wal_shm \<Rightarrow> Wal \<Rightarrow> wal_shm" where
  "walCleanupHash map_rc m w =
     (if mxFrame (hdr w) = 0 then m
      else case walHashGet map_rc (walFramePage (mxFrame (hdr w))) of
        Inl _ \<Rightarrow> m
      | Inr l \<Rightarrow> loc_update m l (cleanup_page l (mxFrame (hdr w) - iZero l)))"

text \<open>The free slot for a page: one probe, and one more for each collision that is tolerated.\<close>

fun free_slot :: "(nat \<Rightarrow> nat) \<Rightarrow> nat \<Rightarrow> nat \<Rightarrow> nat option" where
  "free_slot h iKey 0 = (if h iKey = 0 then Some iKey else None)"
| "free_slot h iKey (Suc nCollide) = (if h iKey = 0 then Some iKey else free_slot h (walNextHash iKey) nCollide)"

definition zero_page :: "WalHashLoc \<Rightarrow> wi_page \<Rightarrow> wi_page" where
  "zero_page l pg =
     \<lparr>pgWord = (\<lambda>k. if aPgno l \<le> k \<and> k < HASHTABLE_NPAGE then 0 else pgWord pg k),
      pgSlot = (\<lambda>i. if i < HASHTABLE_NSLOT then 0 else pgSlot pg i)\<rparr>"

definition set_entry :: "WalHashLoc \<Rightarrow> nat \<Rightarrow> nat \<Rightarrow> nat \<Rightarrow> wi_page \<Rightarrow> wi_page" where
  "set_entry l idx iPage iKey pg =
     \<lparr>pgWord = (pgWord pg)(aPgno l + ((idx - 1) AND (HASHTABLE_NPAGE - 1)) := iPage),
      pgSlot = (pgSlot pg)(iKey := idx mod 2 ^ 16)\<rparr>"

definition walIndexAppend :: "(nat \<Rightarrow> nat) \<Rightarrow> wal_shm \<Rightarrow> Wal \<Rightarrow> nat \<Rightarrow> nat \<Rightarrow> nat \<times> wal_shm" where
  "walIndexAppend map_rc m w iFrame iPage =
     (case walHashGet map_rc (walFramePage iFrame) of
        Inl rc \<Rightarrow> (rc, m)
      | Inr l \<Rightarrow>
          let idx = iFrame - iZero l;
              m1 = (if idx = 1 then loc_update m l (zero_page l) else m);
              m2 = (if loc_pgno m1 l (idx - 1) \<noteq> 0 then walCleanupHash map_rc m1 w else m1)
          in case free_slot (loc_slot m2 l) (walHash iPage) idx of
               None \<Rightarrow> (SQLITE_CORRUPT, m2)
             | Some iKey \<Rightarrow> (0, loc_update m2 l (set_entry l idx iPage iKey)))"

text \<open>The search of one hash table, and of the tables from the last frame's down to the first.\<close>

fun find_in_table :: "wal_shm \<Rightarrow> WalHashLoc \<Rightarrow> nat \<Rightarrow> nat \<Rightarrow> nat \<Rightarrow> nat \<Rightarrow> nat \<Rightarrow> nat \<Rightarrow> nat + nat" where
  "find_in_table m l iLast minF pgno iKey iRead nCollide =
     (if loc_slot m l iKey = 0 then Inr iRead
      else let iH = loc_slot m l iKey; iFrame = iH + iZero l;
               iRead = (if iFrame \<le> iLast \<and> iFrame \<ge> minF \<and> loc_pgno m l ((iH - 1) AND (HASHTABLE_NPAGE - 1)) = pgno
                        then iFrame else iRead)
           in case nCollide of 0 \<Rightarrow> Inl SQLITE_CORRUPT
              | Suc nCollide \<Rightarrow> find_in_table m l iLast minF pgno (walNextHash iKey) iRead nCollide)"

fun find_in_tables :: "(nat \<Rightarrow> nat) \<Rightarrow> wal_shm \<Rightarrow> nat \<Rightarrow> nat \<Rightarrow> nat \<Rightarrow> nat list \<Rightarrow> nat + nat" where
  "find_in_tables map_rc m iLast minF pgno [] = Inr 0"
| "find_in_tables map_rc m iLast minF pgno (iHash # rest) =
     (case walHashGet map_rc iHash of
        Inl rc \<Rightarrow> Inl rc
      | Inr l \<Rightarrow>
          (case find_in_table m l iLast minF pgno (walHash pgno) 0 HASHTABLE_NSLOT of
             Inl rc \<Rightarrow> Inl rc
           | Inr iRead \<Rightarrow> if iRead \<noteq> 0 then Inr iRead else find_in_tables map_rc m iLast minF pgno rest))"

definition walFindFrame :: "(nat \<Rightarrow> nat) \<Rightarrow> wal_shm \<Rightarrow> Wal \<Rightarrow> nat \<Rightarrow> nat + nat" where
  "walFindFrame map_rc m w pgno =
     (let iLast = mxFrame (hdr w)
      in if iLast = 0 \<or> (readLock w = 0 \<and> \<not> bShmUnreliable w) then Inr 0
         else find_in_tables map_rc m iLast (minFrame w) pgno
                (rev [walFramePage (minFrame w) ..< Suc (walFramePage iLast)]))"

text \<open>The linear search with which the code checks its result when expensive assertions are enabled.\<close>

fun linear_search :: "wal_shm \<Rightarrow> nat \<Rightarrow> nat \<Rightarrow> nat \<Rightarrow> nat" where
  "linear_search m minF pgno 0 = 0"
| "linear_search m minF pgno (Suc i) =
     (if Suc i < minF then 0
      else if walFramePgno m (Suc i) = pgno then Suc i else linear_search m minF pgno i)"

text \<open>The part of \<open>walFrames\<close> that enters the frames of a transaction into the index and then moves the end
  of the log.\<close>

fun append_pages :: "(nat \<Rightarrow> nat) \<Rightarrow> wal_shm \<Rightarrow> Wal \<Rightarrow> nat \<Rightarrow> nat list \<Rightarrow> nat \<times> nat \<times> wal_shm" where
  "append_pages map_rc m w iFrame [] = (0, iFrame, m)"
| "append_pages map_rc m w iFrame (p # ps) =
     (case walIndexAppend map_rc m w (iFrame + 1) p of
        (rc, m) \<Rightarrow> if rc \<noteq> 0 then (rc, iFrame + 1, m) else append_pages map_rc m w (iFrame + 1) ps)"

definition index_frames :: "(nat \<Rightarrow> nat) \<Rightarrow> wal_shm \<Rightarrow> Wal \<Rightarrow> nat list \<Rightarrow> nat \<Rightarrow> nat \<Rightarrow> bool \<Rightarrow> nat \<times> wal_shm \<times> Wal" where
  "index_frames map_rc m w pages szPage nTruncate isCommit =
     (case append_pages map_rc m w (mxFrame (hdr w)) pages of
        (rc, iFrame, m) \<Rightarrow>
          if rc \<noteq> 0 then (rc, m, w)
          else let h = (hdr w)\<lparr>szPage16 := ((szPage AND 0xff00) OR (szPage div 2 ^ 16)) mod 2 ^ 16, mxFrame := iFrame\<rparr>;
                   h = (if isCommit then h\<lparr>iChange := (iChange h + 1) mod 2 ^ 32, nPage := nTruncate\<rparr> else h);
                   w = w\<lparr>hdr := h\<rparr>
               in (0, if isCommit then walIndexWriteHdr m w else m, w))"

text \<open>The log is started over: the salts change, the log is empty, and so are the marks of the readers.\<close>

definition walRestartHdr :: "wal_shm \<Rightarrow> Wal \<Rightarrow> bytes \<Rightarrow> wal_shm \<times> Wal" where
  "walRestartHdr m w salt1 =
     (let h = (hdr w)\<lparr>mxFrame := 0,
            aSalt := sqlite3Put4byte (1 + sqlite3Get4byte (take 4 (aSalt (hdr w)))) @ salt1\<rparr>;
          w = w\<lparr>nCkpt := (nCkpt w + 1) mod 2 ^ 32, hdr := h\<rparr>;
          m = walIndexWriteHdr m w
      in (m\<lparr>shmInfo := \<lparr>nBackfill = 0,
             aReadMark = map (\<lambda>i. if i = 0 then aReadMark (shmInfo m) ! 0 else if i = 1 then 0 else READMARK_NOT_USED) [0..<WAL_NREADER],
             nBackfillAttempted = 0\<rparr>\<rparr>, w))"

text \<open>Roll-back: of the whole transaction, and to a savepoint.\<close>

fun undo_pages :: "(nat \<Rightarrow> nat) \<Rightarrow> wal_shm \<Rightarrow> nat list \<Rightarrow> nat \<times> nat list" where
  "undo_pages xUndo m [] = (0, [])"
| "undo_pages xUndo m (iFrame # fs) =
     (let p = walFramePgno m iFrame
      in if xUndo p \<noteq> 0 then (xUndo p, [p]) else (case undo_pages xUndo m fs of (rc, ps) \<Rightarrow> (rc, p # ps)))"

definition sqlite3WalUndo :: "(nat \<Rightarrow> nat) \<Rightarrow> (nat \<Rightarrow> nat) \<Rightarrow> wal_shm \<Rightarrow> Wal \<Rightarrow> (nat \<times> nat list) \<times> wal_shm \<times> Wal" where
  "sqlite3WalUndo map_rc xUndo m w =
     (if writeLock w then
        let iMax = mxFrame (hdr w); w = w\<lparr>hdr := shmHdr m\<rparr>;
            r = undo_pages xUndo m [mxFrame (hdr w) + 1 ..< iMax + 1]
        in (r, if iMax \<noteq> mxFrame (hdr w) then walCleanupHash map_rc m w else m, w\<lparr>iReCksum := 0\<rparr>)
      else ((0, []), m, w))"

type_synonym wal_savepoint = "nat \<times> (u32 \<times> u32) \<times> nat"

definition sqlite3WalSavepoint :: "Wal \<Rightarrow> wal_savepoint" where
  "sqlite3WalSavepoint w = (mxFrame (hdr w), aFrameCksum (hdr w), nCkpt w)"

definition sqlite3WalSavepointUndo :: "(nat \<Rightarrow> nat) \<Rightarrow> wal_shm \<Rightarrow> Wal \<Rightarrow> wal_savepoint \<Rightarrow> wal_savepoint \<times> wal_shm \<times> Wal" where
  "sqlite3WalSavepointUndo map_rc m w d =
     (case d of (mx, ck, nc) \<Rightarrow>
        let (mx, nc) = (if nc \<noteq> nCkpt w then (0, nCkpt w) else (mx, nc))
        in if mx < mxFrame (hdr w) then
             let w = w\<lparr>hdr := (hdr w)\<lparr>mxFrame := mx, aFrameCksum := ck\<rparr>\<rparr>
             in ((mx, ck, nc), walCleanupHash map_rc m w, if iReCksum w > mx then w\<lparr>iReCksum := 0\<rparr> else w)
           else ((mx, ck, nc), m, w))"

declare find_in_table.simps [simp del]

subsection \<open>Probing one hash table\<close>

text \<open>\<open>chain s d\<close> is the slot a probe that starts at \<open>s\<close> reaches after \<open>d\<close> collisions.\<close>

named_theorems wal_consts "the constants of the wal-index as numerals"

lemma wal_constants [wal_consts]:
  "HASHTABLE_NPAGE = 4096" "HASHTABLE_NSLOT = 8192" "WALINDEX_HDR_SIZE = 136" "HASHTABLE_NPAGE_ONE = 4062" "HASHTABLE_HASH_1 = 383"
  by (simp_all add: HASHTABLE_NPAGE_def HASHTABLE_NSLOT_def WALINDEX_HDR_SIZE_def HASHTABLE_NPAGE_ONE_def HASHTABLE_HASH_1_def)

definition chain :: "nat \<Rightarrow> nat \<Rightarrow> nat" where
  "chain s d = (s + d) mod 8192"

lemma and_8191: "n AND 8191 = n mod (8192::nat)"
  using take_bit_eq_mask [of 13 n] by (simp add: take_bit_eq_mod mask_eq_exp_minus_1)

lemma and_4095: "n AND 4095 = n mod (4096::nat)"
  using take_bit_eq_mask [of 12 n] by (simp add: take_bit_eq_mod mask_eq_exp_minus_1)

lemma walHash_eq: "walHash p = p * 383 mod 8192"
  by (simp add: walHash_def wal_consts and_8191 mod_mod_cancel)

lemma walHash_less [simp]: "walHash p < 8192"
  by (simp add: walHash_eq)

lemma chain_less [simp]: "chain s d < 8192"
  by (simp add: chain_def)

lemma chain_0: "s < 8192 \<Longrightarrow> chain s 0 = s"
  by (simp add: chain_def)

lemma walNextHash_chain: "walNextHash (chain s d) = chain s (Suc d)"
  by (simp add: walNextHash_def wal_consts and_8191 chain_def mod_simps)

lemma chain_inj_le: "chain s d = chain s e \<Longrightarrow> d \<le> e \<Longrightarrow> e < 8192 \<Longrightarrow> d = e"
proof -
  assume a: "chain s d = chain s e" "d \<le> e" "e < 8192"
  then have "8192 dvd (s + e) - (s + d)"
    using mod_eq_dvd_iff_nat [of "s + d" "s + e" 8192] by (simp add: chain_def)
  then have "8192 dvd e - d" by simp
  moreover have "e - d < 8192" using a(3) by simp
  ultimately have "\<not> 0 < e - d" using nat_dvd_not_less [of "e - d" 8192] by blast
  then show "d = e" using a(2) by simp
qed

lemma chain_inj: "chain s d = chain s e \<Longrightarrow> d < 8192 \<Longrightarrow> e < 8192 \<Longrightarrow> d = e"
  using chain_inj_le [of s d e] chain_inj_le [of s e d] by (cases "d \<le> e") auto

text \<open>A table of \<open>n\<close> entries, the \<open>j\<close>-th for the page \<open>key j\<close>: every entry has one slot, and the slots
  its probe passes hold older entries.\<close>

definition reaches :: "(nat \<Rightarrow> nat) \<Rightarrow> nat \<Rightarrow> nat \<Rightarrow> nat \<Rightarrow> bool" where
  "reaches h s j d \<longleftrightarrow> d < 8192 \<and> h (chain s d) = j \<and> (\<forall>e<d. 0 < h (chain s e) \<and> h (chain s e) < j)"

definition table_ok :: "(nat \<Rightarrow> nat) \<Rightarrow> (nat \<Rightarrow> nat) \<Rightarrow> nat \<Rightarrow> bool" where
  "table_ok h key n \<longleftrightarrow> n \<le> 4096 \<and> (\<forall>k<8192. h k \<le> n)
     \<and> (\<forall>i<8192. \<forall>k<8192. h i = h k \<longrightarrow> 0 < h i \<longrightarrow> i = k)
     \<and> (\<forall>j. 0 < j \<longrightarrow> j \<le> n \<longrightarrow> (\<exists>d. reaches h (walHash (key j)) j d))"

lemma table_ok_empty: "(\<And>k. k < 8192 \<Longrightarrow> h k = 0) \<Longrightarrow> table_ok h key 0"
  by (simp add: table_ok_def)

lemma table_okD:
  assumes "table_ok h key n"
  shows "n \<le> 4096" "k < 8192 \<Longrightarrow> h k \<le> n" "i < 8192 \<Longrightarrow> k < 8192 \<Longrightarrow> h i = h k \<Longrightarrow> 0 < h i \<Longrightarrow> i = k"
  using assms unfolding table_ok_def by blast+

lemma table_ok_reaches:
  assumes "table_ok h key n" "0 < j" "j \<le> n"
  obtains d where "reaches h (walHash (key j)) j d"
  using assms unfolding table_ok_def by blast

lemma table_ok_key: "table_ok h key n \<Longrightarrow> (\<And>j. 0 < j \<Longrightarrow> j \<le> n \<Longrightarrow> key j = key' j) \<Longrightarrow> table_ok h key' n"
  by (simp add: table_ok_def)

lemma reachesD: "reaches h s j d \<Longrightarrow> d < 8192 \<and> h (chain s d) = j" "reaches h s j d \<Longrightarrow> e < d \<Longrightarrow> 0 < h (chain s e) \<and> h (chain s e) < j"
  by (auto simp: reaches_def)

text \<open>There is a free slot within \<open>n\<close> collisions: \<open>n + 1\<close> different slots cannot hold \<open>n\<close> entries.\<close>

lemma free_slot_exists:
  assumes "table_ok h key n"
  shows "\<exists>d\<le>n. h (chain s d) = 0"
proof (rule ccontr)
  assume "\<not> ?thesis"
  then have nz: "\<And>d. d \<le> n \<Longrightarrow> 0 < h (chain s d)" by auto
  have n: "n \<le> 4096" by (rule table_okD(1) [OF assms])
  have "inj_on (\<lambda>d. h (chain s d)) {..n}"
  proof (rule inj_onI)
    fix d e assume de: "d \<in> {..n}" "e \<in> {..n}" "h (chain s d) = h (chain s e)"
    have "chain s d = chain s e"
      by (rule table_okD(3) [OF assms chain_less chain_less de(3)]) (use nz de(1) in simp)
    then show "d = e" by (rule chain_inj) (use de n in simp_all)
  qed
  moreover have "(\<lambda>d. h (chain s d)) ` {..n} \<subseteq> {1..n}"
  proof
    fix x assume "x \<in> (\<lambda>d. h (chain s d)) ` {..n}"
    then obtain d where "x = h (chain s d)" "d \<le> n" by auto
    then show "x \<in> {1..n}" using nz [of d] table_okD(2) [OF assms chain_less, of s d] by simp
  qed
  ultimately have "card {..n} \<le> card {1..n}" by (intro card_inj_on_le) auto
  then show False by simp
qed

lemma first_free:
  assumes "table_ok h key n"
  obtains D where "D \<le> n" "h (chain s D) = 0" "\<And>e. e < D \<Longrightarrow> 0 < h (chain s e)"
proof -
  obtain d where d: "d \<le> n" "h (chain s d) = 0" using free_slot_exists [OF assms] by blast
  let ?D = "LEAST d. h (chain s d) = 0"
  show ?thesis
  proof (rule that)
    show "?D \<le> n" using d Least_le [of "\<lambda>d. h (chain s d) = 0" d] by simp
    show "h (chain s ?D) = 0" using d(2) by (rule LeastI)
    show "0 < h (chain s e)" if "e < ?D" for e using not_less_Least [OF that] by simp
  qed
qed

text \<open>The probe for a free slot finds the first one when enough collisions are tolerated.\<close>

lemma free_slot_chain:
  assumes "h (chain s D) = 0" "\<And>e. e < D \<Longrightarrow> 0 < h (chain s e)"
  shows "d \<le> D \<Longrightarrow> D - d \<le> n \<Longrightarrow> free_slot h (chain s d) n = Some (chain s D)"
proof (induction n arbitrary: d)
  case (Suc n)
  show ?case
  proof (cases "d = D")
    case False
    then show ?thesis using Suc assms(2) [of d] by (simp add: walNextHash_chain)
  qed (simp add: assms(1))
qed (simp add: assms(1))

text \<open>The entry \<open>n + 1\<close> in that slot, and the removal of the entries above a limit, keep the table in order.\<close>

lemma table_ok_insert:
  assumes t: "table_ok h key n" and n: "n < 4096" and s: "s = walHash (key (Suc n))"
    and D: "D \<le> n" "h (chain s D) = 0" "\<And>e. e < D \<Longrightarrow> 0 < h (chain s e)"
  shows "table_ok (h(chain s D := Suc n)) key (Suc n)"
proof -
  let ?h = "h(chain s D := Suc n)"
  note le = table_okD(2) [OF t]
  have new: "reaches ?h s (Suc n) D"
    unfolding reaches_def
  proof (intro conjI allI impI)
    show "D < 8192" using D(1) n by simp
    fix e assume e: "e < D"
    then have "chain s e \<noteq> chain s D" using D n chain_inj [of s e D] by auto
    then show "0 < ?h (chain s e)" "?h (chain s e) < Suc n" using D(3) [OF e] le [of "chain s e"] by (auto simp: less_Suc_eq_le)
  qed simp
  have old: "\<exists>d. reaches ?h (walHash (key j)) j d" if j: "0 < j" "j \<le> n" for j
  proof -
    obtain d where d: "reaches h (walHash (key j)) j d" using t j by (rule table_ok_reaches)
    have "0 < h (chain (walHash (key j)) e)" if "e \<le> d" for e
      using reachesD [OF d] j(1) that by (cases "e = d") auto
    then have ne: "chain (walHash (key j)) e \<noteq> chain s D" if "e \<le> d" for e
      using D(2) that by (metis less_irrefl)
    show ?thesis using d ne by (intro exI [of _ d]) (simp add: reaches_def)
  qed
  have "\<exists>d. reaches ?h (walHash (key j)) j d" if "0 < j" "j \<le> Suc n" for j
    using that new old s by (cases "j = Suc n") auto
  moreover have "i = k" if ik: "i < 8192" "k < 8192" "?h i = ?h k" "0 < ?h i" for i k
  proof (cases "i = chain s D \<or> k = chain s D")
    case True
    then show ?thesis using ik(3) le [OF ik(1)] le [OF ik(2)] by (auto split: if_splits)
  next
    case False
    then show ?thesis using ik table_okD(3) [OF t ik(1,2)] by simp
  qed
  moreover have "?h k \<le> Suc n" if "k < 8192" for k using le [OF that] by simp
  ultimately show ?thesis using n unfolding table_ok_def by (metis Suc_leI)
qed

lemma table_ok_cut:
  assumes t: "table_ok h key n" and L: "L \<le> n"
  shows "table_ok (\<lambda>i. if i < 8192 \<and> h i > L then 0 else h i) key L"
proof -
  let ?h = "\<lambda>i. if i < 8192 \<and> h i > L then 0 else h i"
  have "\<exists>d. reaches ?h (walHash (key j)) j d" if j: "0 < j" "j \<le> L" for j
  proof -
    obtain d where d: "reaches h (walHash (key j)) j d" using table_ok_reaches [OF t j(1), of thesis] j L by auto
    then have "\<And>e. e < d \<Longrightarrow> h (chain (walHash (key j)) e) < L" using j by (fastforce simp: reaches_def)
    then show ?thesis using d j by (intro exI [of _ d]) (auto simp: reaches_def not_less less_imp_le)
  qed
  moreover have "?h k \<le> L" if "k < 8192" for k using that by simp
  moreover have "i = k" if "i < 8192" "k < 8192" "?h i = ?h k" "0 < ?h i" for i k
    using that table_okD(3) [OF t that(1,2)] by (simp split: if_splits)
  ultimately show ?thesis using table_okD(1) [OF t] L unfolding table_ok_def by (meson le_trans)
qed

subsection \<open>Searching one hash table\<close>

text \<open>The specification of a search: the last frame of a page, not before \<open>minF\<close> and not behind the end.\<close>

fun last_frame :: "(nat \<Rightarrow> nat) \<Rightarrow> nat \<Rightarrow> nat \<Rightarrow> nat \<Rightarrow> nat" where
  "last_frame pg minF p 0 = 0"
| "last_frame pg minF p (Suc i) = (if Suc i < minF then 0 else if pg (Suc i) = p then Suc i else last_frame pg minF p i)"

lemma last_frame_eqI:
  "0 < k \<Longrightarrow> minF \<le> k \<Longrightarrow> k \<le> n \<Longrightarrow> pg k = p \<Longrightarrow> (\<And>j. k < j \<Longrightarrow> j \<le> n \<Longrightarrow> pg j \<noteq> p) \<Longrightarrow> last_frame pg minF p n = k"
proof (induction n)
  case (Suc n)
  then show ?case by (cases "k = Suc n") (auto simp: le_Suc_eq)
qed simp

lemma last_frame_none:
  "(\<And>j. 0 < j \<Longrightarrow> minF \<le> j \<Longrightarrow> j \<le> n \<Longrightarrow> pg j \<noteq> p) \<Longrightarrow> last_frame pg minF p n = 0"
  by (induction n) auto

lemma last_frame_cases:
  obtains (none) "last_frame pg minF p n = 0" "\<And>j. 0 < j \<Longrightarrow> minF \<le> j \<Longrightarrow> j \<le> n \<Longrightarrow> pg j \<noteq> p"
  | (found) k where "last_frame pg minF p n = k" "0 < k" "minF \<le> k" "k \<le> n" "pg k = p" "\<And>j. k < j \<Longrightarrow> j \<le> n \<Longrightarrow> pg j \<noteq> p"
proof (induction n arbitrary: thesis)
  case 0
  show ?case by (rule 0(1)) auto
next
  case (Suc n)
  consider "Suc n < minF" | "minF \<le> Suc n" "pg (Suc n) = p" | "minF \<le> Suc n" "pg (Suc n) \<noteq> p" by linarith
  then show ?case
  proof cases
    case 1
    then show ?thesis by (intro Suc.prems(1)) auto
  next
    case 2
    then show ?thesis by (intro Suc.prems(2) [of "Suc n"]) auto
  next
    case 3
    show ?thesis
    proof (rule Suc.IH)
      assume "last_frame pg minF p n = 0" "\<And>j. 0 < j \<Longrightarrow> minF \<le> j \<Longrightarrow> j \<le> n \<Longrightarrow> pg j \<noteq> p"
      then show thesis using 3 by (intro Suc.prems(1)) (auto simp: le_Suc_eq)
    next
      fix k assume "last_frame pg minF p n = k" "0 < k" "minF \<le> k" "k \<le> n" "pg k = p" "\<And>j. k < j \<Longrightarrow> j \<le> n \<Longrightarrow> pg j \<noteq> p"
      then show thesis using 3 by (intro Suc.prems(2) [of k]) (auto simp: le_Suc_eq)
    qed
  qed
qed

lemma last_frame_cong: "(\<And>j. 0 < j \<Longrightarrow> minF \<le> j \<Longrightarrow> j \<le> n \<Longrightarrow> pg j = pg' j) \<Longrightarrow> last_frame pg minF p n = last_frame pg' minF p n"
  by (induction n) auto

lemma linear_search_last_frame: "linear_search m minF p n = last_frame (walFramePgno m) minF p n"
  by (induction n) auto

text \<open>The loop returns the last match it passes before the free slot that ends the probe.\<close>

definition slot_match :: "wal_shm \<Rightarrow> WalHashLoc \<Rightarrow> nat \<Rightarrow> nat \<Rightarrow> nat \<Rightarrow> nat \<Rightarrow> bool" where
  "slot_match m l iLast minF p k \<longleftrightarrow>
     (let iH = loc_slot m l k in iH + iZero l \<le> iLast \<and> minF \<le> iH + iZero l \<and> loc_pgno m l ((iH - 1) AND (HASHTABLE_NPAGE - 1)) = p)"

lemma find_in_table_0: "loc_slot m l k = 0 \<Longrightarrow> find_in_table m l iLast minF p k r n = Inr r"
  by (subst find_in_table.simps) simp

lemma find_in_table_Suc:
  "0 < loc_slot m l k \<Longrightarrow> find_in_table m l iLast minF p k r (Suc n)
     = find_in_table m l iLast minF p (walNextHash k) (if slot_match m l iLast minF p k then loc_slot m l k + iZero l else r) n"
  by (subst find_in_table.simps) (simp add: slot_match_def Let_def)

lemma find_in_table_probe:
  assumes D: "loc_slot m l (chain s D) = 0" "\<And>e. e < D \<Longrightarrow> 0 < loc_slot m l (chain s e)"
  shows "d \<le> D \<Longrightarrow> D - d \<le> n \<Longrightarrow> \<exists>r'. find_in_table m l iLast minF p (chain s d) r n = Inr r' \<and>
    ((r' = r \<and> (\<forall>e. d \<le> e \<longrightarrow> e < D \<longrightarrow> \<not> slot_match m l iLast minF p (chain s e)))
     \<or> (\<exists>e. d \<le> e \<and> e < D \<and> slot_match m l iLast minF p (chain s e) \<and> r' = loc_slot m l (chain s e) + iZero l
           \<and> (\<forall>e'. e < e' \<longrightarrow> e' < D \<longrightarrow> \<not> slot_match m l iLast minF p (chain s e'))))"
proof (induction n arbitrary: d r)
  case 0
  then have "d = D" by simp
  then show ?case using D(1) by (auto simp: find_in_table_0)
next
  case (Suc n)
  show ?case
  proof (cases "d = D")
    case True
    then show ?thesis using D(1) by (auto simp: find_in_table_0)
  next
    case False
    then have d: "d < D" using Suc.prems(1) by simp
    let ?r = "if slot_match m l iLast minF p (chain s d) then loc_slot m l (chain s d) + iZero l else r"
    have step: "find_in_table m l iLast minF p (chain s d) r (Suc n) = find_in_table m l iLast minF p (chain s (Suc d)) ?r n"
      using find_in_table_Suc [OF D(2) [OF d]] by (simp add: walNextHash_chain)
    obtain r' where r': "find_in_table m l iLast minF p (chain s (Suc d)) ?r n = Inr r'"
      "(r' = ?r \<and> (\<forall>e. Suc d \<le> e \<longrightarrow> e < D \<longrightarrow> \<not> slot_match m l iLast minF p (chain s e)))
       \<or> (\<exists>e. Suc d \<le> e \<and> e < D \<and> slot_match m l iLast minF p (chain s e) \<and> r' = loc_slot m l (chain s e) + iZero l
           \<and> (\<forall>e'. e < e' \<longrightarrow> e' < D \<longrightarrow> \<not> slot_match m l iLast minF p (chain s e')))"
      using Suc.IH [OF Suc_leI [OF d], of ?r] Suc.prems(2) by (auto simp only: Suc_diff_Suc [OF d, symmetric] Suc_le_mono)
    from r'(2) show ?thesis
    proof (elim disjE exE conjE)
      assume n: "r' = ?r" "\<forall>e. Suc d \<le> e \<longrightarrow> e < D \<longrightarrow> \<not> slot_match m l iLast minF p (chain s e)"
      show ?thesis
      proof (cases "slot_match m l iLast minF p (chain s d)")
        case True
        then show ?thesis using n r'(1) step d by (intro exI [of _ r'] conjI disjI2 exI [of _ d]) auto
      next
        case False
        have "\<not> slot_match m l iLast minF p (chain s e)" if "d \<le> e" "e < D" for e
          using False n(2) that by (cases "e = d") auto
        then show ?thesis using n(1) False r'(1) step by (intro exI [of _ r'] conjI disjI1) auto
      qed
    next
      fix e assume "Suc d \<le> e" "e < D" "slot_match m l iLast minF p (chain s e)" "r' = loc_slot m l (chain s e) + iZero l"
        "\<forall>e'. e < e' \<longrightarrow> e' < D \<longrightarrow> \<not> slot_match m l iLast minF p (chain s e')"
      then show ?thesis using r'(1) step by (intro exI [of _ r'] conjI disjI2 exI [of _ e]) auto
    qed
  qed
qed

text \<open>Entries for the same page are met in the order in which they were made, so the search of a table in
  order gives the last frame of the page among the frames of the table.\<close>

lemma same_page_order:
  assumes "reaches h s i d" "reaches h s j e" "i < j"
  shows "d < e"
proof (rule ccontr)
  assume "\<not> d < e"
  moreover have "d \<noteq> e" using assms by (auto simp: reaches_def)
  ultimately have "e < d" by simp
  then have "h (chain s e) < i" using reachesD(2) [OF assms(1)] by blast
  then show False using reachesD(1) [OF assms(2)] assms(3) by simp
qed

lemma find_in_table_ok:
  assumes t: "table_ok (loc_slot m l) key n" and w: "\<And>j. j < n \<Longrightarrow> loc_pgno m l j = key (Suc j)"
  shows "find_in_table m l iLast minF p (walHash p) 0 HASHTABLE_NSLOT
    = Inr (last_frame (\<lambda>f. key (f - iZero l)) (max minF (Suc (iZero l))) p (min iLast (iZero l + n)))"
proof -
  let ?h = "loc_slot m l" and ?s = "walHash p" and ?pg = "\<lambda>f. key (f - iZero l)"
  let ?M = "slot_match m l iLast minF p"
  obtain D where D: "D \<le> n" "?h (chain ?s D) = 0" "\<And>e. e < D \<Longrightarrow> 0 < ?h (chain ?s e)"
    using first_free [OF t] by blast
  have n: "n \<le> 4096" by (rule table_okD(1) [OF t])
  have M: "?M (chain ?s e) \<longleftrightarrow> ?h (chain ?s e) + iZero l \<le> iLast \<and> minF \<le> ?h (chain ?s e) + iZero l \<and> key (?h (chain ?s e)) = p"
    if "e < D" for e
  proof -
    have "0 < ?h (chain ?s e)" "?h (chain ?s e) \<le> n" using D(3) [OF that] table_okD(2) [OF t] by auto
    then have "loc_pgno m l ((?h (chain ?s e) - 1) AND 4095) = key (?h (chain ?s e))"
      using w [of "?h (chain ?s e) - 1"] n by (simp add: and_4095)
    then show ?thesis by (simp add: slot_match_def Let_def wal_consts)
  qed
  have pos: "\<exists>e<D. ?h (chain ?s e) = j \<and> reaches ?h ?s j e" if j: "0 < j" "j \<le> n" "key j = p" for j
  proof -
    obtain e where e: "reaches ?h ?s j e" using table_ok_reaches [OF t j(1,2), of thesis] j(3) by blast
    have "e < D" using reachesD(1) [OF e] reachesD(2) [OF e, of D] D(2) j(1) by (cases e D rule: linorder_cases) auto
    then show ?thesis using e reachesD(1) [OF e] by blast
  qed
  obtain r where r: "find_in_table m l iLast minF p (chain ?s 0) 0 8192 = Inr r"
    "(r = 0 \<and> (\<forall>e. 0 \<le> e \<longrightarrow> e < D \<longrightarrow> \<not> ?M (chain ?s e)))
     \<or> (\<exists>e. 0 \<le> e \<and> e < D \<and> ?M (chain ?s e) \<and> r = ?h (chain ?s e) + iZero l
         \<and> (\<forall>e'. e < e' \<longrightarrow> e' < D \<longrightarrow> \<not> ?M (chain ?s e')))"
    using find_in_table_probe [OF D(2,3), of 0 8192 iLast minF p 0] D(1) n by auto
  have "last_frame ?pg (max minF (Suc (iZero l))) p (min iLast (iZero l + n)) = r"
    using r(2)
  proof (elim disjE exE conjE)
    assume none: "r = 0" "\<forall>e. 0 \<le> e \<longrightarrow> e < D \<longrightarrow> \<not> ?M (chain ?s e)"
    have "?pg f \<noteq> p" if f: "0 < f" "max minF (Suc (iZero l)) \<le> f" "f \<le> min iLast (iZero l + n)" for f
    proof
      assume "?pg f = p"
      moreover have "0 < f - iZero l" "f - iZero l \<le> n" using f by linarith+
      ultimately obtain e where "e < D" "?h (chain ?s e) = f - iZero l" using pos by blast
      then show False using none(2) M [of e] f \<open>?pg f = p\<close> by auto
    qed
    then show ?thesis using none(1) by (intro last_frame_none [THEN trans]) auto
  next
    fix e assume e: "e < D" "?M (chain ?s e)" "r = ?h (chain ?s e) + iZero l" "\<forall>e'. e < e' \<longrightarrow> e' < D \<longrightarrow> \<not> ?M (chain ?s e')"
    let ?j = "?h (chain ?s e)"
    have j: "0 < ?j" "?j \<le> n" "key ?j = p" "?j + iZero l \<le> iLast" "minF \<le> ?j + iZero l"
      using D(3) [OF e(1)] table_okD(2) [OF t chain_less] e(2) M [OF e(1)] by auto
    show ?thesis
    proof (rule last_frame_eqI)
      fix f assume f: "r < f" "f \<le> min iLast (iZero l + n)"
      have fj: "0 < f - iZero l" "f - iZero l \<le> n" using f e(3) by linarith+
      show "?pg f \<noteq> p"
      proof
        assume p: "?pg f = p"
        then obtain e' where e': "e' < D" "?h (chain ?s e') = f - iZero l" "reaches ?h ?s (f - iZero l) e'"
          using pos [of "f - iZero l"] fj by blast
        obtain e0 where e0: "e0 < D" "?h (chain ?s e0) = ?j" "reaches ?h ?s ?j e0" using pos [OF j(1,2,3)] by blast
        have "chain ?s e0 = chain ?s e" by (rule table_okD(3) [OF t chain_less chain_less e0(2)]) (use e0 j in simp)
        then have "e0 = e" by (rule chain_inj) (use e0(1) e(1) D(1) n in simp_all)
        then have "e < e'" using same_page_order [OF e0(3) e'(3)] f(1) e(3) by simp
        then show False using e(4) e' M [OF e'(1)] f p j e(3) by auto
      qed
    qed (use j e(3) in auto)
  qed
  then show ?thesis using r(1) by (simp add: chain_0 wal_consts)
qed

subsection \<open>What the index represents\<close>

text \<open>Page \<open>b\<close> of the index holds the frames from \<open>blk_zero b + 1\<close> to \<open>blk_end b\<close>, its page numbers start at
  the word \<open>blk_base b\<close>.\<close>

definition blk_zero :: "nat \<Rightarrow> nat" where "blk_zero b = (if b = 0 then 0 else 4062 + (b - 1) * 4096)"
definition blk_end :: "nat \<Rightarrow> nat" where "blk_end b = 4062 + b * 4096"
definition blk_base :: "nat \<Rightarrow> nat" where "blk_base b = (if b = 0 then 34 else 0)"

definition blk_loc :: "nat \<Rightarrow> WalHashLoc" where
  "blk_loc b = \<lparr>locPage = b, aPgno = blk_base b, iZero = blk_zero b\<rparr>"

lemma blk_loc_simps [simp]: "locPage (blk_loc b) = b" "aPgno (blk_loc b) = blk_base b" "iZero (blk_loc b) = blk_zero b"
  by (simp_all add: blk_loc_def)

lemma walHashGet_ok: "map_rc b = 0 \<Longrightarrow> walHashGet map_rc b = Inr (blk_loc b)"
  by (simp add: walHashGet_def blk_loc_def blk_zero_def blk_base_def wal_consts)

lemma walHashGet_err: "map_rc b \<noteq> 0 \<Longrightarrow> walHashGet map_rc b = Inl (map_rc b)"
  by (simp add: walHashGet_def)

lemma walFramePage_eq: "walFramePage n = (n + 33) div 4096"
  by (simp add: walFramePage_def wal_consts)

lemma blk_end_Suc: "blk_zero (Suc b) = blk_end b"
  by (simp add: blk_zero_def blk_end_def)

lemma blk_end_zero: "blk_end b = blk_zero b + 4096 - blk_base b" "blk_base b < 4096"
  by (cases b; simp add: blk_zero_def blk_end_def blk_base_def)+

lemma blk_zero_end: "blk_zero b < blk_end b" "blk_end b \<le> blk_zero b + 4096"
  using blk_end_zero [of b] by (auto simp: blk_base_def)

lemma blk_end_mono: "b \<le> c \<Longrightarrow> blk_end b \<le> blk_end c"
  by (simp add: blk_end_def)

lemma blk_zero_mono: "b < c \<Longrightarrow> blk_end b \<le> blk_zero c"
  using blk_end_mono [of b "c - 1"] blk_end_Suc [of "c - 1"] by simp

lemma frame_page:
  assumes "0 < n"
  shows "blk_zero (walFramePage n) < n" "n \<le> blk_end (walFramePage n)"
proof -
  have d: "(n + 33) div 4096 * 4096 + (n + 33) mod 4096 = n + 33" by (rule div_mult_mod_eq)
  have m: "(n + 33) mod 4096 < 4096" by simp
  show "n \<le> blk_end (walFramePage n)" using d m by (simp add: walFramePage_eq blk_end_def)
  show "blk_zero (walFramePage n) < n"
  proof (cases "(n + 33) div 4096")
    case 0
    then show ?thesis using assms by (simp add: walFramePage_eq blk_zero_def)
  next
    case (Suc b)
    then show ?thesis using d by (simp add: walFramePage_eq blk_zero_def)
  qed
qed

lemma frame_page_eq:
  assumes "blk_zero b < n" "n \<le> blk_end b"
  shows "walFramePage n = b"
proof -
  have n: "0 < n" using assms(1) by simp
  show ?thesis
    using frame_page [OF n] assms blk_zero_mono [of b "walFramePage n"] blk_zero_mono [of "walFramePage n" b]
    by (cases b "walFramePage n" rule: linorder_cases) auto
qed

definition blk_cnt :: "nat \<Rightarrow> nat \<Rightarrow> nat" where
  "blk_cnt b n = min n (blk_end b) - blk_zero b"

definition page_rep :: "nat \<Rightarrow> wi_page \<Rightarrow> nat list \<Rightarrow> bool" where
  "page_rep b pg fs \<longleftrightarrow> table_ok (pgSlot pg) (\<lambda>j. fs ! (blk_zero b + j - 1)) (blk_cnt b (length fs))
     \<and> (\<forall>j<blk_cnt b (length fs). pgWord pg (blk_base b + j) = fs ! (blk_zero b + j))
     \<and> (\<forall>k. blk_base b + blk_cnt b (length fs) \<le> k \<longrightarrow> k < 4096 \<longrightarrow> pgWord pg k = 0)"

text \<open>The index represents the frames \<open>fs\<close> (the page number of each) when every page it needs for them
  does; later pages may hold anything.\<close>

definition wi_rep :: "wal_shm \<Rightarrow> nat list \<Rightarrow> bool" where
  "wi_rep m fs \<longleftrightarrow> (\<forall>p\<in>set fs. 0 < p) \<and> (\<forall>b. blk_zero b < length fs \<longrightarrow> page_rep b (shmPage m b) fs)"

lemma wi_rep_Nil [simp]: "wi_rep m []"
  by (simp add: wi_rep_def)

lemma wi_repD: "wi_rep m fs \<Longrightarrow> blk_zero b < length fs \<Longrightarrow> page_rep b (shmPage m b) fs"
  by (simp add: wi_rep_def)

lemma wi_rep_pos: "wi_rep m fs \<Longrightarrow> k < length fs \<Longrightarrow> 0 < fs ! k"
  by (simp add: wi_rep_def)

lemma page_repD:
  assumes "page_rep b pg fs"
  shows "table_ok (pgSlot pg) (\<lambda>j. fs ! (blk_zero b + j - 1)) (blk_cnt b (length fs))"
    "j < blk_cnt b (length fs) \<Longrightarrow> pgWord pg (blk_base b + j) = fs ! (blk_zero b + j)"
    "blk_base b + blk_cnt b (length fs) \<le> k \<Longrightarrow> k < 4096 \<Longrightarrow> pgWord pg k = 0"
  using assms unfolding page_rep_def by blast+

lemma walFramePgno_rep:
  assumes r: "wi_rep m fs" and f: "0 < f" "f \<le> length fs"
  shows "walFramePgno m f = fs ! (f - 1)"
proof -
  let ?b = "walFramePage f"
  note b = frame_page [OF f(1)]
  have "page_rep ?b (shmPage m ?b) fs" using wi_repD [OF r] b(1) f(2) by simp
  moreover have "f - 1 - blk_zero ?b < blk_cnt ?b (length fs)" using b f by (auto simp: blk_cnt_def)
  ultimately have w: "pgWord (shmPage m ?b) (blk_base ?b + (f - 1 - blk_zero ?b)) = fs ! (f - 1)"
    using page_repD(2) [of ?b "shmPage m ?b" fs "f - 1 - blk_zero ?b"] b(1) by simp
  show ?thesis
  proof (cases "?b")
    case 0
    then show ?thesis using w f by (simp add: walFramePgno_def wal_consts blk_base_def blk_zero_def)
  next
    case (Suc c)
    have z: "blk_zero ?b = 4062 + c * 4096" "blk_end ?b = 4062 + c * 4096 + 4096" using Suc by (simp_all add: blk_zero_def blk_end_def)
    have "(f - 1 - 4062) mod 4096 = f - 1 - blk_zero ?b"
    proof -
      have "f - 1 - 4062 = (f - 1 - blk_zero ?b) + c * 4096" "f - 1 - blk_zero ?b < 4096" using b z by linarith+
      then show ?thesis by (metis mod_less mod_mult_self1)
    qed
    then show ?thesis using w Suc by (simp add: walFramePgno_def wal_consts blk_base_def)
  qed
qed

subsection \<open>Cutting the index\<close>

lemma blk_cnt_full: "blk_end b \<le> n \<Longrightarrow> blk_cnt b n = blk_end b - blk_zero b"
  by (simp add: blk_cnt_def)

lemma page_rep_take_full:
  assumes "page_rep b pg fs" "blk_end b \<le> n" "n \<le> length fs"
  shows "page_rep b pg (take n fs)"
proof -
  have c: "blk_cnt b (length (take n fs)) = blk_cnt b (length fs)" using assms(2,3) by (simp add: blk_cnt_full)
  have k: "fs ! k = take n fs ! k" if "k < blk_end b" for k using that assms(2) by simp
  have e: "blk_zero b + blk_cnt b (length fs) \<le> blk_end b" using blk_zero_end(1) [of b] by (auto simp: blk_cnt_def)
  show ?thesis
    unfolding page_rep_def c
  proof (intro conjI allI impI)
    show "table_ok (pgSlot pg) (\<lambda>j. take n fs ! (blk_zero b + j - 1)) (blk_cnt b (length fs))"
      by (rule table_ok_key [OF page_repD(1) [OF assms(1)]]) (use e in \<open>auto intro!: k\<close>)
  next
    fix j assume "j < blk_cnt b (length fs)"
    then show "pgWord pg (blk_base b + j) = take n fs ! (blk_zero b + j)"
      using page_repD(2) [OF assms(1)] k [of "blk_zero b + j"] e by simp
  qed (rule page_repD(3) [OF assms(1)])
qed

lemma page_rep_cut:
  assumes p: "page_rep b pg fs" and n: "blk_zero b < n" "n \<le> blk_end b" "n \<le> length fs"
  shows "page_rep b (cleanup_page (blk_loc b) (n - blk_zero b) pg) (take n fs)"
proof -
  let ?L = "n - blk_zero b" and ?pg = "cleanup_page (blk_loc b) (n - blk_zero b) pg"
  have c: "blk_cnt b (length (take n fs)) = ?L" using n by (simp add: blk_cnt_def min_def)
  have L: "?L \<le> blk_cnt b (length fs)" using n by (auto simp: blk_cnt_def)
  have t: "table_ok (pgSlot ?pg) (\<lambda>j. fs ! (blk_zero b + j - 1)) ?L"
    using table_ok_cut [OF page_repD(1) [OF p] L] by (simp add: cleanup_page_def wal_consts)
  show ?thesis
    unfolding page_rep_def c
  proof (intro conjI allI impI)
    show "table_ok (pgSlot ?pg) (\<lambda>j. take n fs ! (blk_zero b + j - 1)) ?L"
      by (rule table_ok_key [OF t]) (use n in auto)
  next
    fix j assume j: "j < ?L"
    then have "\<not> blk_base b + n - blk_zero b \<le> blk_base b + j" using n(1) by linarith
    then have "pgWord ?pg (blk_base b + j) = pgWord pg (blk_base b + j)" using n(1) by (simp add: cleanup_page_def)
    then show "pgWord ?pg (blk_base b + j) = take n fs ! (blk_zero b + j)"
      using page_repD(2) [OF p, of j] L n j by simp
  next
    fix k assume "blk_base b + ?L \<le> k" "k < 4096"
    then show "pgWord ?pg k = 0" by (simp add: cleanup_page_def wal_consts)
  qed
qed

lemma loc_update_page: "shmPage (loc_update m (blk_loc b) f) c = (if c = b then f (shmPage m b) else shmPage m c)"
  by (simp add: loc_update_def)

lemma shmHdr_loc_update [simp]: "shmHdr (loc_update m l f) = shmHdr m"
  by (simp add: loc_update_def)

lemma shmInfo_loc_update [simp]: "shmInfo (loc_update m l f) = shmInfo m"
  by (simp add: loc_update_def)

lemma shmInfo_cleanup [simp]: "shmInfo (walCleanupHash map_rc m w) = shmInfo m"
  by (simp add: walCleanupHash_def split: sum.splits)

lemma shmHdr_cleanup [simp]: "shmHdr (walCleanupHash map_rc m w) = shmHdr m"
  by (simp add: walCleanupHash_def split: sum.splits)

text \<open>The shared lemma of roll-back: a clean-up cuts the represented frames to the end of the log.\<close>

lemma wi_rep_cleanup:
  assumes r: "wi_rep m fs" and n: "mxFrame (hdr w) \<le> length fs" and ok: "\<And>b. map_rc b = 0"
  shows "wi_rep (walCleanupHash map_rc m w) (take (mxFrame (hdr w)) fs)"
proof (cases "mxFrame (hdr w) = 0")
  case False
  let ?n = "mxFrame (hdr w)"
  let ?b = "walFramePage ?n"
  have b: "blk_zero ?b < ?n" "?n \<le> blk_end ?b" using frame_page False by auto
  have e: "walCleanupHash map_rc m w = loc_update m (blk_loc ?b) (cleanup_page (blk_loc ?b) (?n - blk_zero ?b))"
    using False by (simp add: walCleanupHash_def walHashGet_ok ok)
  have "page_rep c (shmPage (walCleanupHash map_rc m w) c) (take ?n fs)" if c: "blk_zero c < length (take ?n fs)" for c
  proof (cases "c = ?b")
    case True
    then show ?thesis using page_rep_cut [OF wi_repD [OF r] b n] b n by (simp add: e loc_update_page)
  next
    case False
    then have "blk_end c \<le> ?n"
      using blk_zero_mono [of c ?b] blk_zero_mono [of ?b c] b c by (cases c ?b rule: linorder_cases) auto
    then show ?thesis using False page_rep_take_full [OF wi_repD [OF r] _ n] c n by (simp add: e loc_update_page)
  qed
  then show ?thesis using r by (auto simp: wi_rep_def dest: in_set_takeD)
qed (simp add: walCleanupHash_def)

lemma wi_rep_take:
  assumes "wi_rep m fs" "\<And>b. blk_zero b < n \<Longrightarrow> blk_end b \<le> n" "n \<le> length fs"
  shows "wi_rep m (take n fs)"
  using assms page_rep_take_full [OF wi_repD [OF assms(1)]] by (auto simp: wi_rep_def dest: in_set_takeD)

subsection \<open>Appending a frame\<close>

lemma page_rep_insert:
  assumes p: "page_rep b pg fs" and n: "blk_zero b \<le> length fs" "length fs < blk_end b"
    and D: "D \<le> blk_cnt b (length fs)" "pgSlot pg (chain (walHash p) D) = 0"
      "\<And>e. e < D \<Longrightarrow> 0 < pgSlot pg (chain (walHash p) e)"
  shows "page_rep b (set_entry (blk_loc b) (Suc (length fs) - blk_zero b) p (chain (walHash p) D) pg) (fs @ [p])"
proof -
  let ?n = "blk_cnt b (length fs)" and ?idx = "Suc (length fs) - blk_zero b" and ?g = "fs @ [p]"
  let ?pg = "set_entry (blk_loc b) ?idx p (chain (walHash p) D) pg"
  let ?key = "\<lambda>j. ?g ! (blk_zero b + j - 1)"
  have cn: "?n = length fs - blk_zero b" using n by (simp add: blk_cnt_def)
  have c: "blk_cnt b (length ?g) = Suc ?n" "?idx = Suc ?n" using n by (auto simp: blk_cnt_def)
  have lt: "?n < 4096" "blk_base b + ?n < 4096" using n blk_end_zero [of b] cn by linarith+
  have s: "pgSlot ?pg = (pgSlot pg)(chain (walHash p) D := Suc ?n)"
    using lt by (simp add: set_entry_def c(2))
  have w: "pgWord ?pg = (pgWord pg)(blk_base b + ?n := p)"
    using lt by (simp add: set_entry_def c(2) wal_consts and_4095)
  have t: "table_ok (pgSlot pg) ?key ?n"
    by (rule table_ok_key [OF page_repD(1) [OF p]]) (use cn in \<open>auto simp: nth_append\<close>)
  have k: "?key (Suc ?n) = p" using n cn by (simp add: nth_append)
  show ?thesis
    unfolding page_rep_def c(1) s
  proof (intro conjI allI impI)
    show "table_ok ((pgSlot pg)(chain (walHash p) D := Suc ?n)) ?key (Suc ?n)"
      by (rule table_ok_insert [OF t lt(1) _ D]) (simp only: k)
  next
    fix j assume j: "j < Suc ?n"
    show "pgWord ?pg (blk_base b + j) = ?g ! (blk_zero b + j)"
    proof (cases "j = ?n")
      case True
      then show ?thesis using n cn by (simp add: w)
    next
      case False
      then have lt: "j < ?n" "blk_base b + j \<noteq> blk_base b + ?n" "blk_zero b + j < length fs" using j cn by linarith+
      have "pgWord ?pg (blk_base b + j) = pgWord pg (blk_base b + j)" unfolding w using lt(2) by (rule fun_upd_other)
      then show ?thesis using page_repD(2) [OF p lt(1)] lt(3) by (simp add: nth_append)
    qed
  next
    fix k assume "blk_base b + Suc ?n \<le> k" "k < 4096"
    then show "pgWord ?pg k = 0" using page_repD(3) [OF p, of k] by (simp add: w)
  qed
qed

text \<open>A frame entered on a page that is in order, possibly still empty.\<close>

lemma append_on_page:
  assumes r: "\<And>b. blk_zero b < length fs \<Longrightarrow> b \<noteq> c \<Longrightarrow> page_rep b (shmPage m b) fs" "\<forall>q\<in>set fs. 0 < q"
    and c: "page_rep c (shmPage m c) fs" "blk_zero c \<le> length fs" "length fs < blk_end c" and p: "0 < p"
    and idx: "idx = Suc (length fs) - blk_zero c"
  obtains iKey where "free_slot (loc_slot m (blk_loc c)) (walHash p) idx = Some iKey"
    "wi_rep (loc_update m (blk_loc c) (set_entry (blk_loc c) idx p iKey)) (fs @ [p])"
proof -
  let ?h = "pgSlot (shmPage m c)"
  obtain D where D: "D \<le> blk_cnt c (length fs)" "?h (chain (walHash p) D) = 0" "\<And>e. e < D \<Longrightarrow> 0 < ?h (chain (walHash p) e)"
    using first_free [OF page_repD(1) [OF c(1)]] by blast
  have "blk_cnt c (length fs) \<le> idx" using c(2,3) idx by (simp add: blk_cnt_def)
  then have "D - 0 \<le> idx" using D(1) by simp
  then have "free_slot ?h (chain (walHash p) 0) idx = Some (chain (walHash p) D)"
    by (intro free_slot_chain D(2)) (use D(3) in auto)
  then have f: "free_slot ?h (walHash p) idx = Some (chain (walHash p) D)" by (simp add: chain_0)
  let ?m = "loc_update m (blk_loc c) (set_entry (blk_loc c) idx p (chain (walHash p) D))"
  have "page_rep b (shmPage ?m b) (fs @ [p])" if b: "blk_zero b < length (fs @ [p])" for b
  proof (cases "b = c")
    case True
    then show ?thesis using page_rep_insert [OF c D] idx by (simp add: loc_update_page)
  next
    case False
    then have e: "blk_end b \<le> length fs"
      using blk_zero_mono [of b c] blk_zero_mono [of c b] b c(2,3) by (cases b c rule: linorder_cases) auto
    then have z: "blk_zero b < length fs" using blk_zero_end(1) [of b] by simp
    have k: "blk_cnt b (length (fs @ [p])) = blk_cnt b (length fs)" using e by (simp add: blk_cnt_full)
    have i: "i < blk_end b \<Longrightarrow> (fs @ [p]) ! i = fs ! i" for i using e by (simp add: nth_append)
    have u: "blk_zero b + blk_cnt b (length fs) \<le> blk_end b" using blk_zero_end(1) [of b] by (auto simp: blk_cnt_def)
    note pr = r(1) [OF z False]
    have "page_rep b (shmPage m b) (fs @ [p])"
      unfolding page_rep_def k
    proof (intro conjI allI impI)
      show "table_ok (pgSlot (shmPage m b)) (\<lambda>j. (fs @ [p]) ! (blk_zero b + j - 1)) (blk_cnt b (length fs))"
        by (rule table_ok_key [OF page_repD(1) [OF pr]]) (use u in \<open>auto intro!: i [symmetric]\<close>)
    next
      fix j assume "j < blk_cnt b (length fs)"
      then show "pgWord (shmPage m b) (blk_base b + j) = (fs @ [p]) ! (blk_zero b + j)"
        using page_repD(2) [OF pr] i [of "blk_zero b + j"] u by simp
    qed (rule page_repD(3) [OF pr])
    then show ?thesis using False by (simp add: loc_update_page)
  qed
  then have "wi_rep ?m (fs @ [p])" using r(2) p by (auto simp: wi_rep_def)
  then show ?thesis using that f by simp
qed

lemma page_rep_zeroed:
  assumes "length fs = blk_zero b"
  shows "page_rep b (zero_page (blk_loc b) pg) fs"
  unfolding page_rep_def using assms
  by (auto simp: blk_cnt_def zero_page_def wal_consts intro: table_ok_empty)

lemma append_start:
  assumes r: "wi_rep m fs" and ok: "\<And>b. map_rc b = 0" and k: "k \<le> length fs"
    and e: "k = length fs \<or> k = mxFrame (hdr w)" and c: "c = walFramePage (Suc k)" and idx: "idx = Suc k - blk_zero c"
    and m1: "m1 = (if idx = 1 then loc_update m (blk_loc c) (zero_page (blk_loc c)) else m)"
    and m2: "m2 = (if loc_pgno m1 (blk_loc c) (idx - 1) \<noteq> 0 then walCleanupHash map_rc m1 w else m1)"
  shows "page_rep c (shmPage m2 c) (take k fs)" "\<And>b. blk_zero b < k \<Longrightarrow> b \<noteq> c \<Longrightarrow> page_rep b (shmPage m2 b) (take k fs)"
proof -
  have c': "blk_zero c < Suc k" "Suc k \<le> blk_end c" using frame_page [of "Suc k"] by (simp_all add: c)
  have len: "length (take k fs) = k" using k by simp
  have "page_rep c (shmPage m2 c) (take k fs) \<and> (\<forall>b. blk_zero b < k \<longrightarrow> b \<noteq> c \<longrightarrow> page_rep b (shmPage m2 b) (take k fs))"
  proof (cases "idx = 1")
    case True
    then have z: "blk_zero c = k" using idx c' by simp
    have 0: "loc_pgno m1 (blk_loc c) (idx - 1) = 0"
      using True blk_end_zero(2) [of c] by (simp add: m1 loc_update_page zero_page_def wal_consts)
    have m2': "m2 = loc_update m (blk_loc c) (zero_page (blk_loc c))" using m2 0 True by (simp add: m1)
    have "page_rep b (shmPage m b) (take k fs)" if b: "blk_zero b < k" "b \<noteq> c" for b
    proof (rule page_rep_take_full [OF wi_repD [OF r]])
      show "blk_end b \<le> k" using blk_zero_mono [of b c] blk_zero_mono [of c b] b z blk_zero_end(1) [of c]
        by (cases b c rule: linorder_cases) auto
    qed (use b k in auto)
    then show ?thesis using page_rep_zeroed [of "take k fs" c] z len by (auto simp: m2' loc_update_page)
  next
    case False
    then have z: "blk_zero c < k" and m1': "m1 = m" using idx c' by (auto simp: m1)
    have w: "wi_rep m2 (take k fs)"
    proof (cases "k = length fs")
      case True
      have "blk_base c + blk_cnt c (length fs) \<le> blk_base c + (idx - 1)" "blk_base c + (idx - 1) < 4096"
        using idx c' True blk_end_zero [of c] by (auto simp: blk_cnt_def)
      then have "loc_pgno m1 (blk_loc c) (idx - 1) = 0"
        using page_repD(3) [OF wi_repD [OF r]] z True by (simp add: m1')
      then show ?thesis using r True by (simp add: m2 m1')
    next
      case False
      then have "idx - 1 < blk_cnt c (length fs)" using idx c' k by (auto simp: blk_cnt_def)
      then have "pgWord (shmPage m c) (blk_base c + (idx - 1)) = fs ! k"
        using page_repD(2) [OF wi_repD [OF r], of c "idx - 1"] z k idx by simp
      then have "loc_pgno m1 (blk_loc c) (idx - 1) \<noteq> 0" using wi_rep_pos [OF r, of k] k False by (simp add: m1')
      then show ?thesis using wi_rep_cleanup [OF r _ ok, of w] e k False by (simp add: m2 m1')
    qed
    then show ?thesis using wi_repD [OF w] z len by simp
  qed
  then show "page_rep c (shmPage m2 c) (take k fs)" "\<And>b. blk_zero b < k \<Longrightarrow> b \<noteq> c \<Longrightarrow> page_rep b (shmPage m2 b) (take k fs)" by auto
qed

text \<open>The shared lemma of appending: frame \<open>k + 1\<close>, right behind the represented frames or behind the end of
  the log when frames of an abandoned transaction follow.\<close>

lemma walIndexAppend_rep:
  assumes r: "wi_rep m fs" and ok: "\<And>b. map_rc b = 0" and k: "k \<le> length fs" "k = length fs \<or> k = mxFrame (hdr w)" and p: "0 < p"
  obtains m' where "walIndexAppend map_rc m w (Suc k) p = (0, m')" "wi_rep m' (take k fs @ [p])" "shmHdr m' = shmHdr m"
proof -
  define c where "c = walFramePage (Suc k)"
  define idx where "idx = Suc k - blk_zero c"
  define m1 where "m1 = (if idx = 1 then loc_update m (blk_loc c) (zero_page (blk_loc c)) else m)"
  define m2 where "m2 = (if loc_pgno m1 (blk_loc c) (idx - 1) \<noteq> 0 then walCleanupHash map_rc m1 w else m1)"
  note st = append_start [where m = m and fs = fs and k = k and w = w and c = c and idx = idx and map_rc = map_rc, OF r ok k c_def idx_def m1_def m2_def]
  have c': "blk_zero c \<le> k" "k < blk_end c" using frame_page [of "Suc k"] by (simp_all add: c_def)
  have len: "length (take k fs) = k" using k by simp
  have pos: "\<forall>q\<in>set (take k fs). 0 < q" using r by (auto simp: wi_rep_def dest: in_set_takeD)
  obtain iKey where f: "free_slot (loc_slot m2 (blk_loc c)) (walHash p) idx = Some iKey"
    "wi_rep (loc_update m2 (blk_loc c) (set_entry (blk_loc c) idx p iKey)) (take k fs @ [p])"
    by (rule append_on_page [where fs = "take k fs" and m = m2 and c = c and p = p and idx = idx])
       (use st pos len c' p in \<open>simp_all add: idx_def\<close>)
  have e: "walIndexAppend map_rc m w (Suc k) p
      = (case free_slot (loc_slot m2 (blk_loc c)) (walHash p) idx of None \<Rightarrow> (SQLITE_CORRUPT, m2)
         | Some iKey \<Rightarrow> (0, loc_update m2 (blk_loc c) (set_entry (blk_loc c) idx p iKey)))"
    unfolding walIndexAppend_def walHashGet_ok [of map_rc, OF ok] c_def [symmetric] sum.case Let_def blk_loc_simps(3)
      idx_def [symmetric] m1_def [symmetric] m2_def [symmetric] ..
  have h: "shmHdr m2 = shmHdr m" by (simp add: m2_def m1_def)
  show ?thesis by (rule that [OF _ f(2)]) (simp_all only: e f(1) option.case h shmHdr_loc_update)
qed

subsection \<open>Searching the index\<close>

lemma last_frame_below: "n < minF \<Longrightarrow> last_frame pg minF p n = 0"
  by (cases n) auto

lemma last_frame_split:
  assumes "z \<le> n"
  shows "last_frame pg minF p n
    = (if last_frame pg (max minF (Suc z)) p n \<noteq> 0 then last_frame pg (max minF (Suc z)) p n else last_frame pg minF p z)"
  using assms
proof (induction n)
  case (Suc n)
  show ?case
  proof (cases "z = Suc n")
    case True
    then show ?thesis using last_frame_below [of "Suc n" "max minF (Suc z)" pg p] by simp
  next
    case False
    then have z: "z \<le> n" using Suc.prems by simp
    consider "Suc n < minF" | "\<not> Suc n < minF" "pg (Suc n) = p" | "\<not> Suc n < minF" "pg (Suc n) \<noteq> p" by blast
    then show ?thesis
    proof cases
      case 1
      then show ?thesis using z last_frame_below [of "Suc n" minF pg p] last_frame_below [of z minF pg p]
          last_frame_below [of "Suc n" "max minF (Suc z)" pg p] by simp
    next
      case 2
      moreover have "\<not> Suc n < max minF (Suc z)" using 2(1) z by simp
      ultimately show ?thesis by simp
    next
      case 3
      then have "\<not> Suc n < max minF (Suc z)" using z by simp
      with 3 have "last_frame pg minF p (Suc n) = last_frame pg minF p n"
        "last_frame pg (max minF (Suc z)) p (Suc n) = last_frame pg (max minF (Suc z)) p n" by simp_all
      then show ?thesis using Suc.IH [OF z] by simp
    qed
  qed
qed simp

lemma find_in_page:
  assumes r: "wi_rep m fs" and l: "iLast \<le> length fs" and b: "blk_zero b < iLast"
  shows "find_in_table m (blk_loc b) iLast minF p (walHash p) 0 HASHTABLE_NSLOT
    = Inr (last_frame (\<lambda>f. fs ! (f - 1)) (max minF (Suc (blk_zero b))) p (min iLast (blk_end b)))"
proof -
  let ?n = "blk_cnt b (length fs)" and ?key = "\<lambda>j. fs ! (blk_zero b + j - 1)"
  have "blk_zero b < length fs" using b l by simp
  note pr = wi_repD [OF r this]
  have "min iLast (blk_zero b + ?n) = min iLast (blk_end b)" using b l blk_zero_end(1) [of b] by (auto simp: blk_cnt_def min_def)
  moreover have "find_in_table m (blk_loc b) iLast minF p (walHash p) 0 HASHTABLE_NSLOT
      = Inr (last_frame (\<lambda>f. ?key (f - iZero (blk_loc b))) (max minF (Suc (iZero (blk_loc b)))) p (min iLast (iZero (blk_loc b) + ?n)))"
    by (rule find_in_table_ok) (use page_repD(1,2) [OF pr] in simp_all)
  moreover have "last_frame (\<lambda>f. ?key (f - blk_zero b)) (max minF (Suc (blk_zero b))) p N
      = last_frame (\<lambda>f. fs ! (f - 1)) (max minF (Suc (blk_zero b))) p N" for N
    by (rule last_frame_cong) simp
  ultimately show ?thesis by simp
qed

lemma find_in_tables_rep:
  assumes r: "wi_rep m fs" and ok: "\<And>b. map_rc b = 0" and l: "iLast \<le> length fs"
  shows "blk_zero b < iLast \<Longrightarrow> find_in_tables map_rc m iLast minF p (rev [walFramePage minF ..< Suc b])
    = Inr (last_frame (\<lambda>f. fs ! (f - 1)) minF p (min iLast (blk_end b)))"
proof (induction b)
  case 0
  have s: "last_frame (\<lambda>f. fs ! (f - 1)) minF p n = last_frame (\<lambda>f. fs ! (f - 1)) (max minF (Suc 0)) p n" for n
    using last_frame_split [of 0 n "\<lambda>f. fs ! (f - 1)" minF p] by simp
  show ?case
  proof (cases "walFramePage minF = 0")
    case True
    then have "rev [walFramePage minF ..< Suc 0] = [0]" by simp
    then show ?thesis using find_in_page [OF r l 0, of minF p] s [of "min iLast (blk_end 0)"] by (simp add: walHashGet_ok ok blk_zero_def)
  next
    case False
    then have "0 < minF" by (auto simp: walFramePage_eq)
    then have "blk_end 0 < minF" using frame_page(1) [of minF] blk_zero_mono [of 0 "walFramePage minF"] False by simp
    then show ?thesis using False last_frame_below [of "min iLast (blk_end 0)" minF "\<lambda>f. fs ! (f - 1)" p] by simp
  qed
next
  case (Suc b)
  let ?pg = "\<lambda>f. fs ! (f - 1)"
  have z: "blk_end b < iLast" "blk_zero b < iLast" using Suc.prems blk_zero_end(1) [of b] by (simp_all add: blk_end_Suc)
  show ?case
  proof (cases "walFramePage minF \<le> Suc b")
    case True
    then have e: "rev [walFramePage minF ..< Suc (Suc b)] = Suc b # rev [walFramePage minF ..< Suc b]" by simp
    have le: "blk_end b \<le> min iLast (blk_end (Suc b))" using z blk_end_mono [of b "Suc b"] by simp
    show ?thesis
      using Suc.IH [OF z(2)] find_in_page [OF r l Suc.prems, of minF p] last_frame_split [OF le, of ?pg minF p] z
      by (simp add: e walHashGet_ok ok blk_end_Suc del: upt_Suc)
  next
    case False
    then have "0 < minF" by (auto simp: walFramePage_eq intro: gr0I)
    then have "blk_end (Suc b) < minF" using frame_page(1) [of minF] blk_zero_mono [of "Suc b" "walFramePage minF"] False by simp
    then show ?thesis using False last_frame_below [of "min iLast (blk_end (Suc b))" minF ?pg p] by simp
  qed
qed

lemma walFindFrame_rep:
  assumes "wi_rep m fs" "\<And>b. map_rc b = 0" "mxFrame (hdr w) \<le> length fs" "readLock w \<noteq> 0 \<or> bShmUnreliable w"
  shows "walFindFrame map_rc m w p = Inr (last_frame (\<lambda>f. fs ! (f - 1)) (minFrame w) p (mxFrame (hdr w)))"
proof (cases "mxFrame (hdr w) = 0")
  case False
  then have f: "blk_zero (walFramePage (mxFrame (hdr w))) < mxFrame (hdr w)" "min (mxFrame (hdr w)) (blk_end (walFramePage (mxFrame (hdr w)))) = mxFrame (hdr w)"
    using frame_page [of "mxFrame (hdr w)"] by auto
  show ?thesis using find_in_tables_rep [where map_rc = map_rc and minF = "minFrame w" and p = p, OF assms(1,2,3) f(1)] False assms(4) f(2)
    by (auto simp: walFindFrame_def Let_def)
qed (simp add: walFindFrame_def)

lemma walFindFrame_linear:
  assumes "wi_rep m fs" "\<And>b. map_rc b = 0" "mxFrame (hdr w) \<le> length fs" "readLock w \<noteq> 0 \<or> bShmUnreliable w"
  shows "walFindFrame map_rc m w p = Inr (linear_search m (minFrame w) p (mxFrame (hdr w)))"
proof -
  have "last_frame (walFramePgno m) (minFrame w) p (mxFrame (hdr w)) = last_frame (\<lambda>f. fs ! (f - 1)) (minFrame w) p (mxFrame (hdr w))"
    by (rule last_frame_cong) (use walFramePgno_rep [OF assms(1)] assms(3) in simp)
  then show ?thesis using walFindFrame_rep [OF assms] by (simp add: linear_search_last_frame)
qed

subsection \<open>The life of a log\<close>

text \<open>
  What happens to the shared index, as events of the one writer there can be at a time: \<open>EFrames\<close> is a call
  of \<open>walFrames\<close> that enters pages, for a commit or not; \<open>EDied\<close> a writer that enters pages and exits
  before it moves the end of the log, and the next writer, which starts from the shared header (with no
  pages, simply the end of one write transaction and the start of another); \<open>EUndo\<close> and
  \<open>ESavepointUndo\<close> are the roll-backs, \<open>ERestart\<close> starts the log over.
\<close>

datatype wal_event = EFrames "nat list" nat nat bool | EDied "nat list" Wal | EUndo "nat \<Rightarrow> nat"
  | ESavepointUndo wal_savepoint | ERestart bytes

fun wal_exec :: "(nat \<Rightarrow> nat) \<Rightarrow> wal_event \<Rightarrow> wal_shm \<times> Wal \<Rightarrow> nat \<times> wal_shm \<times> Wal" where
  "wal_exec map_rc (EFrames pages szPage nTruncate isCommit) (m, w) = index_frames map_rc m w pages szPage nTruncate isCommit"
| "wal_exec map_rc (EDied pages w') (m, w) =
     (case append_pages map_rc m w (mxFrame (hdr w)) pages of (rc, _, m) \<Rightarrow> (rc, m, w'\<lparr>hdr := shmHdr m\<rparr>))"
| "wal_exec map_rc (EUndo xUndo) (m, w) = (case sqlite3WalUndo map_rc xUndo m (w\<lparr>writeLock := True\<rparr>) of ((rc, _), m, w) \<Rightarrow> (rc, m, w))"
| "wal_exec map_rc (ESavepointUndo d) (m, w) = (case sqlite3WalSavepointUndo map_rc m w d of (_, m, w) \<Rightarrow> (0, m, w))"
| "wal_exec map_rc (ERestart salt1) (m, w) = (case walRestartHdr m w salt1 of (m, w) \<Rightarrow> (0, m, w))"

text \<open>The abstract log: the pages of the committed frames, and those of the transaction under way.\<close>

type_synonym wal_log = "nat list \<times> nat list"

definition savepoint_mx :: "wal_savepoint \<Rightarrow> Wal \<Rightarrow> nat" where
  "savepoint_mx d w = (case d of (mx, _, nc) \<Rightarrow> if nc \<noteq> nCkpt w then 0 else mx)"

fun wal_abs :: "wal_event \<Rightarrow> Wal \<Rightarrow> wal_log \<Rightarrow> wal_log" where
  "wal_abs (EFrames pages _ _ isCommit) w (cs, ps) = (if isCommit then (cs @ ps @ pages, []) else (cs, ps @ pages))"
| "wal_abs (EDied pages w') w (cs, ps) = (cs, [])"
| "wal_abs (EUndo xUndo) w (cs, ps) = (cs, [])"
| "wal_abs (ESavepointUndo d) w (cs, ps) = (cs, take (savepoint_mx d w - length cs) ps)"
| "wal_abs (ERestart salt1) w (cs, ps) = ([], [])"

text \<open>Which events the pager makes: page numbers are positive, a log has fewer than \<open>2 ^ 32 - 4096\<close> frames,
  the roll-back function succeeds, a savepoint belongs to the transaction, and the log is started over
  between transactions only.\<close>

fun wal_valid :: "wal_event \<Rightarrow> Wal \<Rightarrow> wal_log \<Rightarrow> bool" where
  "wal_valid (EFrames pages _ _ _) w (cs, ps) \<longleftrightarrow> list_all (\<lambda>p. 0 < p) pages \<and> length cs + length ps + length pages < 2 ^ 32 - 4096"
| "wal_valid (EDied pages w') w (cs, ps) \<longleftrightarrow> list_all (\<lambda>p. 0 < p) pages \<and> length cs + length ps + length pages < 2 ^ 32 - 4096"
| "wal_valid (EUndo xUndo) w (cs, ps) \<longleftrightarrow> list_all (\<lambda>p. xUndo p = 0) ps"
| "wal_valid (ESavepointUndo d) w (cs, ps) \<longleftrightarrow> length cs \<le> savepoint_mx d w"
| "wal_valid (ERestart salt1) w (cs, ps) \<longleftrightarrow> ps = []"

inductive wal_reach :: "(nat \<Rightarrow> nat) \<Rightarrow> wal_shm \<times> Wal \<Rightarrow> wal_log \<Rightarrow> bool" for map_rc where
  start: "mxFrame (shmHdr m) = 0 \<Longrightarrow> hdr w = shmHdr m \<Longrightarrow> wal_reach map_rc (m, w) ([], [])"
| event: "wal_reach map_rc s l \<Longrightarrow> wal_valid e (snd s) l \<Longrightarrow> wal_reach map_rc (snd (wal_exec map_rc e s)) (wal_abs e (snd s) l)"

text \<open>The simulation: the shared header ends at the last committed frame, the writer's at the last frame of
  its transaction, and the index represents these frames and perhaps the remains of an abandoned
  transaction behind them.\<close>

definition wal_sim :: "wal_shm \<times> Wal \<Rightarrow> wal_log \<Rightarrow> bool" where
  "wal_sim s l \<longleftrightarrow> (case s of (m, w) \<Rightarrow> case l of (cs, ps) \<Rightarrow>
     mxFrame (shmHdr m) = length cs \<and> mxFrame (hdr w) = length cs + length ps \<and> (\<exists>rest. wi_rep m (cs @ ps @ rest)))"

lemma append_pages_rep:
  assumes ok: "\<And>b. map_rc b = 0"
  shows "wi_rep m fs \<Longrightarrow> k \<le> length fs \<Longrightarrow> k = length fs \<or> k = mxFrame (hdr w) \<Longrightarrow> \<forall>p\<in>set ps. 0 < p \<Longrightarrow>
    \<exists>m' rest. append_pages map_rc m w k ps = (0, k + length ps, m') \<and> wi_rep m' (take k fs @ ps @ rest) \<and> shmHdr m' = shmHdr m"
proof (induction ps arbitrary: m fs k)
  case Nil
  then show ?case by (intro exI [of _ m] exI [of _ "drop k fs"]) simp
next
  case (Cons p ps)
  obtain m1 where m1: "walIndexAppend map_rc m w (Suc k) p = (0, m1)" "wi_rep m1 (take k fs @ [p])" "shmHdr m1 = shmHdr m"
    using walIndexAppend_rep [where map_rc = map_rc, OF Cons.prems(1) ok Cons.prems(2,3)] Cons.prems(4) by auto
  have len: "length (take k fs @ [p]) = Suc k" using Cons.prems(2) by simp
  have "\<exists>m' rest. append_pages map_rc m1 w (Suc k) ps = (0, Suc k + length ps, m')
      \<and> wi_rep m' (take (Suc k) (take k fs @ [p]) @ ps @ rest) \<and> shmHdr m' = shmHdr m1"
    by (rule Cons.IH [OF m1(2)]) (use len Cons.prems(4) in simp_all)
  then obtain m' rest where "append_pages map_rc m1 w (Suc k) ps = (0, Suc k + length ps, m')"
    "wi_rep m' (take (Suc k) (take k fs @ [p]) @ ps @ rest)" "shmHdr m' = shmHdr m1" by blast
  then show ?case using m1 Cons.prems(2) len by (intro exI [of _ m'] exI [of _ rest]) simp
qed

lemma undo_pages_ok: "(\<And>i. i \<in> set is' \<Longrightarrow> xUndo (walFramePgno m i) = 0) \<Longrightarrow> undo_pages xUndo m is' = (0, map (walFramePgno m) is')"
  by (induction is') (simp_all add: Let_def)

lemma wal_sim_frames:
  assumes s: "wal_sim (m, w) (cs, ps)" and ok: "\<And>b. map_rc b = 0" and p: "\<forall>p\<in>set pages. 0 < p"
  shows "\<exists>m' rest. append_pages map_rc m w (mxFrame (hdr w)) pages = (0, length cs + length ps + length pages, m')
    \<and> wi_rep m' (cs @ ps @ pages @ rest) \<and> shmHdr m' = shmHdr m"
proof -
  obtain rest where r: "wi_rep m (cs @ ps @ rest)" and mx: "mxFrame (hdr w) = length cs + length ps"
    using s by (auto simp: wal_sim_def)
  show ?thesis using append_pages_rep [where map_rc = map_rc, OF ok r, of "mxFrame (hdr w)" w pages] mx p by simp
qed

lemma wal_sim_event:
  assumes s: "wal_sim (m, w) (cs, ps)" and v: "wal_valid e w (cs, ps)" and ok: "\<And>b. map_rc b = 0"
  shows "fst (wal_exec map_rc e (m, w)) = 0 \<and> wal_sim (snd (wal_exec map_rc e (m, w))) (wal_abs e w (cs, ps))"
proof (cases e)
  case (EFrames pages szPage nTruncate isCommit)
  then have "\<forall>p\<in>set pages. 0 < p" using v by (simp add: list_all_iff)
  from wal_sim_frames [where map_rc = map_rc, OF s ok this] obtain m' rest where
    m': "append_pages map_rc m w (mxFrame (hdr w)) pages = (0, length cs + length ps + length pages, m')"
    "wi_rep m' (cs @ ps @ pages @ rest)" "shmHdr m' = shmHdr m" by blast
  have h: "mxFrame (shmHdr m) = length cs" using s by (simp add: wal_sim_def)
  show ?thesis
  proof (cases isCommit)
    case True
    have "wi_rep (m'\<lparr>shmHdr := h\<rparr>) (cs @ ps @ pages @ rest)" for h using m'(2) by (simp add: wi_rep_def)
    then show ?thesis using m'(1) True by (auto simp: EFrames index_frames_def Let_def wal_sim_def walIndexWriteHdr_def)
  next
    case False
    then show ?thesis using m' h by (auto simp: EFrames index_frames_def Let_def wal_sim_def)
  qed
next
  case (EDied pages w')
  then have "\<forall>p\<in>set pages. 0 < p" using v by (simp add: list_all_iff)
  from wal_sim_frames [where map_rc = map_rc, OF s ok this] obtain m' rest where
    m': "append_pages map_rc m w (mxFrame (hdr w)) pages = (0, length cs + length ps + length pages, m')"
    "wi_rep m' (cs @ ps @ pages @ rest)" "shmHdr m' = shmHdr m" by blast
  then show ?thesis using s by (auto simp: EDied wal_sim_def intro!: exI [of _ "ps @ pages @ rest"])
next
  case (EUndo xUndo)
  obtain rest where r: "wi_rep m (cs @ ps @ rest)" and mx: "mxFrame (hdr w) = length cs + length ps" "mxFrame (shmHdr m) = length cs"
    using s by (auto simp: wal_sim_def)
  let ?w = "w\<lparr>writeLock := True, hdr := shmHdr m\<rparr>"
  have "xUndo (walFramePgno m i) = 0" if "i \<in> set [length cs + 1 ..< length cs + length ps + 1]" for i
  proof -
    have i: "length cs < i" "i \<le> length cs + length ps" using that by auto
    then have j: "\<not> i - 1 < length cs" "i - 1 - length cs < length ps" by linarith+
    have "walFramePgno m i = (cs @ ps @ rest) ! (i - 1)" by (rule walFramePgno_rep [OF r]) (use i in auto)
    also have "\<dots> = ps ! (i - 1 - length cs)" using j by (simp only: nth_append if_False if_True)
    finally have "walFramePgno m i = ps ! (i - 1 - length cs)" .
    then show ?thesis using v i by (simp add: EUndo list_all_length)
  qed
  then have u: "fst (undo_pages xUndo m [length cs + 1 ..< length cs + length ps + 1]) = 0" by (subst undo_pages_ok) auto
  have c: "wi_rep (walCleanupHash map_rc m ?w) cs" using wi_rep_cleanup [where map_rc = map_rc, OF r _ ok, of ?w] mx by simp
  have "\<exists>rest. wi_rep (if mxFrame (hdr w) \<noteq> mxFrame (shmHdr m) then walCleanupHash map_rc m ?w else m) (cs @ rest)"
    using r c mx by (auto intro: exI [of _ "[]"])
  then show ?thesis using mx u
    by (auto simp: EUndo wal_sim_def sqlite3WalUndo_def Let_def split: prod.splits)
next
  case (ESavepointUndo d)
  obtain mx ck nc where d: "d = (mx, ck, nc)" by (cases d)
  let ?mx = "savepoint_mx d w"
  obtain rest where r: "wi_rep m (cs @ ps @ rest)" and h: "mxFrame (hdr w) = length cs + length ps" "mxFrame (shmHdr m) = length cs"
    using s by (auto simp: wal_sim_def)
  have le: "length cs \<le> ?mx" using v by (simp add: ESavepointUndo)
  show ?thesis
  proof (cases "?mx < mxFrame (hdr w)")
    case True
    let ?w = "w\<lparr>hdr := (hdr w)\<lparr>mxFrame := ?mx, aFrameCksum := ck\<rparr>\<rparr>"
    have t: "take ?mx (cs @ ps @ rest) = cs @ take (?mx - length cs) ps" using le True h by simp
    have c: "wi_rep (walCleanupHash map_rc m ?w) (cs @ take (?mx - length cs) ps)"
      using wi_rep_cleanup [where map_rc = map_rc, OF r _ ok, of ?w] True h t by simp
    have "snd (wal_exec map_rc e (m, w)) = (walCleanupHash map_rc m ?w, if iReCksum ?w > ?mx then ?w\<lparr>iReCksum := 0\<rparr> else ?w)"
      "fst (wal_exec map_rc e (m, w)) = 0"
      using True by (cases "nc = nCkpt w"; simp add: ESavepointUndo d sqlite3WalSavepointUndo_def savepoint_mx_def Let_def)+
    then show ?thesis using c h le True by (auto simp: wal_sim_def ESavepointUndo min_def intro!: exI [of _ "[]"])
  next
    case False
    have "snd (wal_exec map_rc e (m, w)) = (m, w)" "fst (wal_exec map_rc e (m, w)) = 0"
      using False by (cases "nc = nCkpt w"; simp add: ESavepointUndo d sqlite3WalSavepointUndo_def savepoint_mx_def Let_def)+
    then show ?thesis using s h False by (simp add: ESavepointUndo)
  qed
next
  case (ERestart salt1)
  then show ?thesis by (auto simp: wal_sim_def walRestartHdr_def walIndexWriteHdr_def Let_def intro!: exI [of _ "[]"])
qed

lemma wal_reach_sim:
  assumes "wal_reach map_rc s l" "\<And>b. map_rc b = 0"
  shows "wal_sim s l"
  using assms(1)
proof induction
  case (start m w)
  then show ?case by (auto simp: wal_sim_def intro!: exI [of _ "[]"])
next
  case (event s l e)
  then show ?case using wal_sim_event [where map_rc = map_rc, OF _ _ assms(2)] by (cases s; cases l) auto
qed

lemma wal_sim_find:
  assumes "wal_sim (m, w) (cs, ps)" "\<And>b. map_rc b = 0" "mxFrame (hdr c) \<le> length (cs @ ps)" "readLock c \<noteq> 0 \<or> bShmUnreliable c"
  shows "walFindFrame map_rc m c p = Inr (last_frame (\<lambda>f. (cs @ ps) ! (f - 1)) (minFrame c) p (mxFrame (hdr c)))"
proof -
  obtain rest where r: "wi_rep m ((cs @ ps) @ rest)" using assms(1) by (auto simp: wal_sim_def)
  have "walFindFrame map_rc m c p = Inr (last_frame (\<lambda>f. ((cs @ ps) @ rest) ! (f - 1)) (minFrame c) p (mxFrame (hdr c)))"
    by (rule walFindFrame_rep [OF r assms(2)]) (use assms(3,4) in auto)
  also have "last_frame (\<lambda>f. ((cs @ ps) @ rest) ! (f - 1)) (minFrame c) p (mxFrame (hdr c))
      = last_frame (\<lambda>f. (cs @ ps) ! (f - 1)) (minFrame c) p (mxFrame (hdr c))"
    by (rule last_frame_cong) (use assms(3) in \<open>simp only: nth_append length_append, auto\<close>)
  finally show ?thesis .
qed

subsection \<open>Readers and writers\<close>

text \<open>A run of events without a restart of the log; \<open>None\<close> when an event is not one the pager makes.\<close>

fun is_restart :: "wal_event \<Rightarrow> bool" where
  "is_restart (ERestart _) = True"
| "is_restart _ = False"

fun wal_run :: "(nat \<Rightarrow> nat) \<Rightarrow> wal_event list \<Rightarrow> (wal_shm \<times> Wal) \<times> wal_log \<Rightarrow> ((wal_shm \<times> Wal) \<times> wal_log) option" where
  "wal_run map_rc [] x = Some x"
| "wal_run map_rc (e # es) (s, l) =
     (if wal_valid e (snd s) l \<and> \<not> is_restart e
      then wal_run map_rc es (snd (wal_exec map_rc e s), wal_abs e (snd s) l) else None)"

lemma wal_abs_prefix: "\<not> is_restart e \<Longrightarrow> \<exists>more. fst (wal_abs e w (cs, ps)) = cs @ more"
  by (cases e) auto

lemma wal_run_reach:
  "wal_reach map_rc s l \<Longrightarrow> wal_run map_rc es (s, l) = Some (s', l') \<Longrightarrow>
    wal_reach map_rc s' l' \<and> (\<exists>more. fst l' = fst l @ more)"
proof (induction es arbitrary: s l)
  case (Cons e es)
  then have e: "wal_valid e (snd s) l" "\<not> is_restart e"
    "wal_run map_rc es (snd (wal_exec map_rc e s), wal_abs e (snd s) l) = Some (s', l')" by (auto split: if_splits)
  obtain more where "fst (wal_abs e (snd s) l) = fst l @ more" using wal_abs_prefix [OF e(2), of "snd s" "fst l" "snd l"] by auto
  then show ?case using Cons.IH [OF wal_reach.event [OF Cons.prems(1) e(1)] e(3)] by auto
qed simp

lemma wal_reader:
  assumes "wal_reach map_rc (m, w) (cs, ps)" "\<And>b. map_rc b = 0" "mxFrame (hdr c) \<le> length cs"
  shows "walFindFrame map_rc m c p = (if mxFrame (hdr c) = 0 \<or> (readLock c = 0 \<and> \<not> bShmUnreliable c) then Inr 0
    else Inr (last_frame (\<lambda>f. cs ! (f - 1)) (minFrame c) p (mxFrame (hdr c))))"
proof (cases "mxFrame (hdr c) = 0 \<or> (readLock c = 0 \<and> \<not> bShmUnreliable c)")
  case False
  then have "walFindFrame map_rc m c p = Inr (last_frame (\<lambda>f. (cs @ ps) ! (f - 1)) (minFrame c) p (mxFrame (hdr c)))"
    by (intro wal_sim_find [OF wal_reach_sim [OF assms(1,2)] assms(2)]) (use assms(3) in auto)
  also have "last_frame (\<lambda>f. (cs @ ps) ! (f - 1)) (minFrame c) p (mxFrame (hdr c))
      = last_frame (\<lambda>f. cs ! (f - 1)) (minFrame c) p (mxFrame (hdr c))"
    by (rule last_frame_cong) (use assms(3) in \<open>auto simp: nth_append\<close>)
  finally show ?thesis unfolding if_not_P [OF False] .
qed (simp add: walFindFrame_def)

text \<open>A small log for the witnesses: one transaction that writes page 5, page 7 and page 5 again, and a reader
  that has seen it.\<close>

definition demo_hdr :: "nat \<Rightarrow> WalIndexHdr" where
  "demo_hdr mx = \<lparr>iChange = 0, bigEndCksum = False, szPage16 = 0, mxFrame = mx, nPage = 0, aFrameCksum = (0, 0), aSalt = []\<rparr>"

definition demo_shm :: wal_shm where
  "demo_shm = \<lparr>shmPage = (\<lambda>_. \<lparr>pgWord = (\<lambda>_. 0), pgSlot = (\<lambda>_. 0)\<rparr>), shmHdr = demo_hdr 0,
     shmInfo = \<lparr>nBackfill = 0, aReadMark = [0, 0, 0, 0, 0], nBackfillAttempted = 0\<rparr>\<rparr>"

definition demo_conn :: "nat \<Rightarrow> Wal" where
  "demo_conn mx = \<lparr>hdr = demo_hdr mx, minFrame = 1, readLock = 1, bShmUnreliable = False, writeLock = False, iReCksum = 0, nCkpt = 0,
     szPageWal = 1024, syncHeader = True, padToSectorBoundary = False, truncateOnCommit = False, mxWalSize = -1\<rparr>"

definition demo_commit :: wal_event where "demo_commit = EFrames [5, 7, 5] 1024 7 True"

definition demo_state :: "wal_shm \<times> Wal" where
  "demo_state = snd (wal_exec (\<lambda>_. 0) demo_commit (demo_shm, demo_conn 0))"

lemma demo_reach: "wal_reach (\<lambda>_. 0) (fst demo_state, snd demo_state) ([5, 7, 5], [])"
proof -
  have "wal_reach (\<lambda>_. 0) (demo_shm, demo_conn 0) ([], [])"
    by (rule wal_reach.start) (simp_all add: demo_shm_def demo_conn_def demo_hdr_def)
  from wal_reach.event [OF this, of demo_commit] show ?thesis
    by (simp add: demo_commit_def demo_state_def)
qed

text \<open>C1: In every state of the log that the writers can produce, whatever was committed, rolled back, abandoned
  by a writer that died or started over before, the search of the hash tables by any connection returns
  exactly the last frame at or before the end of its snapshot that holds the page (and is not before
  \<open>minFrame\<close>), or 0 when there is none; it reports no corruption.\<close>

theorem WalFindFrame_finds_last_write:
  assumes "wal_reach map_rc (m, w) (cs, ps)" "\<forall>b. map_rc b = 0"
    and "mxFrame (hdr c) \<le> length (cs @ ps)" "readLock c \<noteq> 0 \<or> bShmUnreliable c"
  shows "walFindFrame map_rc m c p = Inr (last_frame (\<lambda>f. (cs @ ps) ! (f - 1)) (minFrame c) p (mxFrame (hdr c)))"
  using wal_sim_find [OF wal_reach_sim [OF assms(1)]] assms(2,3,4) by blast

theorem WalFindFrame_finds_last_write_witness:
  "walFindFrame (\<lambda>_. 0) (fst demo_state) (demo_conn 3) 5 = Inr 3 \<and> walFindFrame (\<lambda>_. 0) (fst demo_state) (demo_conn 2) 5 = Inr 1"
  using WalFindFrame_finds_last_write [OF demo_reach, of "demo_conn 3" 5] WalFindFrame_finds_last_write [OF demo_reach, of "demo_conn 2" 5]
  by (simp add: demo_conn_def demo_hdr_def eval_nat_numeral)

text \<open>C2: Snapshot isolation: whatever the writers do to the shared index, commits, spills, roll-backs and deaths
  included, as long as the log is not started over, a reader that opened its snapshot at a committed frame
  gets the same frame for every page before and after.\<close>

theorem Snapshot_is_stable:
  assumes "wal_reach map_rc (m, w) (cs, ps)" "\<forall>b. map_rc b = 0" "mxFrame (hdr c) \<le> length cs"
    and "wal_run map_rc es ((m, w), (cs, ps)) = Some ((m', w'), l')"
  shows "walFindFrame map_rc m' c p = walFindFrame map_rc m c p"
proof -
  obtain cs' ps' where l': "l' = (cs', ps')" by (cases l')
  obtain more where r: "wal_reach map_rc (m', w') (cs', ps')" "cs' = cs @ more"
    using wal_run_reach [OF assms(1,4)] by (auto simp: l')
  have "last_frame (\<lambda>f. cs' ! (f - 1)) (minFrame c) p (mxFrame (hdr c)) = last_frame (\<lambda>f. cs ! (f - 1)) (minFrame c) p (mxFrame (hdr c))"
    by (rule last_frame_cong) (use r(2) assms(3) in \<open>auto simp: nth_append\<close>)
  then show ?thesis using wal_reader [OF assms(1), of c p] wal_reader [OF r(1), of c p] assms(2,3) r(2) by simp
qed

theorem Snapshot_is_stable_witness:
  "case wal_run (\<lambda>_. 0) [EFrames [5, 9] 1024 9 True, EDied [7] (demo_conn 0)] (demo_state, ([5, 7, 5], [])) of
     None \<Rightarrow> False
   | Some ((m', w'), l') \<Rightarrow> walFindFrame (\<lambda>_. 0) m' (demo_conn 3) 5 = walFindFrame (\<lambda>_. 0) (fst demo_state) (demo_conn 3) 5"
proof -
  obtain m' w' l' where r: "wal_run (\<lambda>_. 0) [EFrames [5, 9] 1024 9 True, EDied [7] (demo_conn 0)] (demo_state, ([5, 7, 5], [])) = Some ((m', w'), l')"
    by (simp del: wal_exec.simps) (metis prod.collapse)
  then have "wal_run (\<lambda>_. 0) [EFrames [5, 9] 1024 9 True, EDied [7] (demo_conn 0)] ((fst demo_state, snd demo_state), ([5, 7, 5], [])) = Some ((m', w'), l')"
    by (simp only: prod.collapse)
  from Snapshot_is_stable [OF demo_reach _ _ this, of "demo_conn 3" 5] r show ?thesis
    by (simp add: demo_conn_def demo_hdr_def del: wal_run.simps)
qed

text \<open>C19: No event the pager makes fails on the index: on a log that the writers produced, \<open>walIndexAppend\<close>
  always finds a free slot within the collisions it tolerates, so that it never reports a corrupt index.\<close>

theorem WalIndexAppend_never_corrupt:
  assumes "wal_reach map_rc s l" "\<forall>b. map_rc b = 0" "wal_valid e (snd s) l"
  shows "fst (wal_exec map_rc e s) = 0"
proof -
  obtain m w cs ps where s: "s = (m, w)" "l = (cs, ps)" by (cases s; cases l)
  have "wal_sim (m, w) (cs, ps)" using wal_reach_sim [OF assms(1)] assms(2) by (simp add: s)
  then show ?thesis using wal_sim_event [of m w cs ps e map_rc] assms(2,3) by (simp add: s)
qed

theorem WalIndexAppend_never_corrupt_witness:
  "fst (wal_exec (\<lambda>_. 0) (EDied [7, 9] (demo_conn 0)) demo_state) = 0"
  using WalIndexAppend_never_corrupt [OF demo_reach, of "EDied [7, 9] (demo_conn 0)"] by simp

text \<open>C20: The search by hash agrees with the linear search of the page numbers that the code uses to check it
  (the assertion at the end of \<open>walFindFrame\<close> cannot fail).\<close>

theorem WalFindFrame_is_linear_search:
  assumes "wal_reach map_rc (m, w) (cs, ps)" "\<forall>b. map_rc b = 0"
    and "mxFrame (hdr c) \<le> length (cs @ ps)" "readLock c \<noteq> 0 \<or> bShmUnreliable c"
  shows "walFindFrame map_rc m c p = Inr (linear_search m (minFrame c) p (mxFrame (hdr c)))"
proof -
  obtain rest where "wi_rep m (cs @ ps @ rest)" using wal_reach_sim [OF assms(1)] assms(2) by (auto simp: wal_sim_def)
  then show ?thesis by (rule walFindFrame_linear) (use assms(2,3,4) in auto)
qed

theorem WalFindFrame_is_linear_search_witness:
  "walFindFrame (\<lambda>_. 0) (fst demo_state) (demo_conn 3) 5 = Inr (linear_search (fst demo_state) 1 5 3)"
  using WalFindFrame_is_linear_search [OF demo_reach, of "demo_conn 3" 5] by (simp add: demo_conn_def demo_hdr_def)

end
