(* ===== verification/Wal_Iterator.thy ===== *)
theory Wal_Iterator
  imports Wal_Index
begin

section \<open>The frames of the log in page order (wal.c)\<close>

text \<open>
  A checkpoint goes through the log in the order of the database pages. For every page of the wal-index an
  array of the frames it holds is sorted by page number with a merge sort that drops all but the last frame
  of a page; the iterator merges these arrays. An array is a list here: the sub-lists that \<open>walMergesort\<close>
  keeps are disjoint slices of \<open>aList\<close>, and \<open>walMerge\<close> copies its result over the two slices it was given.
\<close>

text \<open>The loop of \<open>walMerge\<close> on what is left of the two lists.\<close>

function (sequential) walMerge :: "(nat \<Rightarrow> nat) \<Rightarrow> nat list \<Rightarrow> nat list \<Rightarrow> nat list" where
  "walMerge aContent [] [] = []"
| "walMerge aContent aLeft aRight =
     (if aLeft \<noteq> [] \<and> (aRight = [] \<or> aContent (hd aLeft) < aContent (hd aRight))
      then hd aLeft # walMerge aContent
             (if tl aLeft \<noteq> [] \<and> aContent (hd (tl aLeft)) = aContent (hd aLeft) then tl (tl aLeft) else tl aLeft) aRight
      else hd aRight # walMerge aContent
             (if aLeft \<noteq> [] \<and> aContent (hd aLeft) = aContent (hd aRight) then tl aLeft else aLeft) (tl aRight))"
  by pat_completeness auto
termination
  by (relation "measure (\<lambda>(c, l, r). length l + length r)") (auto simp: neq_Nil_conv)

text \<open>One more element: it is merged with the sub-lists of the set low bits of its index.\<close>

function merge_up :: "(nat \<Rightarrow> nat) \<Rightarrow> nat list list \<Rightarrow> nat \<Rightarrow> nat \<Rightarrow> nat list \<Rightarrow> nat \<times> nat list" where
  "merge_up aContent aSub iList iSub aMerge =
     (if bit iList iSub then merge_up aContent aSub iList (Suc iSub) (walMerge aContent (aSub ! iSub) aMerge)
      else (iSub, aMerge))"
  by pat_completeness auto
termination
proof (relation "measure (\<lambda>(c, s, iList, iSub, m). iList div 2 ^ iSub)")
  fix c :: "nat \<Rightarrow> nat" and s :: "nat list list" and iList iSub :: nat and m :: "nat list"
  assume "bit iList iSub"
  then have "0 < iList div 2 ^ iSub" by (simp add: bit_iff_odd odd_pos)
  then have "iList div 2 ^ iSub div 2 < iList div 2 ^ iSub" by simp
  then show "((c, s, iList, Suc iSub, walMerge c (s ! iSub) m), (c, s, iList, iSub, m)) \<in> measure (\<lambda>(c, s, iList, iSub, m). iList div 2 ^ iSub)"
    by (simp add: div_mult2_eq power_Suc2 del: power_Suc)
qed simp

definition sort_round :: "(nat \<Rightarrow> nat) \<Rightarrow> nat list \<Rightarrow> nat \<Rightarrow> nat \<times> nat list list \<times> nat list \<Rightarrow> nat \<times> nat list list \<times> nat list" where
  "sort_round aContent aList iList st =
     (case st of (_, aSub, _) \<Rightarrow> case merge_up aContent aSub iList 0 [aList ! iList] of
        (iSub, aMerge) \<Rightarrow> (iSub, aSub[iSub := aMerge], aMerge))"

definition final_round :: "(nat \<Rightarrow> nat) \<Rightarrow> nat list list \<Rightarrow> nat \<Rightarrow> nat \<Rightarrow> nat list \<Rightarrow> nat list" where
  "final_round aContent aSub nList iSub aMerge = (if bit nList iSub then walMerge aContent (aSub ! iSub) aMerge else aMerge)"

definition walMergesort :: "(nat \<Rightarrow> nat) \<Rightarrow> nat list \<Rightarrow> nat list" where
  "walMergesort aContent aList =
     (case fold (sort_round aContent aList) [0 ..< length aList] (0, replicate 13 [], []) of
        (iSub, aSub, aMerge) \<Rightarrow> fold (final_round aContent aSub (length aList)) [Suc iSub ..< 13] aMerge)"

record WalSegment =
  iNext :: nat
  aIndex :: "nat list"
  sPgno :: "nat \<Rightarrow> nat"
  nEntry :: nat
  sZero :: nat

record WalIterator =
  iPrior :: nat
  aSegment :: "WalSegment list"

definition NO_PAGE :: nat where "NO_PAGE = 0xFFFFFFFF"

function skip_returned :: "WalSegment \<Rightarrow> nat \<Rightarrow> nat \<Rightarrow> nat" where
  "skip_returned s iMin i =
     (if i < nEntry s then if sPgno s (aIndex s ! i) > iMin then i else skip_returned s iMin (i + 1) else i)"
  by pat_completeness auto
termination
  by (relation "measure (\<lambda>(s, iMin, i). nEntry s - i)") auto

text \<open>One segment: the smallest page behind the last one returned, when it is smaller than those found.\<close>

definition next_in_segment :: "nat \<Rightarrow> WalSegment \<Rightarrow> nat \<times> nat \<times> WalSegment list \<Rightarrow> nat \<times> nat \<times> WalSegment list" where
  "next_in_segment iMin s st =
     (case st of (iRet, iFrame, ss) \<Rightarrow>
        let i = skip_returned s iMin (iNext s); iPg = sPgno s (aIndex s ! i); s' = s\<lparr>iNext := i\<rparr>
        in if i < nEntry s \<and> iPg < iRet then (iPg, sZero s + aIndex s ! i, s' # ss) else (iRet, iFrame, s' # ss))"

text \<open>The result: whether there is no further page, the page, the frame, and the iterator.\<close>

definition walIteratorNext :: "WalIterator \<Rightarrow> nat \<Rightarrow> bool \<times> nat \<times> nat \<times> WalIterator" where
  "walIteratorNext p iFrame =
     (case foldr (next_in_segment (iPrior p)) (aSegment p) (NO_PAGE, iFrame, []) of
        (iRet, iFrame, ss) \<Rightarrow> (iRet = NO_PAGE, iRet, iFrame, \<lparr>iPrior = iRet, aSegment = ss\<rparr>))"

definition empty_segment :: WalSegment where
  "empty_segment = \<lparr>iNext = 0, aIndex = [], sPgno = (\<lambda>_. 0), nEntry = 0, sZero = 0\<rparr>"

definition init_segment :: "wal_shm \<Rightarrow> nat \<Rightarrow> nat \<Rightarrow> nat \<Rightarrow> WalHashLoc \<Rightarrow> WalSegment" where
  "init_segment m iLast nSegment i l =
     (let nEntry = (if i + 1 = nSegment then iLast - iZero l else HASHTABLE_NPAGE - aPgno l);
          aIndex = walMergesort (loc_pgno m l) (map (\<lambda>j. j mod 2 ^ 16) [0 ..< nEntry])
      in \<lparr>iNext = 0, aIndex = aIndex, sPgno = loc_pgno m l, nEntry = length aIndex, sZero = iZero l + 1\<rparr>)"

fun init_segments :: "(nat \<Rightarrow> nat) \<Rightarrow> wal_shm \<Rightarrow> nat \<Rightarrow> nat \<Rightarrow> nat list \<Rightarrow> nat + WalSegment list" where
  "init_segments map_rc m iLast nSegment [] = Inr []"
| "init_segments map_rc m iLast nSegment (i # is') =
     (case walHashGet map_rc i of
        Inl rc \<Rightarrow> Inl rc
      | Inr l \<Rightarrow> (case init_segments map_rc m iLast nSegment is' of
          Inl rc \<Rightarrow> Inl rc
        | Inr ss \<Rightarrow> Inr (init_segment m iLast nSegment i l # ss)))"

text \<open>\<open>oom\<close> says that the allocation of the iterator fails.\<close>

definition walIteratorInit :: "bool \<Rightarrow> (nat \<Rightarrow> nat) \<Rightarrow> wal_shm \<Rightarrow> Wal \<Rightarrow> nat \<Rightarrow> nat + WalIterator" where
  "walIteratorInit oom map_rc m w nBack =
     (let iLast = mxFrame (hdr w); nSegment = walFramePage iLast + 1; first = walFramePage (nBack + 1)
      in if oom then Inl SQLITE_NOMEM
         else case init_segments map_rc m iLast nSegment [first ..< nSegment] of
             Inl rc \<Rightarrow> Inl rc
           | Inr ss \<Rightarrow> Inr \<lparr>iPrior = 0, aSegment = replicate (min first nSegment) empty_segment @ ss\<rparr>)"

declare walMerge.simps [simp del] merge_up.simps [simp del] skip_returned.simps [simp del]

subsection \<open>The merge sort\<close>

text \<open>The contract of a sorted sub-list: the last index of every page among the indices \<open>S\<close>, by page.\<close>

definition lasts :: "(nat \<Rightarrow> nat) \<Rightarrow> nat set \<Rightarrow> nat set" where
  "lasts c S = {i \<in> S. \<forall>j\<in>S. c j = c i \<longrightarrow> j \<le> i}"

definition seg_ok :: "(nat \<Rightarrow> nat) \<Rightarrow> nat set \<Rightarrow> nat list \<Rightarrow> bool" where
  "seg_ok c S xs \<longleftrightarrow> sorted_wrt (\<lambda>i j. c i < c j) xs \<and> set xs = lasts c S"

lemma lasts_empty [simp]: "lasts c {} = {}"
  by (simp add: lasts_def)

lemma seg_ok_single: "seg_ok c {i} [i]"
  by (auto simp: seg_ok_def lasts_def)

lemma walMerge_left: "walMerge c l [] = l" if "sorted_wrt (\<lambda>i j. c i < c j) l"
  using that
proof (induction l)
  case (Cons x l)
  then show ?case by (cases l) (simp_all add: walMerge.simps)
qed (simp add: walMerge.simps)

lemma walMerge_Nil_right: "walMerge c [] r = r"
  by (induction r) (simp_all add: walMerge.simps)

text \<open>The three cases of one round on sorted lists.\<close>

lemma walMerge_less: "c x < c y \<Longrightarrow> sorted_wrt (\<lambda>i j. c i < c j) (x # l) \<Longrightarrow> walMerge c (x # l) (y # r) = x # walMerge c l (y # r)"
  by (cases l) (simp_all add: walMerge.simps)

lemma walMerge_eq: "c x = c y \<Longrightarrow> walMerge c (x # l) (y # r) = y # walMerge c l r"
  by (simp add: walMerge.simps)

lemma walMerge_greater: "c y < c x \<Longrightarrow> walMerge c (x # l) (y # r) = y # walMerge c (x # l) r"
  by (simp add: walMerge.simps)

lemma walMerge_set_sorted:
  "sorted_wrt (\<lambda>i j. c i < c j) l \<Longrightarrow> sorted_wrt (\<lambda>i j. c i < c j) r \<Longrightarrow>
    set (walMerge c l r) = set r \<union> {i \<in> set l. c i \<notin> c ` set r} \<and> sorted_wrt (\<lambda>i j. c i < c j) (walMerge c l r)"
proof (induction "length l + length r" arbitrary: l r rule: less_induct)
  case less
  show ?case
  proof (cases l)
    case Nil
    then show ?thesis using less.prems by (simp add: walMerge_Nil_right)
  next
    case l: (Cons x l')
    show ?thesis
    proof (cases r)
      case Nil
      then show ?thesis using less.prems by (simp add: walMerge_left)
    next
      case r: (Cons y r')
      have s: "sorted_wrt (\<lambda>i j. c i < c j) l'" "sorted_wrt (\<lambda>i j. c i < c j) r'"
        "\<And>i. i \<in> set l' \<Longrightarrow> c x < c i" "\<And>i. i \<in> set r' \<Longrightarrow> c y < c i" using less.prems by (simp_all add: l r)
      consider "c x < c y" | "c x = c y" | "c y < c x" by linarith
      then show ?thesis
      proof cases
        case 1
        have IH: "set (walMerge c l' r) = set r \<union> {i \<in> set l'. c i \<notin> c ` set r}" "sorted_wrt (\<lambda>i j. c i < c j) (walMerge c l' r)"
          using less.hyps [of l' r] s less.prems by (simp_all add: l)
        have lt: "c x < c i" if "i \<in> set r" for i using that 1 s(4) r by (auto intro: less_trans)
        then have "c x \<notin> c ` set r" by (metis imageE less_irrefl)
        moreover have "walMerge c l r = x # walMerge c l' r" unfolding l r by (rule walMerge_less [where c = c, OF 1]) (use less.prems l in simp)
        moreover have "c x < c i" if "i \<in> set (walMerge c l' r)" for i using that IH(1) lt s(3) by auto
        ultimately show ?thesis using IH by (auto simp: l)
      next
        case 2
        have IH: "set (walMerge c l' r') = set r' \<union> {i \<in> set l'. c i \<notin> c ` set r'}" "sorted_wrt (\<lambda>i j. c i < c j) (walMerge c l' r')"
          using less.hyps [of l' r'] s by (simp_all add: l r)
        have "walMerge c l r = y # walMerge c l' r'" unfolding l r by (rule walMerge_eq [where c = c, OF 2])
        moreover have "c y < c i" if "i \<in> set (walMerge c l' r')" for i using that IH(1) s(3,4) 2 by auto
        moreover have "c i \<noteq> c y" if "i \<in> set l'" for i using s(3) [OF that] 2 by simp
        ultimately show ?thesis using IH 2 by (auto simp: l r)
      next
        case 3
        have IH: "set (walMerge c l r') = set r' \<union> {i \<in> set l. c i \<notin> c ` set r'}" "sorted_wrt (\<lambda>i j. c i < c j) (walMerge c l r')"
          using less.hyps [of l r'] s less.prems by (simp_all add: r)
        have lt: "c y < c i" if "i \<in> set l" for i using that 3 s(3) l by (auto intro: less_trans)
        have "walMerge c l r = y # walMerge c l r'" unfolding l r by (rule walMerge_greater [where c = c, OF 3])
        moreover have "c y < c i" if "i \<in> set (walMerge c l r')" for i using that IH(1) lt s(4) by auto
        moreover have "c i \<noteq> c y" if "i \<in> set l" for i using lt [OF that] by simp
        ultimately show ?thesis using IH by (auto simp: r)
      qed
    qed
  qed
qed

lemma lasts_image: "finite S \<Longrightarrow> c ` lasts c S = c ` S"
proof
  assume f: "finite S"
  show "c ` S \<subseteq> c ` lasts c S"
  proof
    fix p assume "p \<in> c ` S"
    then obtain i where i: "i \<in> S" "c i = p" by auto
    define M where "M = Max {j \<in> S. c j = p}"
    have fin: "finite {j \<in> S. c j = p}" using f by simp
    then have "M \<in> {j \<in> S. c j = p}" unfolding M_def by (rule Max_in) (use i in blast)
    moreover have "j \<le> M" if "j \<in> S" "c j = p" for j unfolding M_def by (rule Max_ge [OF fin]) (use that in simp)
    ultimately have "M \<in> lasts c S" "p = c M" by (simp_all add: lasts_def)
    then show "p \<in> c ` lasts c S" by (rule rev_image_eqI)
  qed
qed (auto simp: lasts_def)

lemma seg_ok_merge:
  assumes "seg_ok c A l" "seg_ok c B r" "finite A" "finite B" "\<And>a b. a \<in> A \<Longrightarrow> b \<in> B \<Longrightarrow> a < b"
  shows "seg_ok c (A \<union> B) (walMerge c l r)"
proof -
  have m: "set (walMerge c l r) = lasts c B \<union> {i \<in> lasts c A. c i \<notin> c ` lasts c B}" "sorted_wrt (\<lambda>i j. c i < c j) (walMerge c l r)"
    using walMerge_set_sorted [of c l r] assms(1,2) by (simp_all add: seg_ok_def)
  have "lasts c B \<union> {i \<in> lasts c A. c i \<notin> c ` B} = lasts c (A \<union> B)"
  proof (intro equalityI subsetI)
    fix i assume "i \<in> lasts c B \<union> {i \<in> lasts c A. c i \<notin> c ` B}"
    then show "i \<in> lasts c (A \<union> B)" using assms(5) by (fastforce simp: lasts_def less_imp_le image_iff)
  next
    fix i assume i: "i \<in> lasts c (A \<union> B)"
    show "i \<in> lasts c B \<union> {i \<in> lasts c A. c i \<notin> c ` B}"
    proof (cases "i \<in> B")
      case False
      then have "i \<in> A" using i by (simp add: lasts_def)
      then have "c i \<notin> c ` B" using i assms(5) [of i] by (force simp: lasts_def not_le [symmetric])
      then show ?thesis using i \<open>i \<in> A\<close> by (auto simp: lasts_def)
    qed (use i in \<open>auto simp: lasts_def\<close>)
  qed
  then show ?thesis using m lasts_image [OF assms(4)] by (simp add: seg_ok_def)
qed

text \<open>The indices the sub-list of bit \<open>i\<close> covers after \<open>k\<close> elements: they end where the lower bits of \<open>k\<close>
  begin.\<close>

definition low :: "nat \<Rightarrow> nat \<Rightarrow> nat" where "low k i = k div 2 ^ i * 2 ^ i"

lemma low_0 [simp]: "low k 0 = k"
  by (simp add: low_def)

lemma low_le: "low k i \<le> k"
  by (simp add: low_def)

lemma low_Suc: "low k i = low k (Suc i) + (if bit k i then 2 ^ i else 0)"
proof -
  have "k div 2 ^ i = 2 * (k div 2 ^ i div 2) + (k div 2 ^ i) mod 2" by simp
  moreover have "k div 2 ^ i div 2 = k div 2 ^ Suc i" using div_mult2_eq [of k "2 ^ i" 2] by (simp add: mult.commute)
  moreover have "(k div 2 ^ i) mod 2 = (if bit k i then 1 else 0)" by (simp add: bit_iff_odd parity_cases mod2_eq_if)
  ultimately have "k div 2 ^ i = 2 * (k div 2 ^ Suc i) + (if bit k i then 1 else 0)" by simp
  then have "low k i = (2 * (k div 2 ^ Suc i) + (if bit k i then 1 else 0)) * 2 ^ i" by (simp add: low_def)
  then show ?thesis by (simp add: low_def algebra_simps)
qed

definition subs_ok :: "(nat \<Rightarrow> nat) \<Rightarrow> nat \<Rightarrow> nat list list \<Rightarrow> bool" where
  "subs_ok c k aSub \<longleftrightarrow> length aSub = 13 \<and> (\<forall>i. bit k i \<longrightarrow> seg_ok c {low k (Suc i) ..< low k i} (aSub ! i))"

text \<open>The inner loop: the list covers the indices from \<open>low k s\<close> to \<open>k\<close> when the low \<open>s\<close> bits were set.\<close>

lemma merge_up_ok:
  assumes "subs_ok c k aSub"
  shows "seg_ok c {low k s ..< Suc k} m \<Longrightarrow> Suc k = low k s + 2 ^ s \<Longrightarrow>
    \<exists>t xs. merge_up c aSub k s m = (t, xs) \<and> seg_ok c {low k t ..< Suc k} xs \<and> Suc k = low k t + 2 ^ t \<and> \<not> bit k t"
proof (induction "k div 2 ^ s" arbitrary: s m rule: less_induct)
  case less
  show ?case
  proof (cases "bit k s")
    case False
    then have "merge_up c aSub k s m = (s, m)" by (subst merge_up.simps) simp
    then show ?thesis using less.prems False by auto
  next
    case True
    then have l: "low k s = low k (Suc s) + 2 ^ s" using low_Suc [of k s] by simp
    have p: "0 < k div 2 ^ s" using True by (simp add: bit_iff_odd odd_pos)
    have "k div 2 ^ Suc s = k div 2 ^ s div 2" using div_mult2_eq [of k "2 ^ s" 2] by (simp add: mult.commute)
    then have lt: "k div 2 ^ Suc s < k div 2 ^ s" using p by simp
    have "seg_ok c ({low k (Suc s) ..< low k s} \<union> {low k s ..< Suc k}) (walMerge c (aSub ! s) m)"
      by (rule seg_ok_merge [OF _ less.prems(1)]) (use assms True in \<open>auto simp: subs_ok_def\<close>)
    moreover have "{low k (Suc s) ..< low k s} \<union> {low k s ..< Suc k} = {low k (Suc s) ..< Suc k}"
      by (rule ivl_disj_un_two(3)) (use l low_le [of k s] in simp_all)
    ultimately have "seg_ok c {low k (Suc s) ..< Suc k} (walMerge c (aSub ! s) m)" by simp
    from less.hyps [OF lt this] less.prems(2) l
    have "\<exists>t xs. merge_up c aSub k (Suc s) (walMerge c (aSub ! s) m) = (t, xs) \<and> seg_ok c {low k t ..< Suc k} xs \<and> Suc k = low k t + 2 ^ t \<and> \<not> bit k t"
      by simp
    moreover have "merge_up c aSub k s m = merge_up c aSub k (Suc s) (walMerge c (aSub ! s) m)"
      using True by (subst merge_up.simps) simp
    ultimately show ?thesis by simp
  qed
qed

lemma low_dvd: "2 ^ i dvd n \<Longrightarrow> low n i = n"
  by (simp add: low_def)

lemma div_pow_mono: "n div 2 ^ t = k div 2 ^ t \<Longrightarrow> t \<le> i \<Longrightarrow> n div 2 ^ i = (k :: nat) div 2 ^ i"
proof -
  assume a: "n div 2 ^ t = k div 2 ^ t" "t \<le> i"
  have "(2::nat) ^ i = 2 ^ t * 2 ^ (i - t)" using a(2) by (simp flip: power_add)
  then show ?thesis using a(1) by (simp add: div_mult2_eq)
qed

lemma carry:
  assumes k: "Suc k = low k t + 2 ^ t" and b: "\<not> bit k t"
  shows "i < t \<Longrightarrow> \<not> bit (Suc k) i" "low (Suc k) t = Suc k" "low (Suc k) (Suc t) = low k t"
    "t < i \<Longrightarrow> bit (Suc k) i = bit k i \<and> low (Suc k) i = low k i"
proof -
  have d: "2 ^ t dvd Suc k" unfolding k low_def by simp
  show lt: "low (Suc k) t = Suc k" by (rule low_dvd [OF d])
  show "\<not> bit (Suc k) i" if "i < t"
  proof
    assume "bit (Suc k) i"
    moreover have "2 ^ i dvd Suc k" "2 ^ Suc i dvd Suc k"
      by (rule dvd_trans [OF le_imp_power_dvd d], use that in simp)+
    then have "low (Suc k) i = Suc k" "low (Suc k) (Suc i) = Suc k" by (blast intro: low_dvd)+
    ultimately show False using low_Suc [of "Suc k" i] by simp
  qed
  have l: "low k t = low k (Suc t)" using low_Suc [of k t] b by simp
  have q: "Suc k div 2 ^ Suc t = k div 2 ^ Suc t"
  proof -
    have "Suc k = 2 ^ t + k div 2 ^ Suc t * 2 ^ Suc t" using k l by (simp add: low_def)
    moreover have "(2 ^ t + k div 2 ^ Suc t * 2 ^ Suc t) div 2 ^ Suc t = k div 2 ^ Suc t + 2 ^ t div (2 ^ Suc t :: nat)"
      by (rule div_mult_self1) simp
    moreover have "2 ^ t div (2 ^ Suc t :: nat) = 0" by (rule div_less) simp
    ultimately show ?thesis by simp
  qed
  then show "low (Suc k) (Suc t) = low k t" using l by (simp add: low_def)
  show "bit (Suc k) i = bit k i \<and> low (Suc k) i = low k i" if "t < i"
    using div_pow_mono [OF q, of i] that by (simp add: bit_iff_odd low_def)
qed

lemma subs_ok_step:
  assumes s: "subs_ok c k aSub" and k: "Suc k = low k t + 2 ^ t" "\<not> bit k t" "t < 13" and x: "seg_ok c {low k t ..< Suc k} xs"
  shows "subs_ok c (Suc k) (aSub[t := xs])"
  unfolding subs_ok_def
proof (intro conjI allI impI)
  show "length (aSub[t := xs]) = 13" using s by (simp add: subs_ok_def)
  fix i assume b: "bit (Suc k) i"
  note c = carry [OF k(1,2)]
  consider "i < t" | "i = t" | "t < i" by linarith
  then show "seg_ok c {low (Suc k) (Suc i) ..< low (Suc k) i} (aSub[t := xs] ! i)"
  proof cases
    case 1
    then show ?thesis using c(1) b by blast
  next
    case 2
    then show ?thesis using c(2,3) x s k(3) by (simp add: subs_ok_def)
  next
    case 3
    then show ?thesis using c(4) [of i] c(4) [of "Suc i"] b s by (simp add: subs_ok_def)
  qed
qed

definition sort_inv :: "(nat \<Rightarrow> nat) \<Rightarrow> nat \<Rightarrow> nat \<times> nat list list \<times> nat list \<Rightarrow> bool" where
  "sort_inv c k st \<longleftrightarrow> (case st of (t, aSub, xs) \<Rightarrow> subs_ok c k aSub
     \<and> (0 < k \<longrightarrow> k = low k (Suc t) + 2 ^ t \<and> seg_ok c {low k (Suc t) ..< k} xs))"

lemma sort_inv_start: "sort_inv c 0 (0, replicate 13 [], [])"
  by (simp add: sort_inv_def subs_ok_def)

lemma sort_inv_round:
  assumes "sort_inv c k st" "k < n" "n \<le> 4096"
  shows "sort_inv c (Suc k) (sort_round c [0..<n] k st)"
proof -
  obtain t0 aSub xs0 where st: "st = (t0, aSub, xs0)" by (cases st)
  have s: "subs_ok c k aSub" using assms(1) by (simp add: st sort_inv_def)
  have "seg_ok c {low k 0 ..< Suc k} [k]" using seg_ok_single [of c k] by simp
  from merge_up_ok [OF s this] obtain t xs where
    t: "merge_up c aSub k 0 [k] = (t, xs)" "seg_ok c {low k t ..< Suc k} xs" "Suc k = low k t + 2 ^ t" "\<not> bit k t" by auto
  have "(2::nat) ^ t \<le> 2 ^ 12" using t(3) assms(2,3) by simp
  then have "t < 13" using power_le_imp_le_exp [of "2::nat" t 12] by simp
  then show ?thesis
    using subs_ok_step [OF s t(3,4) _ t(2)] t carry(3) [OF t(3,4)] assms(2) by (simp add: sort_inv_def sort_round_def st)
qed

lemma sort_inv_fold:
  assumes "n \<le> 4096"
  shows "k \<le> n \<Longrightarrow> sort_inv c k (fold (sort_round c [0..<n]) [0..<k] (0, replicate 13 [], []))"
proof (induction k)
  case 0
  then show ?case using sort_inv_start by simp
next
  case (Suc k)
  then show ?case using sort_inv_round [OF _ _ assms] by simp
qed

lemma final_fold:
  assumes s: "subs_ok c n aSub" and x: "seg_ok c {low n i ..< n} xs"
  shows "i \<le> j \<Longrightarrow> seg_ok c {low n j ..< n} (fold (final_round c aSub n) [i ..< j] xs)"
proof (induction j)
  case 0
  then show ?case using x by simp
next
  case (Suc j)
  show ?case
  proof (cases "i = Suc j")
    case True
    then show ?thesis using x by simp
  next
    case False
    then have ij: "i \<le> j" using Suc.prems by simp
    note IH = Suc.IH [OF ij]
    show ?thesis
    proof (cases "bit n j")
      case True
      have "seg_ok c ({low n (Suc j) ..< low n j} \<union> {low n j ..< n}) (walMerge c (aSub ! j) (fold (final_round c aSub n) [i ..< j] xs))"
        by (rule seg_ok_merge [OF _ IH]) (use s True in \<open>auto simp: subs_ok_def\<close>)
      moreover have "{low n (Suc j) ..< low n j} \<union> {low n j ..< n} = {low n (Suc j) ..< n}"
        by (rule ivl_disj_un_two(3)) (use low_Suc [of n j] low_le [of n j] in simp_all)
      ultimately show ?thesis using ij True by (simp add: final_round_def [of c aSub n j])
    next
      case False
      then show ?thesis using ij IH low_Suc [of n j] by (simp add: final_round_def [of c aSub n j])
    qed
  qed
qed

lemma walMergesort_seg:
  assumes "0 < n" "n \<le> 4096"
  shows "seg_ok c {0..<n} (walMergesort c [0..<n])"
proof -
  obtain t aSub xs where st: "fold (sort_round c [0..<n]) [0..<n] (0, replicate 13 [], []) = (t, aSub, xs)"
    by (cases "fold (sort_round c [0..<n]) [0..<n] (0, replicate 13 [], [])")
  have i: "sort_inv c n (t, aSub, xs)" using sort_inv_fold [OF assms(2), of n c] st by simp
  then have s: "subs_ok c n aSub" "n = low n (Suc t) + 2 ^ t" "seg_ok c {low n (Suc t) ..< n} xs" using assms(1) by (simp_all add: sort_inv_def)
  have "2 ^ t \<le> (4096::nat)" using s(2) assms(2) by linarith
  then have "(2::nat) ^ t \<le> 2 ^ 12" by simp
  then have "Suc t \<le> 13" using power_le_imp_le_exp [of "2::nat" t 12] by simp
  then have "seg_ok c {low n 13 ..< n} (fold (final_round c aSub n) [Suc t ..< 13] xs)" by (rule final_fold [OF s(1,3)])
  moreover have "low n 13 = 0" using assms(2) by (simp add: low_def)
  ultimately show ?thesis using st by (simp add: walMergesort_def)
qed

subsection \<open>The iterator\<close>

text \<open>A segment as the pairs of page and frame it offers; \<open>seg_at\<close> says that its position is behind all pages
  up to the last one returned.\<close>

definition seg_pairs :: "WalSegment \<Rightarrow> (nat \<times> nat) set" where
  "seg_pairs s = (\<lambda>j. (sPgno s j, sZero s + j)) ` set (aIndex s)"

definition seg_at :: "nat \<Rightarrow> WalSegment \<Rightarrow> bool" where
  "seg_at iMin s \<longleftrightarrow> nEntry s = length (aIndex s) \<and> sorted_wrt (\<lambda>i j. sPgno s i < sPgno s j) (aIndex s)
     \<and> (\<forall>j\<in>set (aIndex s). sPgno s j < NO_PAGE) \<and> iNext s \<le> nEntry s \<and> (\<forall>k<iNext s. sPgno s (aIndex s ! k) \<le> iMin)"

lemma seg_pairs_iNext [simp]: "seg_pairs (s\<lparr>iNext := i\<rparr>) = seg_pairs s"
  by (simp add: seg_pairs_def)

lemma seg_at_mono: "seg_at iMin s \<Longrightarrow> iMin \<le> iMin' \<Longrightarrow> seg_at iMin' s"
  by (auto simp: seg_at_def intro: le_trans)

lemma skip_returned_ok:
  "i \<le> nEntry s \<Longrightarrow> \<forall>k<i. sPgno s (aIndex s ! k) \<le> iMin \<Longrightarrow>
    skip_returned s iMin i \<le> nEntry s \<and> (\<forall>k < skip_returned s iMin i. sPgno s (aIndex s ! k) \<le> iMin)
    \<and> (skip_returned s iMin i < nEntry s \<longrightarrow> iMin < sPgno s (aIndex s ! skip_returned s iMin i))"
proof (induction s iMin i rule: skip_returned.induct)
  case (1 s iMin i)
  note IH = 1(1) and prems = 1(2,3)
  consider "i = nEntry s" | "i < nEntry s" "iMin < sPgno s (aIndex s ! i)" | "i < nEntry s" "sPgno s (aIndex s ! i) \<le> iMin"
    using prems(1) by linarith
  then show ?case
  proof cases
    case 1
    then have "skip_returned s iMin i = i" by (subst skip_returned.simps) simp
    then show ?thesis using 1 prems(2) by simp
  next
    case 2
    then have "skip_returned s iMin i = i" by (subst skip_returned.simps) simp
    then show ?thesis using 2 prems(2) by simp
  next
    case 3
    then have e: "skip_returned s iMin i = skip_returned s iMin (i + 1)" by (simp add: skip_returned.simps [of s iMin i])
    have "\<forall>k<i + 1. sPgno s (aIndex s ! k) \<le> iMin" using 3(2) prems(2) by (simp add: less_Suc_eq)
    moreover have "\<not> iMin < sPgno s (aIndex s ! i)" "i + 1 \<le> nEntry s" using 3 by simp_all
    ultimately show ?thesis unfolding e using IH 3(1) by blast
  qed
qed

text \<open>What one segment offers behind \<open>iMin\<close>: its first page there, or nothing.\<close>

lemma segment_offer:
  assumes s: "seg_at iMin s" and i: "i = skip_returned s iMin (iNext s)"
  shows "seg_at iMin (s\<lparr>iNext := i\<rparr>)"
    "i < nEntry s \<Longrightarrow> iMin < sPgno s (aIndex s ! i) \<and> sPgno s (aIndex s ! i) < NO_PAGE
      \<and> (sPgno s (aIndex s ! i), sZero s + aIndex s ! i) \<in> seg_pairs s
      \<and> (\<forall>(q, f)\<in>seg_pairs s. iMin < q \<longrightarrow> sPgno s (aIndex s ! i) < q \<or> (q, f) = (sPgno s (aIndex s ! i), sZero s + aIndex s ! i))"
    "\<not> i < nEntry s \<Longrightarrow> \<forall>(q, f)\<in>seg_pairs s. q \<le> iMin"
proof -
  have at: "nEntry s = length (aIndex s)" "sorted_wrt (\<lambda>i j. sPgno s i < sPgno s j) (aIndex s)"
    "\<And>j. j \<in> set (aIndex s) \<Longrightarrow> sPgno s j < NO_PAGE" "iNext s \<le> nEntry s" "\<forall>k<iNext s. sPgno s (aIndex s ! k) \<le> iMin"
    using s by (auto simp: seg_at_def)
  have sk: "i \<le> nEntry s" "\<And>k. k < i \<Longrightarrow> sPgno s (aIndex s ! k) \<le> iMin" "i < nEntry s \<Longrightarrow> iMin < sPgno s (aIndex s ! i)"
    using skip_returned_ok [OF at(4,5)] by (simp_all add: i)
  show "seg_at iMin (s\<lparr>iNext := i\<rparr>)" using s sk by (simp add: seg_at_def)
  show "iMin < sPgno s (aIndex s ! i) \<and> sPgno s (aIndex s ! i) < NO_PAGE
      \<and> (sPgno s (aIndex s ! i), sZero s + aIndex s ! i) \<in> seg_pairs s
      \<and> (\<forall>(q, f)\<in>seg_pairs s. iMin < q \<longrightarrow> sPgno s (aIndex s ! i) < q \<or> (q, f) = (sPgno s (aIndex s ! i), sZero s + aIndex s ! i))"
    if lt: "i < nEntry s"
  proof (intro conjI ballI)
    have m: "aIndex s ! i \<in> set (aIndex s)" using lt at(1) by simp
    show "iMin < sPgno s (aIndex s ! i)" "sPgno s (aIndex s ! i) < NO_PAGE" using sk(3) lt at(3) m by auto
    show "(sPgno s (aIndex s ! i), sZero s + aIndex s ! i) \<in> seg_pairs s" using m by (auto simp: seg_pairs_def)
    fix x assume "x \<in> seg_pairs s"
    then obtain k where k: "k < length (aIndex s)" "x = (sPgno s (aIndex s ! k), sZero s + aIndex s ! k)"
      by (auto simp: seg_pairs_def in_set_conv_nth)
    consider "k < i" | "k = i" | "i < k" by linarith
    then show "case x of (q, f) \<Rightarrow> iMin < q \<longrightarrow> sPgno s (aIndex s ! i) < q \<or> (q, f) = (sPgno s (aIndex s ! i), sZero s + aIndex s ! i)"
    proof cases
      case 1
      then show ?thesis using sk(2) [of k] k(2) by simp
    next
      case 3
      then show ?thesis using sorted_wrt_nth_less [OF at(2) 3] k by simp
    qed (use k in simp)
  qed
  show "\<forall>(q, f)\<in>seg_pairs s. q \<le> iMin" if "\<not> i < nEntry s"
    using that sk(1,2) at(1) by (auto simp: seg_pairs_def in_set_conv_nth)
qed

definition all_pairs :: "WalSegment list \<Rightarrow> (nat \<times> nat) set" where
  "all_pairs ss = (\<Union>s\<in>set ss. seg_pairs s)"

definition offers :: "nat \<Rightarrow> (nat \<times> nat) set \<Rightarrow> nat \<Rightarrow> nat \<Rightarrow> bool" where
  "offers iMin E r fr \<longleftrightarrow> (r = NO_PAGE \<and> (\<forall>(q, f)\<in>E. q \<le> iMin))
     \<or> (iMin < r \<and> r < NO_PAGE \<and> (r, fr) \<in> E \<and> (\<forall>(q, f)\<in>E. iMin < q \<longrightarrow> r < q \<or> (r = q \<and> f \<le> fr)))"

lemma offers_add:
  assumes o: "offers iMin E r fr" and s: "seg_at iMin s" and i: "i = skip_returned s iMin (iNext s)"
    and later: "\<And>q f q' f'. (q, f) \<in> seg_pairs s \<Longrightarrow> (q', f') \<in> E \<Longrightarrow> f < f'"
  shows "i < nEntry s \<and> sPgno s (aIndex s ! i) < r \<Longrightarrow> offers iMin (seg_pairs s \<union> E) (sPgno s (aIndex s ! i)) (sZero s + aIndex s ! i)"
    "\<not> (i < nEntry s \<and> sPgno s (aIndex s ! i) < r) \<Longrightarrow> offers iMin (seg_pairs s \<union> E) r fr"
proof -
  let ?q = "sPgno s (aIndex s ! i)" and ?f = "sZero s + aIndex s ! i"
  note of = segment_offer [OF s i]
  show "offers iMin (seg_pairs s \<union> E) ?q ?f" if a: "i < nEntry s \<and> ?q < r"
  proof -
    have "?q < q" if "(q, f) \<in> E" "iMin < q" for q f using o that a by (auto simp: offers_def)
    then show ?thesis using of(2) a unfolding offers_def by auto
  qed
  show "offers iMin (seg_pairs s \<union> E) r fr" if a: "\<not> (i < nEntry s \<and> ?q < r)"
  proof (cases "i < nEntry s")
    case True
    then have r: "r \<le> ?q" using a by simp
    have "?q < NO_PAGE" using of(2) True by simp
    then have E: "iMin < r" "r < NO_PAGE" "(r, fr) \<in> E" "\<And>q f. (q, f) \<in> E \<Longrightarrow> iMin < q \<Longrightarrow> r < q \<or> (r = q \<and> f \<le> fr)"
      using o r by (auto simp: offers_def)
    have "r < q \<or> (r = q \<and> f \<le> fr)" if "(q, f) \<in> seg_pairs s" "iMin < q" for q f
    proof -
      have "?q \<le> q" using of(2) True that by fastforce
      moreover have "f < fr" using later [OF that(1) E(3)] .
      ultimately show ?thesis using r by auto
    qed
    then show ?thesis using E unfolding offers_def by auto
  next
    case False
    then show ?thesis using of(3) o unfolding offers_def by fastforce
  qed
qed

definition segs_ok :: "nat \<Rightarrow> WalSegment list \<Rightarrow> bool" where
  "segs_ok iMin ss \<longleftrightarrow> (\<forall>s\<in>set ss. seg_at iMin s)
     \<and> sorted_wrt (\<lambda>s s'. \<forall>(q, f)\<in>seg_pairs s. \<forall>(q', f')\<in>seg_pairs s'. f < f') ss"

lemma next_in_segments:
  "segs_ok iMin ss \<Longrightarrow> foldr (next_in_segment iMin) ss (NO_PAGE, f0, []) = (r, fr, ss') \<Longrightarrow>
    map seg_pairs ss' = map seg_pairs ss \<and> (\<forall>s\<in>set ss'. seg_at iMin s) \<and> offers iMin (all_pairs ss) r fr"
proof (induction ss arbitrary: r fr ss')
  case Nil
  then show ?case by (auto simp: offers_def all_pairs_def)
next
  case (Cons s ss)
  obtain r1 fr1 ss1 where f: "foldr (next_in_segment iMin) ss (NO_PAGE, f0, []) = (r1, fr1, ss1)"
    by (cases "foldr (next_in_segment iMin) ss (NO_PAGE, f0, [])")
  have ok: "segs_ok iMin ss" "seg_at iMin s" using Cons.prems(1) by (simp_all add: segs_ok_def)
  have later: "f < f'" if "(q, f) \<in> seg_pairs s" "(q', f') \<in> all_pairs ss" for q f q' f'
    using that Cons.prems(1) by (fastforce simp: segs_ok_def all_pairs_def)
  note IH = Cons.IH [OF ok(1) f]
  define i where "i = skip_returned s iMin (iNext s)"
  have e: "all_pairs (s # ss) = seg_pairs s \<union> all_pairs ss" by (simp add: all_pairs_def)
  have o: "offers iMin (all_pairs ss) r1 fr1" using IH by simp
  have n: "next_in_segment iMin s (r1, fr1, ss1) = (r, fr, ss')" using Cons.prems(2) f by simp
  show ?case
  proof (cases "i < nEntry s \<and> sPgno s (aIndex s ! i) < r1")
    case True
    then have "r = sPgno s (aIndex s ! i)" "fr = sZero s + aIndex s ! i" "ss' = s\<lparr>iNext := i\<rparr> # ss1"
      using n by (auto simp: next_in_segment_def Let_def i_def [symmetric])
    then show ?thesis using IH segment_offer(1) [OF ok(2) i_def] offers_add(1) [OF o ok(2) i_def later True] e by simp
  next
    case False
    then have "r = r1" "fr = fr1" "ss' = s\<lparr>iNext := i\<rparr> # ss1"
      using n by (auto simp: next_in_segment_def Let_def i_def [symmetric])
    then show ?thesis using IH segment_offer(1) [OF ok(2) i_def] offers_add(2) [OF o ok(2) i_def later False] e by simp
  qed
qed

lemma sorted_wrt_map_cong: "map g xs = map g ys \<Longrightarrow> sorted_wrt (\<lambda>x y. P (g x) (g y)) xs = sorted_wrt (\<lambda>x y. P (g x) (g y)) ys"
  using sorted_wrt_map [of P g xs] sorted_wrt_map [of P g ys] by simp

text \<open>The contract of \<open>walIteratorNext\<close>.\<close>

lemma walIteratorNext_ok:
  assumes "segs_ok (iPrior p) (aSegment p)" "walIteratorNext p f0 = (stop, pg, fr, p')"
  shows "stop = (pg = NO_PAGE)" "iPrior p' = pg" "all_pairs (aSegment p') = all_pairs (aSegment p)"
    "offers (iPrior p) (all_pairs (aSegment p)) pg fr" "\<not> stop \<Longrightarrow> segs_ok (iPrior p') (aSegment p')"
proof -
  obtain r f ss where f: "foldr (next_in_segment (iPrior p)) (aSegment p) (NO_PAGE, f0, []) = (r, f, ss)"
    by (cases "foldr (next_in_segment (iPrior p)) (aSegment p) (NO_PAGE, f0, [])")
  have e: "stop = (r = NO_PAGE)" "pg = r" "fr = f" "p' = \<lparr>iPrior = r, aSegment = ss\<rparr>"
    using assms(2) f by (auto simp: walIteratorNext_def)
  note n = next_in_segments [OF assms(1) f]
  show "stop = (pg = NO_PAGE)" "iPrior p' = pg" by (simp_all add: e)
  show o: "offers (iPrior p) (all_pairs (aSegment p)) pg fr" using n by (simp add: e)
  have "seg_pairs ` set ss = seg_pairs ` set (aSegment p)" using n by (metis list.set_map)
  then show "all_pairs (aSegment p') = all_pairs (aSegment p)" by (simp add: e all_pairs_def)
  show "segs_ok (iPrior p') (aSegment p')" if "\<not> stop"
  proof -
    have "iPrior p \<le> r" using o that by (auto simp: e offers_def)
    moreover have "sorted_wrt (\<lambda>s s'. \<forall>(q, f)\<in>seg_pairs s. \<forall>(q', f')\<in>seg_pairs s'. f < f') ss"
      using sorted_wrt_map_cong [of seg_pairs ss "aSegment p" "\<lambda>E E'. \<forall>(q, f)\<in>E. \<forall>(q', f')\<in>E'. f < f'"] n assms(1)
      by (simp add: segs_ok_def)
    ultimately show ?thesis using n by (auto simp: e segs_ok_def intro: seg_at_mono)
  qed
qed

subsection \<open>The iterator of a represented log\<close>

text \<open>The pairs \<open>E\<close> cover the frames of \<open>fs\<close> behind \<open>lo\<close> up to \<open>n\<close>: every pair is such a frame with its page,
  and for every frame there is a pair with the same page that is not older.\<close>

definition covers :: "nat list \<Rightarrow> nat \<Rightarrow> nat \<Rightarrow> (nat \<times> nat) set \<Rightarrow> bool" where
  "covers fs lo n E \<longleftrightarrow> (\<forall>q f. (q, f) \<in> E \<longrightarrow> lo < f \<and> f \<le> n \<and> fs ! (f - 1) = q)
     \<and> (\<forall>f. lo < f \<longrightarrow> f \<le> n \<longrightarrow> (\<exists>f'. f \<le> f' \<and> (fs ! (f - 1), f') \<in> E))"

lemma map_mod_upt: "n \<le> 4096 \<Longrightarrow> map (\<lambda>j. j mod 2 ^ 16) [0..<n] = [0..<n]"
  by (rule nth_equalityI) simp_all

lemma lasts_finite_ge: "finite S \<Longrightarrow> j \<in> S \<Longrightarrow> \<exists>i\<in>lasts c S. c i = c j \<and> j \<le> i"
proof -
  assume f: "finite S" and j: "j \<in> S"
  have "c j \<in> c ` lasts c S" using lasts_image [OF f, of c] j by simp
  then obtain i where "i \<in> lasts c S" "c i = c j" by auto
  then show ?thesis using j by (auto simp: lasts_def)
qed

lemma init_segment_rep:
  assumes r: "wi_rep m fs" and n: "n \<le> length fs" and i: "blk_zero i < n" "(i + 1 = nSeg) = (n \<le> blk_end i)"
    and p: "\<forall>k<n. fs ! k < NO_PAGE"
  defines "s \<equiv> init_segment m n nSeg i (blk_loc i)"
  shows "seg_at 0 s" "covers fs (blk_zero i) (min n (blk_end i)) (seg_pairs s)"
proof -
  let ?n = "blk_cnt i n" and ?c = "loc_pgno m (blk_loc i)"
  have cnt: "(if i + 1 = nSeg then n - blk_zero i else 4096 - blk_base i) = ?n"
    using i blk_end_zero [of i] by (auto simp: blk_cnt_def)
  have n': "0 < ?n" "?n \<le> 4096" "blk_zero i + ?n = min n (blk_end i)" using i(1) blk_zero_end [of i] by (auto simp: blk_cnt_def)
  have c: "?c j = fs ! (blk_zero i + j)" if "j < ?n" for j
    using page_repD(2) [OF wi_repD [OF r, of i], of j] that n i(1) by (auto simp: blk_cnt_def)
  define xs where "xs = walMergesort ?c [0..<?n]"
  have s: "s = \<lparr>iNext = 0, aIndex = xs, sPgno = ?c, nEntry = length xs, sZero = blk_zero i + 1\<rparr>"
    unfolding s_def init_segment_def blk_loc_simps wal_constants(1) cnt map_mod_upt [OF n'(2)] xs_def Let_def ..
  have xs: "sorted_wrt (\<lambda>i j. ?c i < ?c j) xs" "set xs = lasts ?c {0..<?n}"
    using walMergesort_seg [OF n'(1,2), of ?c] by (simp_all add: seg_ok_def xs_def)
  have lt: "j < ?n" if "j \<in> set xs" for j using that xs(2) by (simp add: lasts_def)
  have in_fs: "blk_zero i + j < n" if "j < ?n" for j using that n'(3) by linarith
  show "seg_at 0 s"
    using xs(1) p c lt in_fs by (auto simp: seg_at_def s)
  show "covers fs (blk_zero i) (min n (blk_end i)) (seg_pairs s)"
    unfolding covers_def
  proof (intro conjI allI impI)
    fix q f assume "(q, f) \<in> seg_pairs s"
    then obtain j where j: "j \<in> set xs" "q = ?c j" "f = blk_zero i + 1 + j" by (auto simp: seg_pairs_def s)
    then show "blk_zero i < f" "f \<le> min n (blk_end i)" "fs ! (f - 1) = q" using lt [OF j(1)] n'(3) c by auto
  next
    fix f assume f: "blk_zero i < f" "f \<le> min n (blk_end i)"
    define j where "j = f - 1 - blk_zero i"
    have j: "j < ?n" "f = blk_zero i + 1 + j" using f n'(3) by (auto simp: j_def)
    then obtain k where k: "k \<in> set xs" "?c k = ?c j" "j \<le> k" using lasts_finite_ge [of "{0..<?n}" j ?c] xs(2) by auto
    have "(fs ! (f - 1), blk_zero i + 1 + k) \<in> seg_pairs s"
      using k(1,2) c [OF j(1)] j(2) by (force simp: seg_pairs_def s)
    then show "\<exists>f'. f \<le> f' \<and> (fs ! (f - 1), f') \<in> seg_pairs s"
      using k(3) j(2) by (intro exI [of _ "blk_zero i + 1 + k"] conjI) simp_all
  qed
qed

lemma init_segments_rep:
  assumes r: "wi_rep m fs" and ok: "\<And>b. map_rc b = 0" and n: "0 < n" "n \<le> length fs" and p: "\<forall>k<n. fs ! k < NO_PAGE"
    and N: "N = walFramePage n + 1"
  shows "a \<le> N \<Longrightarrow> \<exists>ss. init_segments map_rc m n N [a ..< N] = Inr ss \<and> segs_ok 0 ss
    \<and> (a < N \<longrightarrow> covers fs (blk_zero a) n (all_pairs ss)) \<and> (a = N \<longrightarrow> ss = [])"
proof (induction "N - a" arbitrary: a)
  case 0
  then show ?case by (auto simp: segs_ok_def)
next
  case (Suc d)
  have a: "a < N" "[a ..< N] = a # [Suc a ..< N]" using Suc.hyps(2) by (simp_all add: upt_conv_Cons)
  obtain ss where ss: "init_segments map_rc m n N [Suc a ..< N] = Inr ss" "segs_ok 0 ss"
    "Suc a < N \<Longrightarrow> covers fs (blk_zero (Suc a)) n (all_pairs ss)" "Suc a = N \<Longrightarrow> ss = []"
  proof -
    have "d = N - Suc a" "Suc a \<le> N" using Suc.hyps(2) a(1) by linarith+
    from Suc.hyps(1) [OF this] that show ?thesis by blast
  qed
  let ?s = "init_segment m n N a (blk_loc a)"
  note fp = frame_page [OF n(1)]
  have z: "blk_zero a < n" using fp a(1) N blk_zero_mono [of a "walFramePage n"] blk_zero_end(1) [of a] by (cases "a = walFramePage n") auto
  have e: "(a + 1 = N) = (n \<le> blk_end a)"
  proof
    assume "n \<le> blk_end a"
    then show "a + 1 = N" using frame_page_eq [OF z] N by simp
  qed (use fp N in auto)
  note s = init_segment_rep [OF r n(2) z e p]
  have all: "all_pairs (?s # ss) = seg_pairs ?s \<union> all_pairs ss" by (simp add: all_pairs_def)
  have later: "f < f'" if "(q, f) \<in> seg_pairs ?s" "(q', f') \<in> all_pairs ss" for q f q' f'
  proof -
    have "Suc a < N" using that(2) ss(4) a(1) by (cases "Suc a = N") (auto simp: all_pairs_def)
    then have "blk_zero (Suc a) < f'" using ss(3) that(2) by (auto simp: covers_def)
    moreover have "f \<le> blk_end a" using s(2) that(1) by (auto simp: covers_def)
    ultimately show ?thesis by (simp add: blk_end_Suc)
  qed
  have "segs_ok 0 (?s # ss)"
    using ss(2) s(1) later by (fastforce simp: segs_ok_def all_pairs_def)
  moreover have "covers fs (blk_zero a) n (all_pairs (?s # ss))"
  proof (cases "Suc a = N")
    case True
    then have "min n (blk_end a) = n" "ss = []" using e ss(4) by simp_all
    then show ?thesis using s(2) by (simp add: all_pairs_def)
  next
    case False
    then have c: "covers fs (blk_end a) n (all_pairs ss)" and le: "blk_end a < n" using ss(3) a(1) e by (simp_all add: blk_end_Suc)
    then have s': "covers fs (blk_zero a) (blk_end a) (seg_pairs ?s)" using s(2) by (simp add: min_def)
    show ?thesis unfolding all covers_def
    proof (intro conjI allI impI)
      fix q f assume "(q, f) \<in> seg_pairs ?s \<union> all_pairs ss"
      then consider "(q, f) \<in> seg_pairs ?s" | "(q, f) \<in> all_pairs ss" by blast
      then have "blk_zero a < f \<and> f \<le> n \<and> fs ! (f - 1) = q"
      proof cases
        case 1
        then have "blk_zero a < f \<and> f \<le> blk_end a \<and> fs ! (f - 1) = q" using s' unfolding covers_def by blast
        then show ?thesis using le by simp
      next
        case 2
        then have "blk_end a < f \<and> f \<le> n \<and> fs ! (f - 1) = q" using c unfolding covers_def by blast
        then show ?thesis using blk_zero_end(1) [of a] by simp
      qed
      then show "blk_zero a < f" "f \<le> n" "fs ! (f - 1) = q" by blast+
    next
      fix f assume "blk_zero a < f" "f \<le> n"
      then show "\<exists>f'. f \<le> f' \<and> (fs ! (f - 1), f') \<in> seg_pairs ?s \<union> all_pairs ss"
        using s' c unfolding covers_def by (cases "f \<le> blk_end a") (meson UnCI not_le)+
    qed
  qed
  ultimately show ?case using ss(1) a by (auto simp: walHashGet_ok ok)
qed

lemma empty_segment_ok: "seg_at 0 empty_segment" "seg_pairs empty_segment = {}"
  by (simp_all add: seg_at_def empty_segment_def seg_pairs_def)

lemma segs_ok_empty: "segs_ok 0 ss \<Longrightarrow> segs_ok 0 (replicate k empty_segment @ ss)"
  by (induction k) (simp_all add: segs_ok_def empty_segment_ok)

lemma all_pairs_empty: "all_pairs (replicate k empty_segment @ ss) = all_pairs ss"
  by (induction k) (simp_all add: all_pairs_def empty_segment_ok)

text \<open>The shared lemma of the iterator's start.\<close>

lemma walIteratorInit_rep:
  assumes r: "wi_rep m fs" and ok: "\<And>b. map_rc b = 0" and n: "mxFrame (hdr w) \<le> length fs" "nB < mxFrame (hdr w)"
    and p: "\<forall>k<mxFrame (hdr w). fs ! k < NO_PAGE"
  obtains it where "walIteratorInit False map_rc m w nB = Inr it" "iPrior it = 0" "segs_ok 0 (aSegment it)"
    "covers fs (blk_zero (walFramePage (nB + 1))) (mxFrame (hdr w)) (all_pairs (aSegment it))"
proof -
  let ?n = "mxFrame (hdr w)" and ?a = "walFramePage (nB + 1)"
  have a: "?a < walFramePage ?n + 1" using n(2) by (simp add: walFramePage_eq div_le_mono less_Suc_eq_le)
  obtain ss where ss: "init_segments map_rc m ?n (walFramePage ?n + 1) [?a ..< walFramePage ?n + 1] = Inr ss" "segs_ok 0 ss"
    "covers fs (blk_zero ?a) ?n (all_pairs ss)"
    using init_segments_rep [where map_rc = map_rc, OF r ok _ n(1) p refl, of ?a] a n(2) by auto
  show ?thesis
    by (rule that [of "\<lparr>iPrior = 0, aSegment = replicate ?a empty_segment @ ss\<rparr>"])
       (use ss a in \<open>simp_all add: walIteratorInit_def Let_def segs_ok_empty all_pairs_empty min_def\<close>)
qed

subsection \<open>Property\<close>

text \<open>C21: The bottom-up merge sort with its thirteen sub-lists puts the entries of one page of the wal-index in
  the order of their database pages and keeps exactly the last entry of every page.\<close>

theorem Mergesort_keeps_last_frames:
  assumes "0 < n" "n \<le> HASHTABLE_NPAGE"
  shows "sorted_wrt (\<lambda>i j. c i < c j) (walMergesort c [0..<n])
    \<and> set (walMergesort c [0..<n]) = {i. i < n \<and> (\<forall>j<n. c j = c i \<longrightarrow> j \<le> i)}"
  using walMergesort_seg [of n c] assms by (auto simp: seg_ok_def lasts_def wal_consts)

theorem Mergesort_keeps_last_frames_witness:
  "set (walMergesort (\<lambda>i. [5, 7, 5, 2, 7] ! i) [0..<5]) = {i. i < 5 \<and> (\<forall>j<5. [5, 7, 5, 2, 7] ! j = ([5, 7, 5, 2, 7] ! i :: nat) \<longrightarrow> j \<le> i)}
    \<and> walMergesort (\<lambda>i. [5, 7, 5, 2, 7] ! i) [0..<5] = [3, 2, 4]"
proof -
  have "walMergesort (\<lambda>i. [5, 7, 5, 2, 7] ! i) [0..<5] = [3, 2, 4]" by code_simp
  then show ?thesis using Mergesort_keeps_last_frames [of 5 "\<lambda>i. [5, 7, 5, 2, 7] ! i"] by (simp add: wal_consts)
qed

end
