(* ===== verification/Wal_Checkpoint.thy ===== *)
theory Wal_Checkpoint
  imports Wal_Iterator
begin

section \<open>Checkpoints (wal.c)\<close>

text \<open>
  A checkpoint copies the frames of the log into the database file, as far as no reader needs the old
  content. The log and the database are byte blocks; \<open>ckpt_env\<close> is everything the outside world decides
  during one call: which locks are granted, which allocations, reads, writes, truncations and syncs
  succeed, what a failing write leaves of the page it was given, and when the call is interrupted.
\<close>

definition SQLITE_INTERRUPT :: nat where "SQLITE_INTERRUPT = 9"
definition WAL_HDRSIZE :: nat where "WAL_HDRSIZE = 32"
definition WAL_FRAME_HDRSIZE :: nat where "WAL_FRAME_HDRSIZE = 24"

datatype ckpt_mode = PASSIVE | FULL | RESTART | TRUNCATE

record ckpt_env =
  lockRc :: "nat \<Rightarrow> nat"
  oomIter :: bool
  syncWalRc :: nat
  fileSizeRc :: nat
  readWalRc :: "nat \<Rightarrow> nat"
  writeDbRc :: "nat \<Rightarrow> nat"
  tornWrite :: "nat \<Rightarrow> bytes"
  truncDbRc :: nat
  syncDbRc :: nat
  truncWalRc :: nat
  isInterrupted :: "nat \<Rightarrow> bool"
  mallocFailed :: bool
  newSalt :: bytes

definition walFrameOffset :: "nat \<Rightarrow> nat \<Rightarrow> nat" where
  "walFrameOffset iFrame szPage = WAL_HDRSIZE + (iFrame - 1) * (szPage + WAL_FRAME_HDRSIZE)"

definition walPagesize :: "Wal \<Rightarrow> nat" where
  "walPagesize w = (szPage16 (hdr w) AND 0xfe00) + push_bit 16 (szPage16 (hdr w) AND 1)"

text \<open>\<open>n\<close> neighbouring locks are granted when each of them is.\<close>

definition walBusyLock :: "ckpt_env \<Rightarrow> nat \<Rightarrow> nat \<Rightarrow> nat" where
  "walBusyLock env lockIdx n =
     (case find (\<lambda>i. lockRc env i \<noteq> 0) [lockIdx ..< lockIdx + n] of None \<Rightarrow> 0 | Some i \<Rightarrow> lockRc env i)"

text \<open>The read marks bound what may be copied; a mark nobody holds is moved out of the way.\<close>

fun safe_frame :: "ckpt_env \<Rightarrow> nat list \<Rightarrow> nat list \<Rightarrow> nat \<Rightarrow> nat \<times> nat list \<times> nat" where
  "safe_frame env [] marks mxSafeFrame = (0, marks, mxSafeFrame)"
| "safe_frame env (i # is') marks mxSafeFrame =
     (let y = marks ! i
      in if mxSafeFrame > y then
           let rc = walBusyLock env i 1
           in if rc = 0 then safe_frame env is' (marks[i := (if i = 1 then mxSafeFrame else READMARK_NOT_USED)]) mxSafeFrame
              else if rc = SQLITE_BUSY then safe_frame env is' marks y
              else (rc, marks, mxSafeFrame)
         else safe_frame env is' marks mxSafeFrame)"

definition frame_data :: "bytes \<Rightarrow> nat \<Rightarrow> nat \<Rightarrow> bytes" where
  "frame_data wal szPage iFrame = read_at wal szPage (walFrameOffset iFrame szPage + WAL_FRAME_HDRSIZE)"

text \<open>One page the iterator returned.\<close>

definition copy_page :: "ckpt_env \<Rightarrow> bytes \<Rightarrow> nat \<Rightarrow> nat \<Rightarrow> nat \<Rightarrow> nat \<Rightarrow> nat \<Rightarrow> nat \<Rightarrow> bytes \<Rightarrow> nat \<times> bytes" where
  "copy_page env wal szPage nBack mxSafeFrame mxPage iDbpage iFrame db =
     (if isInterrupted env iDbpage then (if mallocFailed env then SQLITE_NOMEM else SQLITE_INTERRUPT, db)
      else if iFrame \<le> nBack \<or> iFrame > mxSafeFrame \<or> iDbpage > mxPage then (0, db)
      else if readWalRc env iFrame \<noteq> 0 then (readWalRc env iFrame, db)
      else if length wal < walFrameOffset iFrame szPage + WAL_FRAME_HDRSIZE + szPage then (SQLITE_IOERR_SHORT_READ, db)
      else if writeDbRc env iDbpage \<noteq> 0
           then (writeDbRc env iDbpage, write_at db (take szPage (tornWrite env iDbpage)) ((iDbpage - 1) * szPage))
      else (0, write_at db (frame_data wal szPage iFrame) ((iDbpage - 1) * szPage)))"

text \<open>The loop ends because the iterator returns larger and larger pages.\<close>

lemma skip_returned_gt:
  "skip_returned s iMin i < nEntry s \<Longrightarrow> iMin < sPgno s (aIndex s ! skip_returned s iMin i)"
proof (induction s iMin i rule: skip_returned.induct)
  case (1 s iMin i)
  show ?case
  proof (cases "i < nEntry s \<and> sPgno s (aIndex s ! i) \<le> iMin")
    case True
    then have "skip_returned s iMin i = skip_returned s iMin (i + 1)" by (subst skip_returned.simps) simp
    then show ?thesis using 1 True by simp
  next
    case False
    then have "skip_returned s iMin i = i" by (subst skip_returned.simps) auto
    then show ?thesis using False 1(2) by simp
  qed
qed

lemma next_in_segments_gt:
  "foldr (next_in_segment iMin) ss (NO_PAGE, f0, []) = (r, fr, ss') \<Longrightarrow> r = NO_PAGE \<or> (iMin < r \<and> r < NO_PAGE)"
proof (induction ss arbitrary: r fr ss')
  case (Cons s ss)
  obtain r1 fr1 ss1 where f: "foldr (next_in_segment iMin) ss (NO_PAGE, f0, []) = (r1, fr1, ss1)"
    by (cases "foldr (next_in_segment iMin) ss (NO_PAGE, f0, [])")
  define i where "i = skip_returned s iMin (iNext s)"
  have n: "next_in_segment iMin s (r1, fr1, ss1) = (r, fr, ss')" using Cons.prems f by simp
  show ?case
  proof (cases "i < nEntry s \<and> sPgno s (aIndex s ! i) < r1")
    case True
    then have "r = sPgno s (aIndex s ! i)" using n by (auto simp: next_in_segment_def Let_def i_def [symmetric])
    then show ?thesis using skip_returned_gt [of s iMin "iNext s"] True Cons.IH [OF f] by (auto simp: i_def)
  next
    case False
    then have "r = r1" using n by (auto simp: next_in_segment_def Let_def i_def [symmetric])
    then show ?thesis using Cons.IH [OF f] by simp
  qed
qed simp

lemma walIteratorNext_gt:
  "walIteratorNext p f0 = (stop, pg, fr, p') \<Longrightarrow> \<not> stop \<Longrightarrow> iPrior p < iPrior p' \<and> iPrior p' < NO_PAGE \<and> iPrior p' = pg"
  using next_in_segments_gt [of "iPrior p" "aSegment p" f0]
  by (cases "foldr (next_in_segment (iPrior p)) (aSegment p) (NO_PAGE, f0, [])") (auto simp: walIteratorNext_def)

function ckpt_loop :: "ckpt_env \<Rightarrow> bytes \<Rightarrow> nat \<Rightarrow> nat \<Rightarrow> nat \<Rightarrow> nat \<Rightarrow> WalIterator \<Rightarrow> nat \<Rightarrow> bytes \<Rightarrow> nat \<times> bytes" where
  "ckpt_loop env wal szPage nBack mxSafeFrame mxPage it iFrame db =
     (case walIteratorNext it iFrame of (stop, iDbpage, iFrame, it) \<Rightarrow>
        if stop then (0, db)
        else case copy_page env wal szPage nBack mxSafeFrame mxPage iDbpage iFrame db of (rc, db) \<Rightarrow>
          if rc \<noteq> 0 then (rc, db) else ckpt_loop env wal szPage nBack mxSafeFrame mxPage it iFrame db)"
  by pat_completeness auto
termination
  by (relation "measure (\<lambda>(_, _, _, _, _, _, it, _, _). NO_PAGE - iPrior it)")
     (auto dest!: sym [of _ "walIteratorNext _ _"] walIteratorNext_gt)

definition ftruncate :: "bytes \<Rightarrow> nat \<Rightarrow> bytes" where
  "ftruncate db n = take n db @ replicate (n - length db) 0"

text \<open>The part under the lock that keeps readers from starting on the database file alone.\<close>

definition backfill_locked :: "ckpt_env \<Rightarrow> wal_shm \<Rightarrow> Wal \<Rightarrow> bytes \<Rightarrow> bytes \<Rightarrow> nat \<Rightarrow> WalIterator \<Rightarrow> nat \<times> wal_shm \<times> bytes" where
  "backfill_locked env m w wal db mxSafeFrame it =
     (let szPage = walPagesize w; nBack = nBackfill (shmInfo m); nReq = nPage (hdr w) * szPage
      in if aSalt (shmHdr m) \<noteq> aSalt (hdr w) then (0, m, db)
         else let m = m\<lparr>shmInfo := (shmInfo m)\<lparr>nBackfillAttempted := mxSafeFrame\<rparr>\<rparr>
           in if syncWalRc env \<noteq> 0 then (syncWalRc env, m, db)
              else if fileSizeRc env \<noteq> 0 then (fileSizeRc env, m, db)
              else if length db < nReq \<and> length db + 65536 + mxFrame (hdr w) * szPage < nReq then (SQLITE_CORRUPT, m, db)
              else case ckpt_loop env wal szPage nBack mxSafeFrame (nPage (hdr w)) it 0 db of (rc, db) \<Rightarrow>
                if rc \<noteq> 0 then (rc, m, db)
                else if mxSafeFrame = mxFrame (shmHdr m) \<and> truncDbRc env \<noteq> 0 then (truncDbRc env, m, db)
                else let db = (if mxSafeFrame = mxFrame (shmHdr m) then ftruncate db nReq else db)
                  in if mxSafeFrame = mxFrame (shmHdr m) \<and> syncDbRc env \<noteq> 0 then (syncDbRc env, m, db)
                     else (0, m\<lparr>shmInfo := (shmInfo m)\<lparr>nBackfill := mxSafeFrame\<rparr>\<rparr>, db))"

definition backfill :: "ckpt_env \<Rightarrow> (nat \<Rightarrow> nat) \<Rightarrow> wal_shm \<Rightarrow> Wal \<Rightarrow> bytes \<Rightarrow> bytes \<Rightarrow> nat \<Rightarrow> nat \<times> wal_shm \<times> bytes" where
  "backfill env map_rc m w wal db mxSafeFrame =
     (if nBackfill (shmInfo m) < mxSafeFrame then
        case walIteratorInit (oomIter env) map_rc m w (nBackfill (shmInfo m)) of
          Inl rc \<Rightarrow> (rc, m, db)
        | Inr it \<Rightarrow> if walBusyLock env 0 1 \<noteq> 0 then (walBusyLock env 0 1, m, db)
                   else backfill_locked env m w wal db mxSafeFrame it
      else (0, m, db))"

definition ckpt_finish :: "ckpt_env \<Rightarrow> ckpt_mode \<Rightarrow> wal_shm \<Rightarrow> Wal \<Rightarrow> bytes \<Rightarrow> nat \<times> wal_shm \<times> Wal \<times> bytes" where
  "ckpt_finish env eMode m w wal =
     (if eMode = PASSIVE then (0, m, w, wal)
      else if nBackfill (shmInfo m) < mxFrame (hdr w) then (SQLITE_BUSY, m, w, wal)
      else if eMode = FULL then (0, m, w, wal)
      else if walBusyLock env 1 (WAL_NREADER - 1) \<noteq> 0 then (walBusyLock env 1 (WAL_NREADER - 1), m, w, wal)
      else if eMode = TRUNCATE then
        (case walRestartHdr m w (newSalt env) of (m, w) \<Rightarrow> (truncWalRc env, m, w, if truncWalRc env = 0 then [] else wal))
      else (0, m, w, wal))"

definition walCheckpoint :: "ckpt_env \<Rightarrow> (nat \<Rightarrow> nat) \<Rightarrow> ckpt_mode \<Rightarrow> wal_shm \<Rightarrow> Wal \<Rightarrow> bytes \<Rightarrow> bytes
    \<Rightarrow> nat \<times> wal_shm \<times> Wal \<times> bytes \<times> bytes" where
  "walCheckpoint env map_rc eMode m w wal db =
     (let (rc, m, db, out) =
        (if nBackfill (shmInfo m) < mxFrame (hdr w) then
           case safe_frame env [1..<WAL_NREADER] (aReadMark (shmInfo m)) (mxFrame (hdr w)) of (rc, marks, mxSafeFrame) \<Rightarrow>
             let m = m\<lparr>shmInfo := (shmInfo m)\<lparr>aReadMark := marks\<rparr>\<rparr>
             in if rc \<noteq> 0 then (rc, m, db, True)
                else case backfill env map_rc m w wal db mxSafeFrame of (rc, m, db) \<Rightarrow> (if rc = SQLITE_BUSY then 0 else rc, m, db, False)
         else (0, m, db, False))
      in if out \<or> rc \<noteq> 0 then (rc, m, w, wal, db)
         else case ckpt_finish env eMode m w wal of (rc, m, w, wal) \<Rightarrow> (rc, m, w, wal, db))"

text \<open>What a connection reads (\<open>readDbPage\<close> of the pager): the frame it finds in the log, or the page of the
  database file, where bytes behind the end of the file read as 0.\<close>

definition sqlite3WalReadFrame :: "Wal \<Rightarrow> bytes \<Rightarrow> nat \<Rightarrow> nat \<Rightarrow> bytes" where
  "sqlite3WalReadFrame c wal iRead nOut =
     (let sz = walPagesize c in read_at wal (if nOut > sz then sz else nOut) (walFrameOffset iRead sz + WAL_FRAME_HDRSIZE))"

definition page_image :: "bytes \<Rightarrow> nat \<Rightarrow> nat \<Rightarrow> bytes" where
  "page_image db szPage p = map (\<lambda>i. byte_at db ((p - 1) * szPage + i)) [0..<szPage]"

definition readDbPage :: "(nat \<Rightarrow> nat) \<Rightarrow> wal_shm \<Rightarrow> Wal \<Rightarrow> bytes \<Rightarrow> bytes \<Rightarrow> nat \<Rightarrow> nat \<Rightarrow> nat + bytes" where
  "readDbPage map_rc m c wal db pageSize pgno =
     (case walFindFrame map_rc m c pgno of
        Inl rc \<Rightarrow> Inl rc
      | Inr iFrame \<Rightarrow> Inr (if iFrame \<noteq> 0 then sqlite3WalReadFrame c wal iFrame pageSize else page_image db pageSize pgno))"

abbreviation read_page :: "(nat \<Rightarrow> nat) \<Rightarrow> wal_shm \<Rightarrow> Wal \<Rightarrow> bytes \<Rightarrow> bytes \<Rightarrow> nat \<Rightarrow> nat + bytes" where
  "read_page map_rc m c wal db p \<equiv> readDbPage map_rc m c wal db (walPagesize c) p"

lemma sqlite3WalReadFrame_page [simp]: "sqlite3WalReadFrame c wal iRead (walPagesize c) = frame_data wal (walPagesize c) iRead"
  by (simp add: sqlite3WalReadFrame_def frame_data_def Let_def)

declare ckpt_loop.simps [simp del]

subsection \<open>Pages of the database file\<close>

lemma byte_at_take: "i < n \<Longrightarrow> byte_at (take n p) i = byte_at p i"
  by (simp add: byte_at_def)

lemma byte_at_write_at:
  "byte_at (write_at c d off) i = (if off \<le> i \<and> i < off + length d then d ! (i - off) else byte_at c i)"
proof -
  let ?A = "take off (c @ replicate (off - length c) 0)"
  have w: "write_at c d off = ?A @ d @ drop (off + length d) c" by (simp add: write_at_def)
  have l: "length ?A = off" by simp
  consider "i < off" | "off \<le> i" "i < off + length d" | "off + length d \<le> i" by linarith
  then show ?thesis
  proof cases
    case 1
    then have "byte_at (write_at c d off) i = byte_at (c @ replicate (off - length c) 0) i"
      unfolding w byte_at_append [of ?A] l by (simp only: if_True byte_at_take)
    also have "\<dots> = byte_at c i" using 1 by (auto simp: byte_at_def nth_append)
    finally show ?thesis using 1 by simp
  next
    case 2
    then have "byte_at (write_at c d off) i = byte_at d (i - off)" unfolding w byte_at_append l by auto
    moreover have "i - off < length d" using 2 by linarith
    ultimately show ?thesis using 2 by (simp add: byte_at_def [of d])
  next
    case 3
    then have "\<not> i < off" "\<not> i - off < length d" "off + length d + (i - off - length d) = i" by linarith+
    then show ?thesis unfolding w byte_at_append l by simp
  qed
qed

lemma page_image_eqI: "(\<And>i. i < sz \<Longrightarrow> byte_at db' ((p - 1) * sz + i) = byte_at db ((p - 1) * sz + i)) \<Longrightarrow> page_image db' sz p = page_image db sz p"
  by (simp add: page_image_def)

lemma page_off:
  assumes "0 < p" "0 < q" "p \<noteq> q" "i < sz"
  shows "(p - 1) * sz + i < (q - 1) * sz \<or> (q - 1) * sz + sz \<le> (p - 1) * sz + (i :: nat)"
proof (cases "p < q")
  case True
  then have "p \<le> q - 1" using assms(1) by simp
  then have "p * sz \<le> (q - 1) * sz" by simp
  moreover have "(p - 1) * sz + sz = p * sz" using assms(1) by (cases p) simp_all
  ultimately show ?thesis using assms(4) by linarith
next
  case False
  then have "q \<le> p - 1" using assms(2,3) by simp
  then have "q * sz \<le> (p - 1) * sz" by simp
  moreover have "(q - 1) * sz + sz = q * sz" using assms(2) by (cases q) simp_all
  ultimately show ?thesis by linarith
qed

lemma page_image_other:
  assumes "0 < p" "0 < q" "p \<noteq> q" "length d \<le> sz"
  shows "page_image (write_at db d ((q - 1) * sz)) sz p = page_image db sz p"
proof (rule page_image_eqI)
  fix i assume "i < sz"
  then show "byte_at (write_at db d ((q - 1) * sz)) ((p - 1) * sz + i) = byte_at db ((p - 1) * sz + i)"
    using page_off [OF assms(1-3)] assms(4) by (simp only: byte_at_write_at) force
qed

lemma page_image_same: "length d = sz \<Longrightarrow> page_image (write_at db d ((p - 1) * sz)) sz p = d"
  by (rule nth_equalityI) (simp_all add: page_image_def byte_at_write_at)

lemma byte_at_ftruncate: "i < n \<Longrightarrow> byte_at (ftruncate db n) i = byte_at db i"
  by (auto simp: byte_at_def ftruncate_def nth_append min_def split: if_splits)

lemma page_image_ftruncate:
  assumes "0 < p" "p \<le> n"
  shows "page_image (ftruncate db (n * sz)) sz p = page_image db sz p"
proof (rule page_image_eqI)
  fix i assume "i < sz"
  moreover have "(p - 1) * sz + sz = p * sz" using assms(1) by (cases p) simp_all
  moreover have "p * sz \<le> n * sz" using assms(2) by simp
  ultimately show "byte_at (ftruncate db (n * sz)) ((p - 1) * sz + i) = byte_at db ((p - 1) * sz + i)"
    by (intro byte_at_ftruncate) linarith
qed

subsection \<open>The copying loop\<close>

definition last_pair :: "(nat \<times> nat) set \<Rightarrow> nat \<Rightarrow> nat \<Rightarrow> bool" where
  "last_pair E p f \<longleftrightarrow> (p, f) \<in> E \<and> (\<forall>f'. (p, f') \<in> E \<longrightarrow> f' \<le> f)"

lemma last_pair_unique: "last_pair E p f \<Longrightarrow> last_pair E p f' \<Longrightarrow> f = f'"
  by (simp add: last_pair_def le_antisym)

text \<open>The pages a checkpoint may write, with the frame they get.\<close>

definition copies :: "(nat \<times> nat) set \<Rightarrow> nat \<Rightarrow> nat \<Rightarrow> nat \<Rightarrow> nat \<Rightarrow> nat \<Rightarrow> nat \<Rightarrow> bool" where
  "copies E lo nBack mxSafe mxPage p f \<longleftrightarrow> lo < p \<and> last_pair E p f \<and> nBack < f \<and> f \<le> mxSafe \<and> p \<le> mxPage"

lemma copy_page_other:
  assumes "copy_page env wal sz nBack mxSafe mxPage q f db = (rc, db')" "0 < p" "0 < q" "p \<noteq> q \<or> \<not> (nBack < f \<and> f \<le> mxSafe \<and> q \<le> mxPage)"
  shows "page_image db' sz p = page_image db sz p"
proof (cases "p = q")
  case True
  then have "f \<le> nBack \<or> f > mxSafe \<or> q > mxPage" using assms(4) by auto
  then show ?thesis using assms(1) by (auto simp: copy_page_def split: if_splits)
next
  case False
  have w: "page_image (write_at db d ((q - 1) * sz)) sz p = page_image db sz p" if "length d \<le> sz" for d
    by (rule page_image_other [OF assms(2,3) False that])
  have l: "length (take sz (tornWrite env q)) \<le> sz" "length (frame_data wal sz f) \<le> sz" by (simp_all add: frame_data_def read_at_def)
  show ?thesis using assms(1) w [OF l(1)] w [OF l(2)] unfolding copy_page_def by (auto split: if_splits)
qed

lemma copy_page_ok:
  assumes "copy_page env wal sz nBack mxSafe mxPage q f db = (0, db')" "nBack < f" "f \<le> mxSafe" "q \<le> mxPage"
  shows "page_image db' sz q = frame_data wal sz f"
proof -
  have "length (frame_data wal sz f) = sz" "db' = write_at db (frame_data wal sz f) ((q - 1) * sz)"
    using assms by (auto simp: copy_page_def frame_data_def read_at_def result_codes SQLITE_INTERRUPT_def split: if_splits)
  then show ?thesis by (simp only: page_image_same)
qed

lemma ckpt_loop_ok:
  "segs_ok (iPrior it) (aSegment it) \<Longrightarrow> ckpt_loop env wal sz nBack mxSafe mxPage it f0 db = (rc, db') \<Longrightarrow> 0 < p \<Longrightarrow>
    ((\<nexists>f. copies (all_pairs (aSegment it)) (iPrior it) nBack mxSafe mxPage p f) \<longrightarrow> page_image db' sz p = page_image db sz p)
    \<and> (rc = 0 \<longrightarrow> (\<forall>f. copies (all_pairs (aSegment it)) (iPrior it) nBack mxSafe mxPage p f \<longrightarrow> page_image db' sz p = frame_data wal sz f))"
proof (induction env wal sz nBack mxSafe mxPage it f0 db arbitrary: rc db' rule: ckpt_loop.induct)
  case (1 env wal sz nBack mxSafe mxPage it f0 db)
  let ?E = "all_pairs (aSegment it)"
  obtain stop pg fr it' where n: "walIteratorNext it f0 = (stop, pg, fr, it')" by (cases "walIteratorNext it f0")
  note spec = walIteratorNext_ok [OF 1(2) n]
  show ?case
  proof (cases stop)
    case True
    then have "ckpt_loop env wal sz nBack mxSafe mxPage it f0 db = (0, db)" by (subst ckpt_loop.simps) (simp add: n)
    moreover have "\<not> copies ?E (iPrior it) nBack mxSafe mxPage p f" for f
    proof
      assume "copies ?E (iPrior it) nBack mxSafe mxPage p f"
      then have "(p, f) \<in> ?E" "iPrior it < p" by (simp_all add: copies_def last_pair_def)
      moreover have "\<forall>(q, f)\<in>?E. q \<le> iPrior it" using spec(1,4) True by (auto simp: offers_def)
      ultimately show False by fastforce
    qed
    ultimately show ?thesis using 1(3) by simp
  next
    case False
    have o: "iPrior it < pg" "(pg, fr) \<in> ?E" "\<And>q f. (q, f) \<in> ?E \<Longrightarrow> iPrior it < q \<Longrightarrow> pg < q \<or> (pg = q \<and> f \<le> fr)"
      using spec(1,4) False by (auto simp: offers_def)
    have lp: "last_pair ?E pg fr" unfolding last_pair_def using o by (auto dest: o(3))
    obtain rc1 db1 where c: "copy_page env wal sz nBack mxSafe mxPage pg fr db = (rc1, db1)"
      by (cases "copy_page env wal sz nBack mxSafe mxPage pg fr db")
    have loop: "ckpt_loop env wal sz nBack mxSafe mxPage it f0 db
        = (if rc1 \<noteq> 0 then (rc1, db1) else ckpt_loop env wal sz nBack mxSafe mxPage it' fr db1)"
      using False by (subst ckpt_loop.simps) (simp add: n c)
    have pg: "0 < pg" using o(1) by simp
    have lower: "\<not> copies ?E (iPrior it) nBack mxSafe mxPage p f" if "p < pg" for f
    proof
      assume "copies ?E (iPrior it) nBack mxSafe mxPage p f"
      then have "(p, f) \<in> ?E" "iPrior it < p" by (simp_all add: copies_def last_pair_def)
      then show False using o(3) [of p f] that by auto
    qed
    have upper: "copies ?E (iPrior it) nBack mxSafe mxPage p f = copies ?E pg nBack mxSafe mxPage p f" if "pg < p" for f
      using that o(1) by (simp add: copies_def)
    have at: "copies ?E (iPrior it) nBack mxSafe mxPage pg f \<longleftrightarrow> f = fr \<and> nBack < fr \<and> fr \<le> mxSafe \<and> pg \<le> mxPage" for f
      using lp last_pair_unique [OF lp, of f] o(1) unfolding copies_def by blast
    have one: "page_image db1 sz p = page_image db sz p" if "\<nexists>f. copies ?E (iPrior it) nBack mxSafe mxPage p f"
      using copy_page_other [OF c 1(4) pg] that at by auto
    have other: "page_image db1 sz p = page_image db sz p" if "p \<noteq> pg"
      using copy_page_other [OF c 1(4) pg] that by auto
    show ?thesis
    proof (cases "rc1 = 0")
      case False
      then have "rc = rc1" "db' = db1" using loop 1(3) by simp_all
      then show ?thesis using one False by simp
    next
      case True
      have l: "ckpt_loop env wal sz nBack mxSafe mxPage it' fr db1 = (rc, db')" using loop 1(3) True by simp
      have so: "segs_ok (iPrior it') (aSegment it')" by (rule spec(5) [OF False])
      have IH: "((\<nexists>f. copies ?E pg nBack mxSafe mxPage p f) \<longrightarrow> page_image db' sz p = page_image db1 sz p)
          \<and> (rc = 0 \<longrightarrow> (\<forall>f. copies ?E pg nBack mxSafe mxPage p f \<longrightarrow> page_image db' sz p = frame_data wal sz f))"
        using 1(1) [OF n [symmetric] refl refl False c [symmetric] _ so l 1(4)] True by (simp add: spec(2,3))
      consider "p < pg" | "p = pg" | "pg < p" by linarith
      then show ?thesis
      proof cases
        case 1
        then have "\<not> copies ?E pg nBack mxSafe mxPage p f" for f by (simp add: copies_def)
        then show ?thesis using IH lower [OF 1] one by simp
      next
        case 2
        then have nc: "\<not> copies ?E pg nBack mxSafe mxPage p f" for f by (simp add: copies_def)
        have "page_image db1 sz pg = frame_data wal sz fr" if "nBack < fr" "fr \<le> mxSafe" "pg \<le> mxPage"
          by (rule copy_page_ok) (use c True that in simp_all)
        then show ?thesis using IH nc one at 2 by auto
      next
        case 3
        then show ?thesis using IH upper [OF 3] other by auto
      qed
    qed
  qed
qed

subsection \<open>What a checkpoint does\<close>

definition is_last :: "nat list \<Rightarrow> nat \<Rightarrow> nat \<Rightarrow> nat \<Rightarrow> bool" where
  "is_last fs n p f \<longleftrightarrow> 0 < f \<and> f \<le> n \<and> fs ! (f - 1) = p \<and> (\<forall>g. f < g \<longrightarrow> g \<le> n \<longrightarrow> fs ! (g - 1) \<noteq> p)"

lemma last_pair_is_last:
  assumes c: "covers fs lo n E" and lo: "lo \<le> nBack"
  shows "nBack < f \<Longrightarrow> last_pair E p f \<longleftrightarrow> is_last fs n p f"
proof
  assume f: "nBack < f" and l: "last_pair E p f"
  have a: "lo < f" "f \<le> n" "fs ! (f - 1) = p" using l c by (auto simp: last_pair_def covers_def)
  have "fs ! (g - 1) \<noteq> p" if g: "f < g" "g \<le> n" for g
  proof
    assume "fs ! (g - 1) = p"
    moreover have "lo < g" using a g by simp
    ultimately obtain g' where "g \<le> g'" "(p, g') \<in> E" using c g unfolding covers_def by blast
    then show False using l g by (auto simp: last_pair_def)
  qed
  then show "is_last fs n p f" using a by (simp add: is_last_def)
next
  assume f: "nBack < f" and l: "is_last fs n p f"
  have le: "f' \<le> f" if "(p, f') \<in> E" for f'
    using that c l by (auto simp: covers_def is_last_def not_less [symmetric])
  have "lo < f" using f lo by simp
  then obtain f' where "f \<le> f'" "(p, f') \<in> E" using c l unfolding covers_def is_last_def by blast
  moreover from this have "f' = f" using le [of f'] by simp
  ultimately show "last_pair E p f" using le by (simp add: last_pair_def)
qed

lemma walBusyLock_1 [simp]: "walBusyLock env i (Suc 0) = lockRc env i"
  by (simp add: walBusyLock_def)

lemma safe_frame_ok:
  "safe_frame env is' marks mx = (rc, marks', mx') \<Longrightarrow> distinct is' \<Longrightarrow>
    mx' \<le> mx \<and> (\<forall>i\<in>set is'. lockRc env i = SQLITE_BUSY \<longrightarrow> rc = 0 \<longrightarrow> mx' \<le> marks ! i)
    \<and> (\<forall>i. lockRc env i = SQLITE_BUSY \<longrightarrow> marks' ! i = marks ! i)"
proof (induction is' arbitrary: marks mx)
  case (Cons i is')
  let ?y = "marks ! i" and ?rc = "lockRc env i"
  consider "mx \<le> ?y" | "?y < mx" "?rc = 0" | "?y < mx" "?rc = SQLITE_BUSY" | "?y < mx" "?rc \<noteq> 0" "?rc \<noteq> SQLITE_BUSY" by linarith
  then show ?case
  proof cases
    case 1
    then have "safe_frame env is' marks mx = (rc, marks', mx')" using Cons.prems(1) by simp
    from Cons.IH [OF this] show ?thesis using Cons.prems(2) 1 by auto
  next
    case 2
    let ?m = "marks[i := (if i = 1 then mx else READMARK_NOT_USED)]"
    have "safe_frame env is' ?m mx = (rc, marks', mx')" using Cons.prems(1) 2 by simp
    from Cons.IH [OF this] Cons.prems(2)
    have IH: "mx' \<le> mx" "\<forall>j\<in>set is'. lockRc env j = SQLITE_BUSY \<longrightarrow> rc = 0 \<longrightarrow> mx' \<le> ?m ! j"
      "\<forall>j. lockRc env j = SQLITE_BUSY \<longrightarrow> marks' ! j = ?m ! j" by simp_all
    have "?m ! j = marks ! j" if "lockRc env j = SQLITE_BUSY" for j
      using that 2(2) by (cases "j = i") (simp_all add: result_codes)
    then show ?thesis using IH 2(2) by (auto simp: result_codes)
  next
    case 3
    then have "safe_frame env is' marks ?y = (rc, marks', mx')" using Cons.prems(1) by (simp add: result_codes)
    from Cons.IH [OF this] show ?thesis using Cons.prems(2) 3 by auto
  next
    case 4
    then have "(rc, marks', mx') = (?rc, marks, mx)" using Cons.prems(1) by simp
    then show ?thesis using 4 by auto
  qed
qed auto

text \<open>The contract of the copying part: the index and the marks stay, only the last frames of pages, behind
  the nB-fill and within the safe frames, are copied, and when the nB-fill is raised they all are.\<close>

definition copied :: "nat list \<Rightarrow> Wal \<Rightarrow> nat \<Rightarrow> nat \<Rightarrow> nat \<Rightarrow> nat \<Rightarrow> bool" where
  "copied fs w nBack mxSafe p f \<longleftrightarrow> is_last fs (mxFrame (hdr w)) p f \<and> nBack < f \<and> f \<le> mxSafe \<and> p \<le> nPage (hdr w)"

definition backfilled :: "nat list \<Rightarrow> wal_shm \<Rightarrow> Wal \<Rightarrow> bytes \<Rightarrow> bytes \<Rightarrow> nat \<Rightarrow> wal_shm \<Rightarrow> bytes \<Rightarrow> bool" where
  "backfilled fs m w wal db mxSafe m' db' \<longleftrightarrow>
     shmPage m' = shmPage m \<and> shmHdr m' = shmHdr m \<and> aReadMark (shmInfo m') = aReadMark (shmInfo m)
     \<and> (\<forall>p>0. p \<le> nPage (hdr w) \<or> mxSafe \<noteq> mxFrame (shmHdr m) \<longrightarrow> (\<nexists>f. copied fs w (nBackfill (shmInfo m)) mxSafe p f)
            \<longrightarrow> page_image db' (walPagesize w) p = page_image db (walPagesize w) p)
     \<and> (nBackfill (shmInfo m') = nBackfill (shmInfo m) \<or> (nBackfill (shmInfo m') = mxSafe \<and> nBackfill (shmInfo m) < mxSafe
          \<and> (\<forall>p>0. \<forall>f. copied fs w (nBackfill (shmInfo m)) mxSafe p f
               \<longrightarrow> page_image db' (walPagesize w) p = frame_data wal (walPagesize w) f)))"

lemma backfilled_same: "backfilled fs m w wal db mxSafe m db"
  by (simp add: backfilled_def)

lemma backfilled_step:
  assumes "\<And>p. 0 < p \<Longrightarrow> p \<le> nPage (hdr w) \<or> mxSafe \<noteq> mxFrame (shmHdr m) \<Longrightarrow> \<nexists>f. copied fs w (nBackfill (shmInfo m)) mxSafe p f
      \<Longrightarrow> page_image db' (walPagesize w) p = page_image db (walPagesize w) p"
  shows "backfilled fs m w wal db mxSafe (m\<lparr>shmInfo := (shmInfo m)\<lparr>nBackfillAttempted := a\<rparr>\<rparr>) db'"
  using assms by (simp add: backfilled_def)

lemma backfill_locked_ok:
  assumes it: "iPrior it = 0" "segs_ok 0 (aSegment it)" and c: "covers fs lo (mxFrame (hdr w)) (all_pairs (aSegment it))"
    and lo: "lo \<le> nBackfill (shmInfo m)" and lt: "nBackfill (shmInfo m) < mxSafe"
    and b: "backfill_locked env m w wal db mxSafe it = (rc, m', db')"
  shows "backfilled fs m w wal db mxSafe m' db'"
proof -
  let ?sz = "walPagesize w" and ?nB = "nBackfill (shmInfo m)" and ?E = "all_pairs (aSegment it)"
  let ?m = "m\<lparr>shmInfo := (shmInfo m)\<lparr>nBackfillAttempted := mxSafe\<rparr>\<rparr>"
  obtain rc1 db1 where l: "ckpt_loop env wal ?sz ?nB mxSafe (nPage (hdr w)) it 0 db = (rc1, db1)"
    by (cases "ckpt_loop env wal ?sz ?nB mxSafe (nPage (hdr w)) it 0 db")
  have eq: "copies ?E 0 ?nB mxSafe (nPage (hdr w)) p f \<longleftrightarrow> copied fs w ?nB mxSafe p f" if "0 < p" for p f
    using last_pair_is_last [OF c lo, of f p] that by (auto simp: copies_def copied_def)
  have k: "(\<nexists>f. copied fs w ?nB mxSafe p f) \<Longrightarrow> page_image db1 ?sz p = page_image db ?sz p"
    "rc1 = 0 \<Longrightarrow> copied fs w ?nB mxSafe p f \<Longrightarrow> page_image db1 ?sz p = frame_data wal ?sz f" if "0 < p" for p f
    using ckpt_loop_ok [of it env wal ?sz ?nB mxSafe "nPage (hdr w)" 0 db rc1 db1 p] it l that eq [OF that] by auto
  have tr: "page_image (ftruncate db1 (nPage (hdr w) * ?sz)) ?sz p = page_image db1 ?sz p" if "0 < p" "p \<le> nPage (hdr w)" for p
    by (rule page_image_ftruncate [OF that])
  have s1: "backfilled fs m w wal db mxSafe ?m db" by (rule backfilled_step) simp
  have s2: "backfilled fs m w wal db mxSafe ?m db1" by (rule backfilled_step) (rule k(1))
  let ?m2 = "?m\<lparr>shmInfo := (shmInfo ?m)\<lparr>nBackfill := mxSafe\<rparr>\<rparr>" and ?db2 = "ftruncate db1 (nPage (hdr w) * ?sz)"
  have s3: "backfilled fs m w wal db mxSafe ?m ?db2" if "mxSafe = mxFrame (shmHdr m)"
    by (rule backfilled_step) (use that tr k(1) in auto)
  have s4: "backfilled fs m w wal db mxSafe ?m2 db1" if "mxSafe \<noteq> mxFrame (shmHdr m)" "rc1 = 0"
    using k lt that by (auto simp: backfilled_def)
  have s5: "backfilled fs m w wal db mxSafe ?m2 ?db2" if "mxSafe = mxFrame (shmHdr m)" "rc1 = 0"
  proof -
    have "p \<le> nPage (hdr w)" if "copied fs w ?nB mxSafe p f" for p f using that by (simp add: copied_def)
    then show ?thesis using k lt that tr by (auto simp: backfilled_def)
  qed
  show ?thesis
    using b backfilled_same [of fs m w wal db mxSafe] s1 s2 s3 s4 s5
    unfolding backfill_locked_def Let_def l by (simp split: if_splits)
qed

lemma blk_zero_back: "blk_zero (walFramePage (nB + 1)) \<le> nB"
  using frame_page(1) [of "nB + 1"] by simp

lemma backfill_ok:
  assumes r: "wi_rep m fs" and ok: "\<And>b. map_rc b = 0" and n: "mxFrame (hdr w) \<le> length fs" and p: "\<forall>k<mxFrame (hdr w). fs ! k < NO_PAGE"
    and s: "mxSafe \<le> mxFrame (hdr w)" and b: "backfill env map_rc m w wal db mxSafe = (rc, m', db')"
  shows "backfilled fs m w wal db mxSafe m' db'" "lockRc env 0 \<noteq> 0 \<Longrightarrow> m' = m \<and> db' = db"
proof -
  consider "\<not> nBackfill (shmInfo m) < mxSafe" | "nBackfill (shmInfo m) < mxSafe" "oomIter env" | "nBackfill (shmInfo m) < mxSafe" "\<not> oomIter env" by blast
  then have "backfilled fs m w wal db mxSafe m' db' \<and> (lockRc env 0 \<noteq> 0 \<longrightarrow> m' = m \<and> db' = db)"
  proof cases
    case 3
    obtain it where it: "walIteratorInit False map_rc m w (nBackfill (shmInfo m)) = Inr it" "iPrior it = 0" "segs_ok 0 (aSegment it)"
      "covers fs (blk_zero (walFramePage (nBackfill (shmInfo m) + 1))) (mxFrame (hdr w)) (all_pairs (aSegment it))"
      using walIteratorInit_rep [where map_rc = map_rc and nB = "nBackfill (shmInfo m)", OF r ok n _ p] 3(1) s by auto
    show ?thesis
    proof (cases "lockRc env 0 = 0")
      case True
      then have "backfill_locked env m w wal db mxSafe it = (rc, m', db')" using b 3 it(1) by (simp add: backfill_def)
      then show ?thesis using backfill_locked_ok [OF it(2,3,4) blk_zero_back 3(1)] True by simp
    next
      case False
      then show ?thesis using b 3 it(1) backfilled_same by (simp add: backfill_def)
    qed
  qed (use b backfilled_same in \<open>simp_all add: backfill_def walIteratorInit_def Let_def\<close>)
  then show "backfilled fs m w wal db mxSafe m' db'" "lockRc env 0 \<noteq> 0 \<Longrightarrow> m' = m \<and> db' = db" by blast+
qed

subsection \<open>Starting to read\<close>







text \<open>What protects a reader: it ignores the log, or the mark it holds is not behind its snapshot and it
  looks at every frame that is not back-filled.\<close>

definition reader_at :: "wal_shm \<Rightarrow> Wal \<Rightarrow> bool" where
  "reader_at m c \<longleftrightarrow> \<not> bShmUnreliable c \<and>
     (readLock c = 0 \<or> (1 \<le> readLock c \<and> readLock c < int WAL_NREADER
        \<and> aReadMark (shmInfo m) ! nat (readLock c) \<le> mxFrame (hdr c) \<and> minFrame c \<le> nBackfill (shmInfo m) + 1))"







subsection \<open>Readers beside a checkpoint\<close>

lemma walFindFrame_pages: "shmPage m' = shmPage m \<Longrightarrow> walFindFrame map_rc m' c p = walFindFrame map_rc m c p"
proof -
  assume e: "shmPage m' = shmPage m"
  have t: "find_in_table m' l iLast minF p k r n = find_in_table m l iLast minF p k r n" for l iLast minF k r n
  proof (induction n arbitrary: k r)
    case 0
    show ?case using e by (simp add: find_in_table.simps [of _ _ _ _ _ _ _ 0])
  next
    case (Suc n)
    show ?case using e Suc.IH by (simp add: find_in_table.simps [of _ _ _ _ _ _ _ "Suc n"] Let_def)
  qed
  have "find_in_tables map_rc m' iLast minF p bs = find_in_tables map_rc m iLast minF p bs" for iLast minF bs
    by (induction bs) (simp_all add: t split: sum.splits)
  then show ?thesis by (simp only: walFindFrame_def Let_def)
qed

lemma last_frame_0D: "last_frame pg minF p n = 0 \<Longrightarrow> 0 < f \<Longrightarrow> minF \<le> f \<Longrightarrow> f \<le> n \<Longrightarrow> pg f \<noteq> p"
  by (cases rule: last_frame_cases [of pg minF p n]) simp_all

lemma walBusyLock_0: "walBusyLock env a n = 0 \<longleftrightarrow> (\<forall>i. a \<le> i \<longrightarrow> i < a + n \<longrightarrow> lockRc env i = 0)"
proof -
  define xs where "xs = [a ..< a + n]"
  have xs: "i \<in> set xs \<longleftrightarrow> a \<le> i \<and> i < a + n" for i by (simp add: xs_def)
  show ?thesis
  proof (cases "find (\<lambda>i. lockRc env i \<noteq> 0) xs")
    case None
    then have "\<forall>i\<in>set xs. lockRc env i = 0" by (simp add: find_None_iff)
    moreover have "walBusyLock env a n = 0" unfolding walBusyLock_def xs_def [symmetric] None by simp
    ultimately show ?thesis using xs by simp
  next
    case (Some j)
    then obtain k where "k < length xs" "lockRc env (xs ! k) \<noteq> 0" "j = xs ! k" by (auto simp: find_Some_iff)
    then have "j \<in> set xs" "lockRc env j \<noteq> 0" by simp_all
    moreover have "walBusyLock env a n = lockRc env j" unfolding walBusyLock_def xs_def [symmetric] Some by simp
    ultimately show ?thesis using xs [of j] by auto
  qed
qed

lemma read_page_eq:
  assumes "wi_rep m fs" "\<And>b. map_rc b = 0" "mxFrame (hdr c) \<le> length fs" "readLock c \<noteq> 0 \<or> bShmUnreliable c" "shmPage m' = shmPage m"
  shows "read_page map_rc m' c wal db p =
    (let f = last_frame (\<lambda>f. fs ! (f - 1)) (minFrame c) p (mxFrame (hdr c))
     in Inr (if f \<noteq> 0 then frame_data wal (walPagesize c) f else page_image db (walPagesize c) p))"
  using walFindFrame_rep [where map_rc = map_rc, OF assms(1,2,3,4), of p] walFindFrame_pages [OF assms(5)]
  by (simp add: readDbPage_def Let_def)

lemma read_page_ignores: "readLock c = 0 \<Longrightarrow> \<not> bShmUnreliable c \<Longrightarrow> read_page map_rc m c wal db p = Inr (page_image db (walPagesize c) p)"
  by (simp add: readDbPage_def walFindFrame_def Let_def)

text \<open>The finish leaves the frames, and changes the log only when no reader holds a mark.\<close>

lemma ckpt_finish_ok:
  assumes "ckpt_finish env eMode m w wal = (rc, m', w', wal')"
  shows "shmPage m' = shmPage m" "eMode \<noteq> TRUNCATE \<Longrightarrow> m' = m \<and> wal' = wal"
    "1 \<le> i \<Longrightarrow> i < 5 \<Longrightarrow> lockRc env i = SQLITE_BUSY \<Longrightarrow> m' = m \<and> wal' = wal"
proof -
  show "shmPage m' = shmPage m" "eMode \<noteq> TRUNCATE \<Longrightarrow> m' = m \<and> wal' = wal"
    using assms by (auto simp: ckpt_finish_def walRestartHdr_def walIndexWriteHdr_def Let_def split: if_splits)
  assume i: "1 \<le> i" "i < 5" "lockRc env i = SQLITE_BUSY"
  have "\<not> walBusyLock env 1 (WAL_NREADER - 1) = 0"
    unfolding walBusyLock_0 using i by (auto simp: WAL_NREADER_def result_codes)
  then show "m' = m \<and> wal' = wal" using assms by (auto simp: ckpt_finish_def split: if_splits)
qed

text \<open>The whole checkpoint: the copying part within \<open>mxSafe\<close>, which is not behind the mark of any reader,
  and then the finish.\<close>

lemma walCheckpoint_parts:
  assumes r: "wi_rep m fs" and ok: "\<And>b. map_rc b = 0" and n: "mxFrame (hdr w) \<le> length fs" and p: "\<forall>k<mxFrame (hdr w). fs ! k < NO_PAGE"
    and c: "walCheckpoint env map_rc eMode m w wal db = (rc, m', w', wal', db')"
  obtains mxSafe m1 where "backfilled fs m w wal db mxSafe (m1\<lparr>shmInfo := (shmInfo m1)\<lparr>aReadMark := aReadMark (shmInfo m)\<rparr>\<rparr>) db'"
    "mxSafe \<le> mxFrame (hdr w)" "\<And>i. 1 \<le> i \<Longrightarrow> i < 5 \<Longrightarrow> lockRc env i = SQLITE_BUSY \<Longrightarrow> db' \<noteq> db \<or> nBackfill (shmInfo m1) \<noteq> nBackfill (shmInfo m) \<Longrightarrow> mxSafe \<le> aReadMark (shmInfo m) ! i"
    "\<And>i. lockRc env i = SQLITE_BUSY \<Longrightarrow> aReadMark (shmInfo m1) ! i = aReadMark (shmInfo m) ! i"
    "lockRc env 0 \<noteq> 0 \<Longrightarrow> db' = db"
    "(m', wal') = (m1, wal) \<or> (\<exists>rc w'. ckpt_finish env eMode m1 w wal = (rc, m', w', wal'))"
proof -
  let ?n = "mxFrame (hdr w)" and ?b = "nBackfill (shmInfo m)"
  have same: "backfilled fs m w wal db ?n (m\<lparr>shmInfo := (shmInfo m)\<lparr>aReadMark := aReadMark (shmInfo m)\<rparr>\<rparr>) db"
    by (simp add: backfilled_def)
  show ?thesis
  proof (cases "?b < ?n")
    case False
    then have "ckpt_finish env eMode m w wal = (rc, m', w', wal') \<and> db' = db"
      using c by (auto simp: walCheckpoint_def Let_def split: prod.splits)
    then show ?thesis using that [of ?n m] same by auto
  next
    case True
    obtain rc1 marks mxSafe where sf: "safe_frame env [1..<WAL_NREADER] (aReadMark (shmInfo m)) ?n = (rc1, marks, mxSafe)"
      by (cases "safe_frame env [1..<WAL_NREADER] (aReadMark (shmInfo m)) ?n")
    have sfo: "mxSafe \<le> ?n" "\<And>i. 1 \<le> i \<Longrightarrow> i < 5 \<Longrightarrow> lockRc env i = SQLITE_BUSY \<Longrightarrow> rc1 = 0 \<Longrightarrow> mxSafe \<le> aReadMark (shmInfo m) ! i"
      "\<And>i. lockRc env i = SQLITE_BUSY \<Longrightarrow> marks ! i = aReadMark (shmInfo m) ! i"
      using safe_frame_ok [OF sf] by (simp_all add: WAL_NREADER_def)
    let ?m = "m\<lparr>shmInfo := (shmInfo m)\<lparr>aReadMark := marks\<rparr>\<rparr>"
    show ?thesis
    proof (cases "rc1 = 0")
      case False
      then have "(m', wal') = (?m, wal)" "db' = db" using c True sf by (simp_all add: walCheckpoint_def)
      then show ?thesis using that [of ?n ?m] same sfo(3) by simp
    next
      case rc1: True
      obtain rc2 m1 db1 where b: "backfill env map_rc ?m w wal db mxSafe = (rc2, m1, db1)"
        by (cases "backfill env map_rc ?m w wal db mxSafe")
      have r': "wi_rep ?m fs" using r by (simp add: wi_rep_def)
      note bo = backfill_ok [where map_rc = map_rc, OF r' ok n p sfo(1) b]
      have e: "db' = db1" "(m', wal') = (m1, wal) \<or> (\<exists>rc w'. ckpt_finish env eMode m1 w wal = (rc, m', w', wal'))"
        using c True sf rc1 b by (auto simp: walCheckpoint_def Let_def split: if_splits prod.splits)
      have "backfilled fs m w wal db mxSafe (m1\<lparr>shmInfo := (shmInfo m1)\<lparr>aReadMark := aReadMark (shmInfo m)\<rparr>\<rparr>) db1"
        using bo(1) by (simp add: backfilled_def)
      moreover have "aReadMark (shmInfo m1) = marks" using bo(1) by (simp add: backfilled_def)
      ultimately show ?thesis using that [of mxSafe m1] sfo rc1 e bo(2) by auto
    qed
  qed
qed

text \<open>The shared lemma: a reader protected by its lock reads the same before and after.\<close>

lemma checkpoint_reader:
  assumes r: "wi_rep m fs" and ok: "\<And>b. map_rc b = 0" and n: "mxFrame (hdr w) \<le> length fs" and pg: "\<forall>k<mxFrame (hdr w). fs ! k < NO_PAGE"
    and c: "walCheckpoint env map_rc eMode m w wal db = (rc, m', w', wal', db')"
    and rd: "reader_at m c" "lockRc env (nat (readLock c)) = SQLITE_BUSY" "mxFrame (hdr c) \<le> length fs" "walPagesize c = walPagesize w"
    and p: "0 < p" "p \<le> nPage (hdr w) \<or> mxFrame (hdr c) < mxFrame (shmHdr m)"
  shows "read_page map_rc m' c wal' db' p = read_page map_rc m c wal db p" "reader_at m' c"
proof -
  obtain mxSafe m1 where b: "backfilled fs m w wal db mxSafe (m1\<lparr>shmInfo := (shmInfo m1)\<lparr>aReadMark := aReadMark (shmInfo m)\<rparr>\<rparr>) db'"
    "mxSafe \<le> mxFrame (hdr w)" "\<And>i. 1 \<le> i \<Longrightarrow> i < 5 \<Longrightarrow> lockRc env i = SQLITE_BUSY \<Longrightarrow> db' \<noteq> db \<or> nBackfill (shmInfo m1) \<noteq> nBackfill (shmInfo m) \<Longrightarrow> mxSafe \<le> aReadMark (shmInfo m) ! i"
    "\<And>i. lockRc env i = SQLITE_BUSY \<Longrightarrow> aReadMark (shmInfo m1) ! i = aReadMark (shmInfo m) ! i"
    "lockRc env 0 \<noteq> 0 \<Longrightarrow> db' = db" "(m', wal') = (m1, wal) \<or> (\<exists>rc w'. ckpt_finish env eMode m1 w wal = (rc, m', w', wal'))"
    using walCheckpoint_parts [where map_rc = map_rc, OF r ok n pg c] by blast
  have pages: "shmPage m' = shmPage m" using b(1,6) ckpt_finish_ok(1) by (fastforce simp: backfilled_def)
  have "read_page map_rc m' c wal' db' p = read_page map_rc m c wal db p \<and> reader_at m' c"
  proof (cases "readLock c = 0")
    case True
    then have "db' = db" using b(5) rd(2) by (simp add: result_codes)
    then show ?thesis using True rd(1) by (simp add: reader_at_def read_page_ignores)
  next
    case False
    let ?i = "nat (readLock c)"
    have i: "1 \<le> ?i" "?i < 5" "aReadMark (shmInfo m) ! ?i \<le> mxFrame (hdr c)" "minFrame c \<le> nBackfill (shmInfo m) + 1"
      "readLock c \<noteq> 0 \<or> bShmUnreliable c" using rd(1) False by (auto simp: reader_at_def WAL_NREADER_def)
    have fin: "m' = m1" "wal' = wal" using b(6) ckpt_finish_ok(3) [OF _ i(1,2) rd(2)] by auto
    have "nBackfill (shmInfo m) \<le> nBackfill (shmInfo m1)" using b(1) by (auto simp: backfilled_def)
    then have at: "reader_at m' c" using rd(1) b(4) [OF rd(2)] False by (auto simp: reader_at_def fin)
    let ?f = "last_frame (\<lambda>f. fs ! (f - 1)) (minFrame c) p (mxFrame (hdr c))"
    have img: "page_image db' (walPagesize c) p = page_image db (walPagesize c) p" if z: "?f = 0"
    proof (cases "db' = db")
      case False
      then have s: "mxSafe \<le> mxFrame (hdr c)" using b(3) [OF i(1,2) rd(2)] i(3) by simp
      have "\<not> copied fs w (nBackfill (shmInfo m)) mxSafe p f" for f
      proof
        assume "copied fs w (nBackfill (shmInfo m)) mxSafe p f"
        then have f: "nBackfill (shmInfo m) < f" "f \<le> mxSafe" "fs ! (f - 1) = p" by (auto simp: copied_def is_last_def)
        show False using last_frame_0D [OF z, of f] f s i(4) by simp
      qed
      moreover have "p \<le> nPage (hdr w) \<or> mxSafe \<noteq> mxFrame (shmHdr m)" using p(2) s by auto
      ultimately have "page_image db' (walPagesize w) p = page_image db (walPagesize w) p"
        using b(1) p(1) unfolding backfilled_def by blast
      then show ?thesis by (simp add: rd(4))
    qed simp
    have "read_page map_rc m' c wal' db' p = read_page map_rc m c wal db p"
      using read_page_eq [where map_rc = map_rc, OF r ok rd(3) i(5) pages, of wal db' p]
        read_page_eq [where map_rc = map_rc, OF r ok rd(3) i(5) refl, of wal db p] img
      by (simp add: fin Let_def)
    then show ?thesis using at by simp
  qed
  then show "read_page map_rc m' c wal' db' p = read_page map_rc m c wal db p" "reader_at m' c" by blast+
qed


subsection \<open>A checkpoint that meets no trouble\<close>






subsection \<open>Properties\<close>

text \<open>The connections of the witnesses, with pages of 1024 bytes, and an environment in which the lock of one
  reader is held.\<close>

definition ck_conn :: Wal where
  "ck_conn = (demo_conn 3)\<lparr>hdr := (demo_hdr 3)\<lparr>szPage16 := 1024, nPage := 7\<rparr>\<rparr>"

lemma ck_conn_simps: "mxFrame (hdr ck_conn) = 3" "nPage (hdr ck_conn) = 7" "readLock ck_conn = 1"
  by (simp_all add: ck_conn_def demo_conn_def demo_hdr_def)

definition ck_env :: "nat option \<Rightarrow> ckpt_env" where
  "ck_env held = \<lparr>lockRc = (\<lambda>i. if Some i = held then SQLITE_BUSY else 0), oomIter = False, syncWalRc = 0, fileSizeRc = 0,
     readWalRc = (\<lambda>_. 0), writeDbRc = (\<lambda>_. 0), tornWrite = (\<lambda>_. []), truncDbRc = 0, syncDbRc = 0, truncWalRc = 0,
     isInterrupted = (\<lambda>_. False), mallocFailed = False, newSalt = []\<rparr>"

lemma append_info: "append_pages map_rc m w k ps = (rc, k', m') \<Longrightarrow> shmInfo m' = shmInfo m"
proof (induction ps arbitrary: m k)
  case (Cons p ps)
  have "shmInfo (snd (walIndexAppend map_rc m w (k + 1) p)) = shmInfo m"
    by (simp add: walIndexAppend_def Let_def split: sum.split option.split)
  then show ?case using Cons by (auto split: prod.splits if_splits)
qed simp

lemma demo_info: "shmInfo (fst demo_state) = shmInfo demo_shm" "aSalt (shmHdr (fst demo_state)) = []"
proof -
  obtain rc k m' where a: "append_pages (\<lambda>_. 0) demo_shm (demo_conn 0) 0 [5, 7, 5] = (rc, k, m')"
    by (cases "append_pages (\<lambda>_. 0) demo_shm (demo_conn 0) 0 [5, 7, 5]")
  have i: "shmInfo m' = shmInfo demo_shm" by (rule append_info [OF a])
  have "wal_sim (demo_shm, demo_conn 0) ([], [])"
    by (rule wal_reach_sim [OF wal_reach.start]) (simp_all add: demo_shm_def demo_conn_def demo_hdr_def)
  from wal_sim_frames [OF this, of "\<lambda>_. 0" "[5, 7, 5]"] a have "rc = 0" by (simp add: demo_conn_def demo_hdr_def)
  then show "shmInfo (fst demo_state) = shmInfo demo_shm" "aSalt (shmHdr (fst demo_state)) = []"
    using a i by (auto simp: demo_state_def demo_commit_def index_frames_def demo_conn_def demo_hdr_def Let_def walIndexWriteHdr_def)
qed

text \<open>C4: A checkpoint cannot be seen by a reader that holds its lock: in any mode, whichever locks are granted,
  wherever reads, writes or syncs fail and however a failing write leaves its page, every page reads the
  same before and after it, and the reader stays protected.\<close>

theorem Checkpoint_invisible_to_readers:
  assumes "wal_reach map_rc (m, w0) (cs, ps)" "\<forall>b. map_rc b = 0" "\<forall>p\<in>set cs. p < NO_PAGE"
    and "mxFrame (hdr w) \<le> length cs" "walCheckpoint env map_rc eMode m w wal db = (rc, m', w', wal', db')"
    and "reader_at m c" "lockRc env (nat (readLock c)) = SQLITE_BUSY" "mxFrame (hdr c) \<le> length cs" "walPagesize c = walPagesize w"
    and "0 < p" "p \<le> nPage (hdr w) \<or> mxFrame (hdr c) < mxFrame (shmHdr m)"
  shows "read_page map_rc m' c wal' db' p = read_page map_rc m c wal db p \<and> reader_at m' c"
proof -
  have ok: "\<And>b. map_rc b = 0" using assms(2) by blast
  obtain rest where r: "wi_rep m (cs @ ps @ rest)" using wal_reach_sim [OF assms(1) ok] by (auto simp: wal_sim_def)
  have h: "mxFrame (shmHdr m) = length cs" using wal_reach_sim [OF assms(1) ok] by (simp add: wal_sim_def)
  have pg: "\<forall>k<mxFrame (hdr w). (cs @ ps @ rest) ! k < NO_PAGE" using assms(3,4) by (auto simp: nth_append)
  show ?thesis
    using checkpoint_reader [where map_rc = map_rc, OF r ok _ pg assms(5,6,7) _ assms(9,10,11)] assms(4,8) by simp
qed


theorem Checkpoint_invisible_to_readers_witness:
  "case walCheckpoint (ck_env (Some 1)) (\<lambda>_. 0) TRUNCATE (fst demo_state) ck_conn (replicate 5000 7) [] of
     (rc, m', w', wal', db') \<Rightarrow> read_page (\<lambda>_. 0) m' ck_conn wal' db' 5 = read_page (\<lambda>_. 0) (fst demo_state) ck_conn (replicate 5000 7) [] 5"
proof -
  obtain rc m' w' wal' db' where c: "walCheckpoint (ck_env (Some 1)) (\<lambda>_. 0) TRUNCATE (fst demo_state) ck_conn (replicate 5000 7) [] = (rc, m', w', wal', db')"
    by (metis prod_cases5)
  have "reader_at (fst demo_state) ck_conn"
    by (simp add: reader_at_def demo_info ck_conn_def demo_conn_def demo_hdr_def demo_shm_def WAL_NREADER_def)
  from Checkpoint_invisible_to_readers [OF demo_reach _ _ _ c this, of 5] show ?thesis
    unfolding c prod.case by (simp add: ck_conn_simps ck_env_def NO_PAGE_def)
qed







end
