(* ===== verification/Wal_Frame.thy ===== *)
theory Wal_Frame
  imports Wal_Checkpoint
begin

section \<open>Frames of the write-ahead log: checksums, encoding and decoding (wal.c)\<close>

text \<open>
  The log file is a header of 32 bytes and frames, each a header of 24 bytes and the content of a page.
  A frame is valid when its salts are those of the header and its checksum, which runs over the header of
  the log and all frames up to this one, is right. Checksums are computed over 32-bit words in the byte
  order the header names; the platform is little-endian (\<open>SQLITE_BIGENDIAN\<close> is 0). \<open>u32s\<close> is the cast of a
  byte block to an array of native words.
\<close>

definition SQLITE_BIGENDIAN :: bool where "SQLITE_BIGENDIAN = False"

definition u32_load :: "u8 \<Rightarrow> u8 \<Rightarrow> u8 \<Rightarrow> u8 \<Rightarrow> u32" where
  "u32_load b0 b1 b2 b3 = ucast b0 OR push_bit 8 (ucast b1) OR push_bit 16 (ucast b2) OR push_bit 24 (ucast b3)"

fun u32s :: "bytes \<Rightarrow> u32 list" where
  "u32s (b0 # b1 # b2 # b3 # a) = u32_load b0 b1 b2 b3 # u32s a"
| "u32s _ = []"

definition BYTESWAP32 :: "u32 \<Rightarrow> u32" where
  "BYTESWAP32 x = push_bit 24 (x AND 0x000000FF) + push_bit 8 (x AND 0x0000FF00)
     + drop_bit 8 (x AND 0x00FF0000) + drop_bit 24 (x AND 0xFF000000)"

text \<open>The three loops of \<open>walChecksumBytes\<close>; \<open>nByte\<close> is a positive multiple of 8.\<close>

type_synonym cksum = "u32 \<times> u32"

fun ck_swapped :: "cksum \<Rightarrow> u32 list \<Rightarrow> cksum" where
  "ck_swapped (s1, s2) (x0 # x1 # aData) =
     (let s1 = s1 + (BYTESWAP32 x0 + s2); s2 = s2 + (BYTESWAP32 x1 + s1) in ck_swapped (s1, s2) aData)"
| "ck_swapped s _ = s"

fun ck_native :: "cksum \<Rightarrow> u32 list \<Rightarrow> cksum" where
  "ck_native (s1, s2) (x0 # x1 # aData) =
     (let s1 = s1 + (x0 + s2); s2 = s2 + (x1 + s1) in ck_native (s1, s2) aData)"
| "ck_native s _ = s"

fun ck_unrolled :: "cksum \<Rightarrow> u32 list \<Rightarrow> cksum" where
  "ck_unrolled (s1, s2) (x0 # x1 # x2 # x3 # x4 # x5 # x6 # x7 # x8 # x9 # x10 # x11 # x12 # x13 # x14 # x15 # aData) =
     (let s1 = s1 + (x0 + s2); s2 = s2 + (x1 + s1);
          s1 = s1 + (x2 + s2); s2 = s2 + (x3 + s1);
          s1 = s1 + (x4 + s2); s2 = s2 + (x5 + s1);
          s1 = s1 + (x6 + s2); s2 = s2 + (x7 + s1);
          s1 = s1 + (x8 + s2); s2 = s2 + (x9 + s1);
          s1 = s1 + (x10 + s2); s2 = s2 + (x11 + s1);
          s1 = s1 + (x12 + s2); s2 = s2 + (x13 + s1);
          s1 = s1 + (x14 + s2); s2 = s2 + (x15 + s1)
      in ck_unrolled (s1, s2) aData)"
| "ck_unrolled s _ = s"

definition walChecksumBytes :: "bool \<Rightarrow> bytes \<Rightarrow> cksum \<Rightarrow> cksum" where
  "walChecksumBytes nativeCksum a aIn =
     (if \<not> nativeCksum then ck_swapped aIn (u32s a)
      else if length a mod 64 = 0 then ck_unrolled aIn (u32s a)
      else ck_native aIn (u32s a))"

definition walEncodeFrame :: "Wal \<Rightarrow> nat \<Rightarrow> nat \<Rightarrow> bytes \<Rightarrow> bytes \<times> Wal" where
  "walEncodeFrame w iPage nTruncate aData =
     (let aFrame = sqlite3Put4byte (of_nat iPage) @ sqlite3Put4byte (of_nat nTruncate)
      in if iReCksum w = 0 then
           let nativeCksum = (bigEndCksum (hdr w) = SQLITE_BIGENDIAN);
               ck = walChecksumBytes nativeCksum aFrame (aFrameCksum (hdr w));
               ck = walChecksumBytes nativeCksum (take (szPageWal w) aData) ck
           in (aFrame @ take 8 (aSalt (hdr w)) @ sqlite3Put4byte (fst ck) @ sqlite3Put4byte (snd ck),
               w\<lparr>hdr := (hdr w)\<lparr>aFrameCksum := ck\<rparr>\<rparr>)
         else (aFrame @ replicate 16 0, w))"

definition walDecodeFrame :: "Wal \<Rightarrow> bytes \<Rightarrow> bytes \<Rightarrow> (nat \<times> nat) option \<times> Wal" where
  "walDecodeFrame w aData aFrame =
     (if take 8 (aSalt (hdr w)) \<noteq> read_at aFrame 8 8 then (None, w)
      else let pgno = sqlite3Get4byte aFrame
           in if pgno = 0 then (None, w)
              else if szPageWal w = 0 then (None, w)
              else let nativeCksum = (bigEndCksum (hdr w) = SQLITE_BIGENDIAN);
                       ck = walChecksumBytes nativeCksum (take 8 aFrame) (aFrameCksum (hdr w));
                       ck = walChecksumBytes nativeCksum (take (szPageWal w) aData) ck;
                       w = w\<lparr>hdr := (hdr w)\<lparr>aFrameCksum := ck\<rparr>\<rparr>
                   in if fst ck \<noteq> sqlite3Get4byte (drop 16 aFrame) \<or> snd ck \<noteq> sqlite3Get4byte (drop 20 aFrame) then (None, w)
                      else (Some (unat pgno, unat (sqlite3Get4byte (drop 4 aFrame))), w))"

subsection \<open>The checksum\<close>

text \<open>The definition of the checksum in the description of the file format: over the words of the block in
  the byte order of the log.\<close>

fun be32s :: "bytes \<Rightarrow> u32 list" where
  "be32s (b0 # b1 # b2 # b3 # a) = sqlite3Get4byte [b0, b1, b2, b3] # be32s a"
| "be32s _ = []"

fun fib_sum :: "cksum \<Rightarrow> u32 list \<Rightarrow> cksum" where
  "fib_sum (s0, s1) (x # y # xs) = fib_sum (s0 + x + s1, s1 + y + (s0 + x + s1)) xs"
| "fib_sum s _ = s"

lemma BYTESWAP32_load: "BYTESWAP32 (u32_load b0 b1 b2 b3) = sqlite3Get4byte [b0, b1, b2, b3]"
proof -
  let ?x = "u32_load b0 b1 b2 b3"
  have m: "(0x000000FF :: u32) = mask 8" "(0x0000FF00 :: u32) = push_bit 8 (mask 8)"
    "(0x00FF0000 :: u32) = push_bit 16 (mask 8)" "(0xFF000000 :: u32) = push_bit 24 (mask 8)"
    by (simp_all add: mask_eq_exp_minus_1 push_bit_eq_mult)
  have p: "push_bit 24 (?x AND 0xFF) = push_bit 24 (ucast b0)" "push_bit 8 (?x AND 0xFF00) = push_bit 16 (ucast b1)"
    "drop_bit 8 (?x AND 0xFF0000) = push_bit 8 (ucast b2)" "drop_bit 24 (?x AND 0xFF000000) = ucast b3"
    unfolding m u32_load_def
    by (rule bit_word_eqI; auto simp: bit_simps dest: bit8D)+
  have d: "push_bit 24 (ucast b0 :: u32) + push_bit 16 (ucast b1) + push_bit 8 (ucast b2) + ucast b3
    = push_bit 24 (ucast b0) OR push_bit 16 (ucast b1) OR push_bit 8 (ucast b2) OR ucast b3"
    by (subst disjunctive_add | (auto simp: bit_simps dest: bit8D simp flip: or.assoc))+
  show ?thesis unfolding BYTESWAP32_def p d by (simp add: sqlite3Get4byte_def byte_at_def)
qed

lemma ck_native_fib: "ck_native s xs = fib_sum s xs"
  by (induction s xs rule: fib_sum.induct) (simp_all add: Let_def ac_simps)

lemma ck_unrolled_fib: "16 dvd length xs \<Longrightarrow> ck_unrolled s xs = fib_sum s xs"
proof (induction s xs rule: ck_unrolled.induct)
  case (1 s1 s2 x0 x1 x2 x3 x4 x5 x6 x7 x8 x9 x10 x11 x12 x13 x14 x15 aData)
  have "length (x0 # x1 # x2 # x3 # x4 # x5 # x6 # x7 # x8 # x9 # x10 # x11 # x12 # x13 # x14 # x15 # aData) = length aData + 16" by simp
  then have "16 dvd length aData" using 1(2) dvd_add_left_iff [of 16 16 "length aData"] by (simp only: dvd_refl)
  then show ?case using 1(1) by (simp add: Let_def ac_simps)
qed (simp_all add: nat_dvd_not_less)

lemma ck_swapped_fib: "ck_swapped s (u32s a) = fib_sum s (be32s a)"
proof (induction "length a" arbitrary: s a rule: less_induct)
  case less
  show ?case
  proof (cases a rule: u32s.cases)
    case (1 b0 b1 b2 b3 c)
    obtain s1 s2 where s: "s = (s1, s2)" by (cases s)
    show ?thesis
    proof (cases c rule: u32s.cases)
      case (1 d0 d1 d2 d3 e)
      have "ck_swapped t (u32s e) = fib_sum t (be32s e)" for t
        by (rule less) (simp add: \<open>a = b0 # b1 # b2 # b3 # c\<close> 1)
      then show ?thesis by (simp add: \<open>a = b0 # b1 # b2 # b3 # c\<close> 1 s Let_def BYTESWAP32_load ac_simps)
    qed (simp_all add: \<open>a = b0 # b1 # b2 # b3 # c\<close> s)
  qed simp_all
qed

lemma length_u32s: "length (u32s a) = length a div 4"
  by (induction a rule: u32s.induct) simp_all

definition cksum_spec :: "bool \<Rightarrow> bytes \<Rightarrow> cksum \<Rightarrow> cksum" where
  "cksum_spec bigEnd a s = fib_sum s (if bigEnd then be32s a else u32s a)"

lemma walChecksumBytes_spec: "walChecksumBytes (bigEnd = SQLITE_BIGENDIAN) a s = cksum_spec bigEnd a s"
proof -
  have "16 dvd length (u32s a)" if "length a mod 64 = 0"
  proof -
    have "64 dvd length a" using that by (simp only: mod_eq_0_iff_dvd)
    then obtain k where "length a = 64 * k" by (rule dvdE)
    then have "length (u32s a) = 16 * k" by (simp only: length_u32s)
    then show ?thesis by (simp only: dvd_triv_left)
  qed
  then show ?thesis
    by (simp add: walChecksumBytes_def cksum_spec_def SQLITE_BIGENDIAN_def ck_swapped_fib ck_native_fib ck_unrolled_fib)
qed

subsection \<open>Four bytes as a number\<close>

lemma Get4byte_Put4byte [simp]: "sqlite3Get4byte (sqlite3Put4byte v @ z) = v"
  unfolding sqlite3Get4byte_def sqlite3Put4byte_def
proof (rule bit_word_eqI)
  fix n assume "n < LENGTH(32)"
  show "bit (push_bit 24 (ucast (byte_at ([ucast (drop_bit 24 v), ucast (drop_bit 16 v), ucast (drop_bit 8 v), ucast v] @ z) 0))
      OR push_bit 16 (ucast (byte_at ([ucast (drop_bit 24 v), ucast (drop_bit 16 v), ucast (drop_bit 8 v), ucast v] @ z) 1))
      OR push_bit 8 (ucast (byte_at ([ucast (drop_bit 24 v), ucast (drop_bit 16 v), ucast (drop_bit 8 v), ucast v] @ z) 2))
      OR ucast (byte_at ([ucast (drop_bit 24 v), ucast (drop_bit 16 v), ucast (drop_bit 8 v), ucast v] @ z) 3) :: u32) n = bit v n"
    using \<open>n < LENGTH(32)\<close> by (cases "n < 8"; cases "n < 16"; cases "n < 24") (auto simp: bit_simps byte_at_def not_less)
qed

lemma length_Put4byte [simp]: "length (sqlite3Put4byte v) = 4"
  by (simp add: sqlite3Put4byte_def)

lemma Put4byte_Get4byte: "4 \<le> length z \<Longrightarrow> sqlite3Put4byte (sqlite3Get4byte z) = take 4 z"
proof -
  assume "4 \<le> length z"
  then obtain a b c d r where z: "z = a # b # c # d # r"
    by (cases z rule: u32s.cases) auto
  have "ucast (drop_bit 24 (sqlite3Get4byte z)) = a" "ucast (drop_bit 16 (sqlite3Get4byte z)) = b"
    "ucast (drop_bit 8 (sqlite3Get4byte z)) = c" "ucast (sqlite3Get4byte z) = d"
    unfolding sqlite3Get4byte_def z
    by (rule bit_word_eqI; auto simp: bit_simps byte_at_def dest: bit8D)+
  then show ?thesis by (simp add: sqlite3Put4byte_def z)
qed

lemma Get4byte_take: "4 \<le> n \<Longrightarrow> sqlite3Get4byte (take n z) = sqlite3Get4byte z"
  by (simp add: sqlite3Get4byte_def byte_at_def)

subsection \<open>The log as a sequence of frames\<close>

text \<open>A frame of the log: page number, size of the database after the commit (0 when the frame does not
  commit) and the content of the page. \<open>log_frames\<close> is the part of the file behind the header: the
  checksums form a chain.\<close>

type_synonym frame = "nat \<times> nat \<times> bytes"

definition frame_hdr :: "frame \<Rightarrow> bytes" where
  "frame_hdr f = (case f of (p, n, d) \<Rightarrow> sqlite3Put4byte (of_nat p) @ sqlite3Put4byte (of_nat n))"

abbreviation frame_page :: "frame \<Rightarrow> nat" where "frame_page f \<equiv> fst f"
abbreviation frame_size :: "frame \<Rightarrow> nat" where "frame_size f \<equiv> fst (snd f)"
abbreviation frame_content :: "frame \<Rightarrow> bytes" where "frame_content f \<equiv> snd (snd f)"

definition frame_ck :: "bool \<Rightarrow> cksum \<Rightarrow> frame \<Rightarrow> cksum" where
  "frame_ck be ck f = cksum_spec be (frame_content f) (cksum_spec be (frame_hdr f) ck)"

abbreviation log_ck :: "bool \<Rightarrow> cksum \<Rightarrow> frame list \<Rightarrow> cksum" where
  "log_ck be ck fs \<equiv> foldl (frame_ck be) ck fs"

definition frame_bytes :: "bool \<Rightarrow> bytes \<Rightarrow> cksum \<Rightarrow> frame \<Rightarrow> bytes" where
  "frame_bytes be salt ck f =
     frame_hdr f @ salt @ sqlite3Put4byte (fst (frame_ck be ck f)) @ sqlite3Put4byte (snd (frame_ck be ck f)) @ frame_content f"

fun log_frames :: "bool \<Rightarrow> bytes \<Rightarrow> cksum \<Rightarrow> frame list \<Rightarrow> bytes" where
  "log_frames be salt ck [] = []"
| "log_frames be salt ck (f # fs) = frame_bytes be salt ck f @ log_frames be salt (frame_ck be ck f) fs"

definition frame_ok :: "nat \<Rightarrow> frame \<Rightarrow> bool" where
  "frame_ok sz f \<longleftrightarrow> 0 < frame_page f \<and> frame_page f < 2 ^ 32 \<and> frame_size f < 2 ^ 32 \<and> length (frame_content f) = sz"

lemma length_frame_hdr [simp]: "length (frame_hdr f) = 8"
  by (simp add: frame_hdr_def split: prod.splits)

lemma length_frame_bytes: "length salt = 8 \<Longrightarrow> frame_ok sz f \<Longrightarrow> length (frame_bytes be salt ck f) = sz + 24"
  by (simp add: frame_bytes_def frame_ok_def)

lemma length_log_frames: "length salt = 8 \<Longrightarrow> \<forall>f\<in>set fs. frame_ok sz f \<Longrightarrow> length (log_frames be salt ck fs) = length fs * (sz + 24)"
  by (induction fs arbitrary: ck) (simp_all add: length_frame_bytes)

lemma log_frames_append: "log_frames be salt ck (fs @ gs) = log_frames be salt ck fs @ log_frames be salt (log_ck be ck fs) gs"
  by (induction fs arbitrary: ck) simp_all

text \<open>The frame at the beginning of a block, if there is a valid one, and all that follow: the meaning of
  a log file, whatever it contains.\<close>

definition frame_at :: "bool \<Rightarrow> bytes \<Rightarrow> nat \<Rightarrow> cksum \<Rightarrow> bytes \<Rightarrow> frame option" where
  "frame_at be salt sz ck z =
     (if length z < sz + 24 then None
      else let f = (unat (sqlite3Get4byte z), unat (sqlite3Get4byte (drop 4 z)), read_at z sz 24)
           in if take (sz + 24) z = frame_bytes be salt ck f \<and> 0 < frame_page f then Some f else None)"

function valid_frames :: "bool \<Rightarrow> bytes \<Rightarrow> nat \<Rightarrow> cksum \<Rightarrow> bytes \<Rightarrow> frame list" where
  "valid_frames be salt sz ck z =
     (case frame_at be salt sz ck z of None \<Rightarrow> [] | Some f \<Rightarrow> f # valid_frames be salt sz (frame_ck be ck f) (drop (sz + 24) z))"
  by pat_completeness auto
termination
  by (relation "measure (\<lambda>(_, _, _, _, z). length z)") (auto simp: frame_at_def Let_def split: if_splits)

declare valid_frames.simps [simp del]

lemma Put4byte_eq_iff: "4 \<le> length z \<Longrightarrow> sqlite3Put4byte v = take 4 z \<longleftrightarrow> v = sqlite3Get4byte z"
  using Get4byte_Put4byte [of v "[]"] Put4byte_Get4byte [of z] Get4byte_take [of 4 z] by auto

lemma Put4byte_of_unat [simp]: "sqlite3Put4byte (of_nat (unat v)) = sqlite3Put4byte v"
  by simp

text \<open>A block of the length of a frame is the frame its fields name exactly when salts and checksums agree.\<close>

lemma frame_bytes_iff:
  assumes z: "length z = sz + 24" and salt: "length salt = 8"
    and f: "f = (unat (sqlite3Get4byte z), unat (sqlite3Get4byte (drop 4 z)), drop 24 z)"
  shows "frame_hdr f = take 8 z"
    and "z = frame_bytes be salt ck f \<longleftrightarrow> salt = read_at z 8 8 \<and> fst (frame_ck be ck f) = sqlite3Get4byte (drop 16 z)
      \<and> snd (frame_ck be ck f) = sqlite3Get4byte (drop 20 z)"
proof -
  have t: "take 8 z = take 4 z @ take 4 (drop 4 z)" using take_add [of 4 4 z] by simp
  show h: "frame_hdr f = take 8 z" using z by (simp add: frame_hdr_def f Put4byte_Get4byte t)
  have "z = take 8 z @ drop 8 z" by simp
  also have "drop 8 z = take 8 (drop 8 z) @ drop 16 z" using append_take_drop_id [of 8 "drop 8 z"] by simp
  also have "drop 16 z = take 4 (drop 16 z) @ drop 20 z" using append_take_drop_id [of 4 "drop 16 z"] by simp
  also have "drop 20 z = take 4 (drop 20 z) @ drop 24 z" using append_take_drop_id [of 4 "drop 20 z"] by simp
  finally have s: "z = take 8 z @ read_at z 8 8 @ take 4 (drop 16 z) @ take 4 (drop 20 z) @ drop 24 z" by (simp only: read_at_def)
  have c: "frame_content f = drop 24 z" by (simp add: f)
  have "z = frame_bytes be salt ck f \<longleftrightarrow> salt = read_at z 8 8 \<and> sqlite3Put4byte (fst (frame_ck be ck f)) = take 4 (drop 16 z)
      \<and> sqlite3Put4byte (snd (frame_ck be ck f)) = take 4 (drop 20 z)"
    by (subst s) (use z salt in \<open>auto simp: frame_bytes_def h c read_at_def\<close>)
  then show "z = frame_bytes be salt ck f \<longleftrightarrow> salt = read_at z 8 8 \<and> fst (frame_ck be ck f) = sqlite3Get4byte (drop 16 z)
      \<and> snd (frame_ck be ck f) = sqlite3Get4byte (drop 20 z)"
    using z by (simp add: Put4byte_eq_iff)
qed

abbreviation with_ck :: "Wal \<Rightarrow> cksum \<Rightarrow> Wal" where
  "with_ck w ck \<equiv> w\<lparr>hdr := (hdr w)\<lparr>aFrameCksum := ck\<rparr>\<rparr>"

lemma walEncodeFrame_bytes:
  assumes "iReCksum w = 0" "length (aSalt (hdr w)) = 8" "length d = szPageWal w"
  shows "walEncodeFrame w p n d = (take 24 (frame_bytes (bigEndCksum (hdr w)) (aSalt (hdr w)) (aFrameCksum (hdr w)) (p, n, d)),
      with_ck w (frame_ck (bigEndCksum (hdr w)) (aFrameCksum (hdr w)) (p, n, d)))"
  using assms by (simp add: walEncodeFrame_def Let_def walChecksumBytes_spec frame_bytes_def frame_ck_def frame_hdr_def)

lemma frame_bytes_split: "length salt = 8 \<Longrightarrow> take 24 (frame_bytes be salt ck f) @ frame_content f = frame_bytes be salt ck f"
  by (simp add: frame_bytes_def)

lemma walDecodeFrame_frame_at:
  assumes z: "length z = szPageWal w + 24" and salt: "length (aSalt (hdr w)) = 8" and sz: "0 < szPageWal w"
  shows "case frame_at (bigEndCksum (hdr w)) (aSalt (hdr w)) (szPageWal w) (aFrameCksum (hdr w)) z of
      None \<Rightarrow> (\<exists>ck. walDecodeFrame w (drop 24 z) z = (None, with_ck w ck))
    | Some f \<Rightarrow> walDecodeFrame w (drop 24 z) z = (Some (frame_page f, frame_size f), with_ck w (frame_ck (bigEndCksum (hdr w)) (aFrameCksum (hdr w)) f))"
proof -
  define f where "f = (unat (sqlite3Get4byte z), unat (sqlite3Get4byte (drop 4 z)), drop 24 z)"
  let ?be = "bigEndCksum (hdr w)" and ?salt = "aSalt (hdr w)" and ?ck = "aFrameCksum (hdr w)"
  note i = frame_bytes_iff [OF z salt f_def]
  have r: "read_at z (szPageWal w) 24 = drop 24 z" using z by (simp add: read_at_def)
  have a: "frame_at ?be ?salt (szPageWal w) ?ck z = (if z = frame_bytes ?be ?salt ?ck f \<and> 0 < frame_page f then Some f else None)"
    using z by (simp add: frame_at_def Let_def r f_def)
  have k: "walChecksumBytes (?be = SQLITE_BIGENDIAN) (take (szPageWal w) (drop 24 z)) (walChecksumBytes (?be = SQLITE_BIGENDIAN) (take 8 z) ?ck)
      = frame_ck ?be ?ck f"
    using z by (simp add: walChecksumBytes_spec frame_ck_def i(1)) (simp add: f_def)
  have p: "frame_page f = unat (sqlite3Get4byte z)" "frame_size f = unat (sqlite3Get4byte (drop 4 z))" by (simp_all add: f_def)
  have same: "with_ck w (aFrameCksum (hdr w)) = w" by simp
  have d: "walDecodeFrame w (drop 24 z) z =
     (if ?salt \<noteq> read_at z 8 8 \<or> frame_page f = 0 then (None, w)
      else if fst (frame_ck ?be ?ck f) \<noteq> sqlite3Get4byte (drop 16 z) \<or> snd (frame_ck ?be ?ck f) \<noteq> sqlite3Get4byte (drop 20 z)
        then (None, with_ck w (frame_ck ?be ?ck f)) else (Some (frame_page f, frame_size f), with_ck w (frame_ck ?be ?ck f)))"
    unfolding walDecodeFrame_def Let_def k p using salt sz by (simp add: unat_eq_0)
  show ?thesis
  proof (cases "z = frame_bytes ?be ?salt ?ck f \<and> 0 < frame_page f")
    case True
    then have "walDecodeFrame w (drop 24 z) z = (Some (frame_page f, frame_size f), with_ck w (frame_ck ?be ?ck f))"
      using i(2) [of ?be ?ck] unfolding d by simp
    then show ?thesis unfolding a if_P [OF True] by simp
  next
    case False
    then have "?salt \<noteq> read_at z 8 8 \<or> frame_page f = 0 \<or> fst (frame_ck ?be ?ck f) \<noteq> sqlite3Get4byte (drop 16 z)
        \<or> snd (frame_ck ?be ?ck f) \<noteq> sqlite3Get4byte (drop 20 z)"
      using i(2) [of ?be ?ck] by auto
    then have "walDecodeFrame w (drop 24 z) z \<in> {(None, w), (None, with_ck w (frame_ck ?be ?ck f))}"
      unfolding d by (cases "?salt \<noteq> read_at z 8 8 \<or> frame_page f = 0") auto
    then have "\<exists>ck. walDecodeFrame w (drop 24 z) z = (None, with_ck w ck)"
      by (elim insertE emptyE) (metis same, metis)
    then show ?thesis unfolding a if_not_P [OF False] by simp
  qed
qed

lemma frame_at_frame:
  assumes "length salt = 8" "frame_ok sz f"
  shows "frame_at be salt sz ck (frame_bytes be salt ck f @ z) = Some f"
proof -
  obtain p n d where f: "f = (p, n, d)" by (cases f)
  have l: "length (frame_bytes be salt ck f) = sz + 24" using length_frame_bytes [OF assms] .
  have u: "unat (of_nat p :: u32) = p" "unat (of_nat n :: u32) = n" "length d = sz" "0 < p"
    using assms(2) by (simp_all add: f frame_ok_def unat_of_nat)
  have 1: "sqlite3Get4byte (frame_bytes be salt ck f @ z) = of_nat p"
    unfolding frame_bytes_def frame_hdr_def f by simp
  have 2: "sqlite3Get4byte (drop 4 (frame_bytes be salt ck f @ z)) = of_nat n"
    unfolding frame_bytes_def frame_hdr_def f by simp
  have 3: "read_at (frame_bytes be salt ck f @ z) sz 24 = d"
    unfolding frame_bytes_def f using assms(1) u(3) by (simp add: read_at_def)
  show ?thesis
    unfolding frame_at_def Let_def 1 2 3 u(1,2) using l u(4) by (simp add: f)
qed

lemma frame_at_cut: "sz + 24 \<le> length z \<Longrightarrow> frame_at be salt sz ck (take (sz + 24) z) = frame_at be salt sz ck z"
  by (simp add: frame_at_def Let_def Get4byte_take read_at_def drop_take flip: take_drop)

lemma unat_u32: "unat (v :: u32) < 4294967296"
  using unsigned_less [of v] by simp

lemma frame_at_ok: "frame_at be salt sz ck z = Some f \<Longrightarrow> frame_ok sz f \<and> sz + 24 \<le> length z"
  by (auto simp: frame_at_def Let_def frame_ok_def read_at_def unat_u32 split: if_splits)

lemma valid_frames_None: "frame_at be salt sz ck z = None \<Longrightarrow> valid_frames be salt sz ck z = []"
  by (subst valid_frames.simps) simp

lemma valid_frames_Some: "frame_at be salt sz ck z = Some f \<Longrightarrow>
    valid_frames be salt sz ck z = f # valid_frames be salt sz (frame_ck be ck f) (drop (sz + 24) z)"
  by (subst valid_frames.simps) simp

lemma valid_frames_log:
  assumes "length salt = 8"
  shows "\<forall>f\<in>set fs. frame_ok sz f \<Longrightarrow>
    valid_frames be salt sz ck (log_frames be salt ck fs @ z) = fs @ valid_frames be salt sz (log_ck be ck fs) z"
proof (induction fs arbitrary: ck)
  case (Cons f fs)
  then have f: "frame_ok sz f" by simp
  let ?z = "log_frames be salt (frame_ck be ck f) fs @ z"
  have "drop (sz + 24) (frame_bytes be salt ck f @ ?z) = ?z" using length_frame_bytes [OF assms f, of be ck] by simp
  then show ?case using valid_frames_Some [OF frame_at_frame [OF assms f, of be ck ?z]] Cons by simp
qed simp

lemma valid_frames_short: "length z < sz + 24 \<Longrightarrow> valid_frames be salt sz ck z = []"
  by (rule valid_frames_None) (simp add: frame_at_def)

text \<open>A log that is cut off anywhere still holds its whole frames.\<close>

lemma valid_frames_cut:
  assumes "length salt = 8" "\<forall>f\<in>set fs. frame_ok sz f"
  shows "valid_frames be salt sz ck (take k (log_frames be salt ck fs)) = take (k div (sz + 24)) fs"
proof -
  let ?q = "k div (sz + 24)" and ?g = "take (k div (sz + 24)) fs"
  let ?r = "log_frames be salt (log_ck be ck ?g) (drop ?q fs)"
  have e: "log_frames be salt ck fs = log_frames be salt ck ?g @ ?r"
    using log_frames_append [of be salt ck ?g "drop ?q fs"] by simp
  have g: "\<forall>f\<in>set ?g. frame_ok sz f" "\<forall>f\<in>set (drop ?q fs). frame_ok sz f"
    using assms(2) by (auto dest: in_set_takeD in_set_dropD)
  have lg: "length (log_frames be salt ck ?g) = length ?g * (sz + 24)" by (rule length_log_frames [OF assms(1) g(1)])
  have "take k (log_frames be salt ck fs) = log_frames be salt ck ?g @ take (k - length ?g * (sz + 24)) ?r"
  proof -
    have "length ?g * (sz + 24) \<le> ?q * (sz + 24)" by (intro mult_le_mono1) simp
    also have "\<dots> \<le> k" by simp
    finally show ?thesis unfolding e take_append lg by (simp add: lg)
  qed
  moreover have "length (take (k - length ?g * (sz + 24)) ?r) < sz + 24"
  proof (cases "?q \<le> length fs")
    case True
    then have "k - length ?g * (sz + 24) = k mod (sz + 24)" by (simp add: minus_div_mult_eq_mod min_def)
    then show ?thesis by (simp add: min_less_iff_disj)
  qed simp
  ultimately show ?thesis using valid_frames_log [OF assms(1) g(1), of be ck] by (simp add: valid_frames_short)
qed

subsection \<open>The properties of the format\<close>

text \<open>C32: The checksum of a block, computed by the loop of \<open>walChecksumBytes\<close> for the other byte order, by the
  plain loop or by the loop that is unrolled sixteen times, is the sum that the description of the file format
  defines: two running sums over the words of the block in the byte order of the log, each added to the other.\<close>

theorem ChecksumBytes_is_format_sum:
  "walChecksumBytes (bigEnd = SQLITE_BIGENDIAN) a s = fib_sum s (if bigEnd then be32s a else u32s a)"
  by (rule walChecksumBytes_spec [unfolded cksum_spec_def])

text \<open>C34: A frame that \<open>walEncodeFrame\<close> has encoded is accepted by \<open>walDecodeFrame\<close> in the state of the log before
  it: page number and database size come out as they went in, and both functions leave the same checksum
  for the next frame.\<close>

theorem Frame_roundtrip:
  assumes "iReCksum w = 0" "length (aSalt (hdr w)) = 8" "0 < szPageWal w" "length d = szPageWal w"
    and "0 < p" "p < 2 ^ 32" "n < 2 ^ 32" and "walEncodeFrame w p n d = (h, w')"
  shows "walDecodeFrame w d (h @ d) = (Some (p, n), w')"
proof -
  let ?be = "bigEndCksum (hdr w)" and ?salt = "aSalt (hdr w)" and ?ck = "aFrameCksum (hdr w)"
  have e: "h = take 24 (frame_bytes ?be ?salt ?ck (p, n, d))" "w' = with_ck w (frame_ck ?be ?ck (p, n, d))"
    using walEncodeFrame_bytes [OF assms(1,2,4), of p n] assms(8) by simp_all
  have z: "h @ d = frame_bytes ?be ?salt ?ck (p, n, d)" using frame_bytes_split [OF assms(2), of ?be ?ck "(p, n, d)"] by (simp add: e(1))
  have ok: "frame_ok (szPageWal w) (p, n, d)" using assms(4,5,6,7) by (simp add: frame_ok_def)
  have l: "length (h @ d) = szPageWal w + 24" "drop 24 (h @ d) = d"
    unfolding z using length_frame_bytes [OF assms(2) ok] assms(2) by (simp_all add: frame_bytes_def)
  show ?thesis
    using walDecodeFrame_frame_at [OF l(1) assms(2,3)] frame_at_frame [OF assms(2) ok, of ?be ?ck "[]"] e(2) unfolding l(2) by (simp add: z)
qed

definition demo_writer :: Wal where
  "demo_writer = (demo_conn 0)\<lparr>hdr := (demo_hdr 0)\<lparr>aSalt := [1, 2, 3, 4, 5, 6, 7, 8], aFrameCksum := (17, 4)\<rparr>, szPageWal := 512\<rparr>"

theorem Frame_roundtrip_witness:
  "walDecodeFrame demo_writer (replicate 512 9) (fst (walEncodeFrame demo_writer 5 7 (replicate 512 9)) @ replicate 512 9)
    = (Some (5, 7), snd (walEncodeFrame demo_writer 5 7 (replicate 512 9)))"
  by (rule Frame_roundtrip) (simp_all add: demo_writer_def demo_conn_def)

end
