(* ===== verification/Wal_Recover.thy ===== *)
theory Wal_Recover
  imports Wal_Frame
begin

section \<open>Recovery of the write-ahead log (wal.c)\<close>

text \<open>
  When no connection has the index of a log open, the first one rebuilds it from the log file: it accepts
  frames as long as they are valid, and ends the log at the last frame that commits. The index is built
  page by page in private memory that \<open>malloc\<close> returns with any content, and each page is copied to the
  shared memory when it is complete. \<open>recover_env\<close> holds the outcomes of locks, allocation and file
  operations; the file does not change meanwhile, because the writers are locked out.
\<close>

definition WAL_MAGIC :: u32 where "WAL_MAGIC = 0x377f0682"
definition WAL_MAX_VERSION :: u32 where "WAL_MAX_VERSION = 3007000"
definition SQLITE_MAX_PAGE_SIZE :: u32 where "SQLITE_MAX_PAGE_SIZE = 65536"

record recover_env =
  lockAllRc :: nat
  sizeRc :: nat
  readHdrRc :: nat
  mallocRc :: nat
  aPrivate :: wi_page
  readFrameRc :: "nat \<Rightarrow> nat"
  markLockRc :: "nat \<Rightarrow> nat"

text \<open>The header of the log; \<open>Some rc\<close> when recovery finishes with \<open>rc\<close> at once. (\<open>szPage\<close> is a signed
  number in the code; the values that are negative there are too large here.)\<close>

definition load_header :: "Wal \<Rightarrow> bytes \<Rightarrow> nat option \<times> Wal" where
  "load_header w aBuf =
     (let magic = sqlite3Get4byte aBuf; szPage = sqlite3Get4byte (drop 8 aBuf)
      in if magic AND 0xFFFFFFFE \<noteq> WAL_MAGIC \<or> szPage AND (szPage - 1) \<noteq> 0 \<or> szPage > SQLITE_MAX_PAGE_SIZE \<or> szPage < 512
         then (Some 0, w)
         else let w = w\<lparr>szPageWal := unat szPage, nCkpt := unat (sqlite3Get4byte (drop 12 aBuf)),
                        hdr := (hdr w)\<lparr>bigEndCksum := (magic AND 1 = 1), aSalt := read_at aBuf 8 16\<rparr>\<rparr>;
                  ck = walChecksumBytes (bigEndCksum (hdr w) = SQLITE_BIGENDIAN) (take (WAL_HDRSIZE - 2 * 4) aBuf) (0, 0);
                  w = with_ck w ck
              in if fst ck \<noteq> sqlite3Get4byte (drop 24 aBuf) \<or> snd ck \<noteq> sqlite3Get4byte (drop 28 aBuf) then (Some 0, w)
                 else if sqlite3Get4byte (drop 4 aBuf) \<noteq> WAL_MAX_VERSION then (Some SQLITE_CANTOPEN, w)
                 else (None, w))"

text \<open>A commit record ends the log behind it.\<close>

definition commit_frame :: "Wal \<Rightarrow> nat \<Rightarrow> nat \<Rightarrow> Wal" where
  "commit_frame w iFrame nTruncate =
     w\<lparr>hdr := (hdr w)\<lparr>mxFrame := iFrame, nPage := nTruncate,
         szPage16 := ((szPageWal w AND 0xff00) OR (szPageWal w div 2 ^ 16)) mod 2 ^ 16\<rparr>\<rparr>"

text \<open>The frames of one page of the index: the result code, whether the last frame was reached, and the
  state with the checksum behind the last commit.\<close>

fun recover_frames :: "recover_env \<Rightarrow> (nat \<Rightarrow> nat) \<Rightarrow> bytes \<Rightarrow> nat list \<Rightarrow> wal_shm \<Rightarrow> Wal \<Rightarrow> cksum \<Rightarrow> nat \<times> bool \<times> wal_shm \<times> Wal \<times> cksum" where
  "recover_frames env map_rc wal [] m w aFrameCk = (0, True, m, w, aFrameCk)"
| "recover_frames env map_rc wal (iFrame # rest) m w aFrameCk =
     (let szFrame = szPageWal w + WAL_FRAME_HDRSIZE; aFrame = read_at wal szFrame (walFrameOffset iFrame (szPageWal w))
      in if readFrameRc env iFrame \<noteq> 0 then (readFrameRc env iFrame, False, m, w, aFrameCk)
         else case walDecodeFrame w (drop WAL_FRAME_HDRSIZE aFrame) aFrame of
           (None, w) \<Rightarrow> (0, False, m, w, aFrameCk)
         | (Some (pgno, nTruncate), w) \<Rightarrow>
             (case walIndexAppend map_rc m w iFrame pgno of (rc, m) \<Rightarrow>
                if rc \<noteq> 0 then (rc, False, m, w, aFrameCk)
                else if nTruncate \<noteq> 0 then
                  (let w = commit_frame w iFrame nTruncate in recover_frames env map_rc wal rest m w (aFrameCksum (hdr w)))
                else recover_frames env map_rc wal rest m w aFrameCk))"

definition publish_page :: "nat \<Rightarrow> wi_page \<Rightarrow> wi_page \<Rightarrow> wi_page" where
  "publish_page iPg aShare aPriv =
     \<lparr>pgWord = (\<lambda>k. if k < (if iPg = 0 then WALINDEX_HDR_SIZE else 0) div 4 then pgWord aShare k else pgWord aPriv k),
      pgSlot = pgSlot aPriv\<rparr>"

abbreviation set_page :: "wal_shm \<Rightarrow> nat \<Rightarrow> wi_page \<Rightarrow> wal_shm" where
  "set_page m iPg pg \<equiv> m\<lparr>shmPage := (shmPage m)(iPg := pg)\<rparr>"

fun recover_pages :: "recover_env \<Rightarrow> (nat \<Rightarrow> nat) \<Rightarrow> bytes \<Rightarrow> nat \<Rightarrow> nat list \<Rightarrow> wi_page \<Rightarrow> wal_shm \<Rightarrow> Wal \<Rightarrow> cksum \<Rightarrow> nat \<times> wal_shm \<times> Wal \<times> cksum" where
  "recover_pages env map_rc wal iLastFrame [] aPriv m w aFrameCk = (0, m, w, aFrameCk)"
| "recover_pages env map_rc wal iLastFrame (iPg # rest) aPriv m w aFrameCk =
     (let iLast = min iLastFrame (HASHTABLE_NPAGE_ONE + iPg * HASHTABLE_NPAGE);
          iFirst = 1 + (if iPg = 0 then 0 else HASHTABLE_NPAGE_ONE + (iPg - 1) * HASHTABLE_NPAGE);
          aShare = shmPage m iPg
      in if map_rc iPg \<noteq> 0 then (map_rc iPg, m, w, aFrameCk)
         else case recover_frames env map_rc wal [iFirst ..< iLast + 1] (set_page m iPg aPriv) w aFrameCk of
           (rc, complete, m, w, aFrameCk) \<Rightarrow>
             let aPriv = shmPage m iPg; m = set_page m iPg (publish_page iPg aShare aPriv)
             in if \<not> complete then (rc, m, w, aFrameCk)
                else recover_pages env map_rc wal iLastFrame rest aPriv m w aFrameCk)"

text \<open>The part for a file that is longer than a header; \<open>Inl\<close> for the jump to \<open>recovery_error\<close>.\<close>

definition recover_log :: "recover_env \<Rightarrow> (nat \<Rightarrow> nat) \<Rightarrow> wal_shm \<Rightarrow> Wal \<Rightarrow> bytes \<Rightarrow> (nat \<times> wal_shm \<times> Wal) + (nat \<times> wal_shm \<times> Wal \<times> cksum)" where
  "recover_log env map_rc m w wal =
     (if readHdrRc env \<noteq> 0 then Inl (readHdrRc env, m, w)
      else case load_header w (take WAL_HDRSIZE wal) of
        (Some rc, w) \<Rightarrow> Inr (rc, m, w, (0, 0))
      | (None, w) \<Rightarrow>
          if mallocRc env \<noteq> 0 then Inl (SQLITE_NOMEM, m, w)
          else let iLastFrame = ((length wal - WAL_HDRSIZE) div (szPageWal w + WAL_FRAME_HDRSIZE)) mod 2 ^ 32
               in Inr (recover_pages env map_rc wal iLastFrame [0 ..< walFramePage iLastFrame + 1] (aPrivate env) m w (0, 0)))"

fun recover_marks :: "recover_env \<Rightarrow> nat \<Rightarrow> nat list \<Rightarrow> nat \<Rightarrow> nat list \<Rightarrow> nat \<times> nat list" where
  "recover_marks env mx [] rc marks = (rc, marks)"
| "recover_marks env mx (i # is') rc marks =
     (if markLockRc env i = 0 then recover_marks env mx is' 0 (marks[i := (if i = 1 \<and> mx \<noteq> 0 then mx else READMARK_NOT_USED)])
      else if markLockRc env i \<noteq> SQLITE_BUSY then (markLockRc env i, marks)
      else recover_marks env mx is' (markLockRc env i) marks)"

definition recover_finish :: "recover_env \<Rightarrow> nat \<times> wal_shm \<times> Wal \<times> cksum \<Rightarrow> nat \<times> wal_shm \<times> Wal" where
  "recover_finish env st =
     (case st of (rc, m, w, aFrameCk) \<Rightarrow>
        if rc \<noteq> 0 then (rc, m, w)
        else let w = with_ck w aFrameCk; m = walIndexWriteHdr m w;
                 (rc, marks) = recover_marks env (mxFrame (hdr w)) [1..<WAL_NREADER] 0 ((aReadMark (shmInfo m))[0 := 0])
             in (rc, m\<lparr>shmInfo := \<lparr>nBackfill = 0, aReadMark = marks, nBackfillAttempted = mxFrame (hdr w)\<rparr>\<rparr>, w))"

definition zero_hdr :: WalIndexHdr where
  "zero_hdr = \<lparr>iChange = 0, bigEndCksum = False, szPage16 = 0, mxFrame = 0, nPage = 0, aFrameCksum = (0, 0), aSalt = replicate 8 0\<rparr>"

definition walIndexRecover :: "recover_env \<Rightarrow> (nat \<Rightarrow> nat) \<Rightarrow> wal_shm \<Rightarrow> Wal \<Rightarrow> bytes \<Rightarrow> nat \<times> wal_shm \<times> Wal" where
  "walIndexRecover env map_rc m w wal =
     (if lockAllRc env \<noteq> 0 then (lockAllRc env, m, w)
      else let w = w\<lparr>hdr := zero_hdr\<rparr>
           in if sizeRc env \<noteq> 0 then (sizeRc env, m, w)
              else case (if WAL_HDRSIZE < length wal then recover_log env map_rc m w wal else Inr (0, m, w, (0, 0))) of
                Inl r \<Rightarrow> r
              | Inr st \<Rightarrow> recover_finish env st)"

subsection \<open>What a log file means\<close>

text \<open>The committed part of a sequence of frames: everything up to the last frame that commits.\<close>

definition committed :: "frame list \<Rightarrow> frame list" where
  "committed fs = rev (dropWhile (\<lambda>f. frame_size f = 0) (rev fs))"

lemma committed_Nil [simp]: "committed [] = []"
  by (simp add: committed_def)

lemma committed_snoc: "committed (fs @ [f]) = (if frame_size f = 0 then committed fs else fs @ [f])"
  by (simp add: committed_def)

lemma committed_prefix: "\<exists>rest. fs = committed fs @ rest"
proof
  show "fs = committed fs @ rev (takeWhile (\<lambda>f. frame_size f = 0) (rev fs))"
    unfolding committed_def by (simp flip: rev_append)
qed

lemma committed_last: "committed fs \<noteq> [] \<Longrightarrow> frame_size (last (committed fs)) \<noteq> 0"
  using hd_dropWhile [of "\<lambda>f. frame_size f = 0" "rev fs"] by (auto simp: committed_def last_rev)

lemma length_committed: "length (committed fs) \<le> length fs"
  using committed_prefix [of fs] by (metis le_add1 length_append)

lemma committed_nth: "i < length (committed fs) \<Longrightarrow> fs ! i = committed fs ! i"
  using committed_prefix [of fs] by (metis nth_append)

lemma committed_append: "committed fs = [] \<Longrightarrow> committed (gs @ fs) = committed gs"
  by (simp add: committed_def dropWhile_append)

lemma committed_idem: "fs = [] \<or> frame_size (last fs) \<noteq> 0 \<Longrightarrow> committed fs = fs"
  by (cases fs rule: rev_cases) (simp_all add: committed_snoc)

text \<open>The state of the recovery when the frames \<open>vs\<close> have been accepted.\<close>

definition hdr16 :: "nat \<Rightarrow> nat" where
  "hdr16 sz = ((sz AND 0xff00) OR (sz div 2 ^ 16)) mod 2 ^ 16"

definition rec_inv :: "bool \<Rightarrow> bytes \<Rightarrow> nat \<Rightarrow> cksum \<Rightarrow> frame list \<Rightarrow> wal_shm \<Rightarrow> Wal \<Rightarrow> cksum \<Rightarrow> bool" where
  "rec_inv be salt sz ck0 vs m w ck \<longleftrightarrow>
     bigEndCksum (hdr w) = be \<and> aSalt (hdr w) = salt \<and> szPageWal w = sz \<and> aFrameCksum (hdr w) = log_ck be ck0 vs
     \<and> wi_rep m (map frame_page vs) \<and> mxFrame (hdr w) = length (committed vs)
     \<and> nPage (hdr w) = (if committed vs = [] then 0 else frame_size (last (committed vs)))
     \<and> szPage16 (hdr w) = (if committed vs = [] then 0 else hdr16 sz)
     \<and> ck = (if committed vs = [] then (0, 0) else log_ck be ck0 (committed vs))"

lemma frame_take_drop:
  assumes "n * s + s \<le> length z"
  shows "read_at (h @ z) s (length h + n * s) = take s (drop (n * s) z)" "length (take s (drop (n * s) z)) = s"
  using assms by (simp_all add: read_at_def)

lemma recover_step_commit:
  assumes "rec_inv be salt sz ck0 vs m w ck" "frame_size f \<noteq> 0" "wi_rep m' (map frame_page (vs @ [f]))"
  shows "rec_inv be salt sz ck0 (vs @ [f]) m' (commit_frame (with_ck w (frame_ck be (log_ck be ck0 vs) f)) (Suc (length vs)) (frame_size f))
    (frame_ck be (log_ck be ck0 vs) f)"
  using assms by (simp add: rec_inv_def committed_snoc commit_frame_def hdr16_def)

lemma recover_step_plain:
  assumes "rec_inv be salt sz ck0 vs m w ck" "frame_size f = 0" "wi_rep m' (map frame_page (vs @ [f]))"
  shows "rec_inv be salt sz ck0 (vs @ [f]) m' (with_ck w (frame_ck be (log_ck be ck0 vs) f)) ck"
  using assms by (simp add: rec_inv_def committed_snoc)

lemma rec_inv_ck: "rec_inv be salt sz ck0 vs m w ck \<Longrightarrow> with_ck w (log_ck be ck0 vs) = w"
  by (simp add: rec_inv_def)

text \<open>The valid frames behind those that were accepted.\<close>

definition frames_after :: "bool \<Rightarrow> bytes \<Rightarrow> nat \<Rightarrow> cksum \<Rightarrow> bytes \<Rightarrow> frame list \<Rightarrow> frame list" where
  "frames_after be salt sz ck0 z vs = valid_frames be salt sz (log_ck be ck0 vs) (drop (length vs * (sz + 24)) z)"

lemma frames_after_None: "frame_at be salt sz (log_ck be ck0 vs) (drop (length vs * (sz + 24)) z) = None \<Longrightarrow> frames_after be salt sz ck0 z vs = []"
  unfolding frames_after_def by (rule valid_frames_None)

lemma frames_after_Some: "frame_at be salt sz (log_ck be ck0 vs) (drop (length vs * (sz + 24)) z) = Some f \<Longrightarrow>
    frames_after be salt sz ck0 z vs = f # frames_after be salt sz ck0 z (vs @ [f])"
  unfolding frames_after_def by (subst valid_frames_Some) (simp_all add: algebra_simps)

lemma walFrameOffset_simp: "walFrameOffset (Suc k) sz = 32 + k * (sz + 24)"
  by (simp add: walFrameOffset_def WAL_HDRSIZE_def WAL_FRAME_HDRSIZE_def)

lemma wf_hdr: "WAL_HDRSIZE = 32" "WAL_FRAME_HDRSIZE = 24"
  by (simp_all add: WAL_HDRSIZE_def WAL_FRAME_HDRSIZE_def)

text \<open>The invariant when a page of the index is left: at an invalid frame the checksum of the connection is that of
  the frame that was tried.\<close>

definition rec_stop :: "bool \<Rightarrow> bytes \<Rightarrow> nat \<Rightarrow> cksum \<Rightarrow> frame list \<Rightarrow> wal_shm \<Rightarrow> Wal \<Rightarrow> cksum \<Rightarrow> bool" where
  "rec_stop be salt sz ck0 vs m w ck \<longleftrightarrow> rec_inv be salt sz ck0 vs m (with_ck w (log_ck be ck0 vs)) ck"

lemma rec_inv_stop: "rec_inv be salt sz ck0 vs m w ck \<Longrightarrow> rec_stop be salt sz ck0 vs m w ck"
  by (simp add: rec_stop_def rec_inv_ck)

lemma rec_stop_with_ck: "rec_inv be salt sz ck0 vs m w ck \<Longrightarrow> rec_stop be salt sz ck0 vs m (with_ck w x) ck"
  by (simp add: rec_stop_def rec_inv_ck)

lemma recover_frames_Cons:
  assumes "readFrameRc env (Suc k) = 0" "szPageWal w = sz" "read_at wal (sz + 24) (32 + k * (sz + 24)) = y"
  shows "recover_frames env map_rc wal (Suc k # rest) m w ck =
     (case walDecodeFrame w (drop 24 y) y of
        (None, w) \<Rightarrow> (0, False, m, w, ck)
      | (Some (pgno, nTruncate), w) \<Rightarrow>
          (case walIndexAppend map_rc m w (Suc k) pgno of (rc, m) \<Rightarrow>
             if rc \<noteq> 0 then (rc, False, m, w, ck)
             else if nTruncate \<noteq> 0 then
               (let w = commit_frame w (Suc k) nTruncate in recover_frames env map_rc wal rest m w (aFrameCksum (hdr w)))
             else recover_frames env map_rc wal rest m w ck))"
  using assms by (simp add: Let_def wf_hdr walFrameOffset_simp)

definition rec_result :: "bool \<Rightarrow> bytes \<Rightarrow> nat \<Rightarrow> cksum \<Rightarrow> bytes \<Rightarrow> nat \<Rightarrow> frame list \<Rightarrow> nat \<times> bool \<times> wal_shm \<times> Wal \<times> cksum \<Rightarrow> bool" where
  "rec_result be salt sz ck0 z N vs r \<longleftrightarrow> (case r of (rc, complete, m, w, ck) \<Rightarrow>
     rc = 0 \<and> (\<exists>vs'. rec_stop be salt sz ck0 (vs @ vs') m w ck
       \<and> frames_after be salt sz ck0 z vs = vs' @ frames_after be salt sz ck0 z (vs @ vs')
       \<and> (if complete then length (vs @ vs') = N \<and> rec_inv be salt sz ck0 (vs @ vs') m w ck
          else frames_after be salt sz ck0 z (vs @ vs') = [])))"

lemma rec_result_step:
  assumes "frames_after be salt sz ck0 z vs = f # frames_after be salt sz ck0 z (vs @ [f])" "rec_result be salt sz ck0 z N (vs @ [f]) r"
  shows "rec_result be salt sz ck0 z N vs r"
proof -
  obtain rc complete m w ck where r: "r = (rc, complete, m, w, ck)" by (metis prod_cases5)
  obtain vs' where "rc = 0" "rec_stop be salt sz ck0 (vs @ f # vs') m w ck"
    "frames_after be salt sz ck0 z (vs @ [f]) = vs' @ frames_after be salt sz ck0 z (vs @ f # vs')"
    "if complete then length (vs @ f # vs') = N \<and> rec_inv be salt sz ck0 (vs @ f # vs') m w ck
     else frames_after be salt sz ck0 z (vs @ f # vs') = []"
    using assms(2) unfolding rec_result_def r prod.case append_assoc append_Cons append_Nil by blast
  then show ?thesis unfolding rec_result_def r prod.case
    by (intro conjI exI [of _ "f # vs'"]) (use assms(1) in simp_all)
qed

lemma recover_frames_ok:
  assumes env: "\<And>f. readFrameRc env f = 0" and ok: "\<And>b. map_rc b = 0" and h: "length h = 32" and salt: "length salt = 8" and sz: "0 < sz"
  shows "rec_inv be salt sz ck0 vs m w ck \<Longrightarrow> length vs + n = N \<Longrightarrow> N * (sz + 24) \<le> length z \<Longrightarrow>
    rec_result be salt sz ck0 z N vs (recover_frames env map_rc (h @ z) [Suc (length vs) ..< Suc N] m w ck)"
proof (induction n arbitrary: vs m w ck)
  case 0
  then show ?case by (simp add: rec_result_def rec_inv_stop)
next
  case (Suc n)
  let ?k = "length vs" and ?ck = "log_ck be ck0 vs"
  define y where "y = take (sz + 24) (drop (?k * (sz + 24)) z)"
  have "?k * (sz + 24) + (sz + 24) \<le> N * (sz + 24)" using Suc.prems(2) mult_le_mono1 [of "Suc ?k" N "sz + 24"] by simp
  then have le: "?k * (sz + 24) + (sz + 24) \<le> length z" using Suc.prems(3) by simp
  have y: "length y = sz + 24" "read_at (h @ z) (sz + 24) (32 + ?k * (sz + 24)) = y"
    using frame_take_drop(1) [OF le, of h] frame_take_drop(2) [OF le] h by (simp_all only: y_def)
  have w: "bigEndCksum (hdr w) = be" "aSalt (hdr w) = salt" "szPageWal w = sz" "aFrameCksum (hdr w) = ?ck" and rep: "wi_rep m (map frame_page vs)"
    using Suc.prems(1) by (simp_all add: rec_inv_def)
  have at: "frame_at be salt sz ?ck y = frame_at be salt sz ?ck (drop (?k * (sz + 24)) z)"
    unfolding y_def by (rule frame_at_cut) (use le in simp)
  have dec: "case frame_at be salt sz ?ck (drop (?k * (sz + 24)) z) of
      None \<Rightarrow> (\<exists>ck. walDecodeFrame w (drop 24 y) y = (None, with_ck w ck))
    | Some f \<Rightarrow> walDecodeFrame w (drop 24 y) y = (Some (frame_page f, frame_size f), with_ck w (frame_ck be ?ck f))"
    using walDecodeFrame_frame_at [of y w] y(1) salt sz unfolding w at by simp
  have upt: "[Suc ?k ..< Suc N] = Suc ?k # [Suc (Suc ?k) ..< Suc N]" using Suc.prems(2) by (intro upt_conv_Cons) simp
  note step = recover_frames_Cons [OF env w(3) y(2), where map_rc = map_rc and rest = "[Suc (Suc ?k) ..< Suc N]" and m = m and ck = ck, folded upt]
  show ?case
  proof (cases "frame_at be salt sz ?ck (drop (?k * (sz + 24)) z)")
    case None
    then obtain x where "walDecodeFrame w (drop 24 y) y = (None, with_ck w x)" using dec by auto
    then have "recover_frames env map_rc (h @ z) [Suc ?k ..< Suc N] m w ck = (0, False, m, with_ck w x, ck)"
      unfolding step by simp
    then show ?thesis unfolding rec_result_def
      by (simp del: upt_Suc) (intro exI [of _ "[]"], simp add: rec_stop_with_ck [OF Suc.prems(1)] frames_after_None [OF None])
  next
    case (Some f)
    then have d: "walDecodeFrame w (drop 24 y) y = (Some (frame_page f, frame_size f), with_ck w (frame_ck be ?ck f))" using dec by simp
    have f: "frame_ok sz f" using frame_at_ok [OF Some] by simp
    obtain m1 where m1: "walIndexAppend map_rc m (with_ck w (frame_ck be ?ck f)) (Suc ?k) (frame_page f) = (0, m1)"
      "wi_rep m1 (take ?k (map frame_page vs) @ [frame_page f])"
      by (rule walIndexAppend_rep [where map_rc = map_rc and k = ?k and w = "with_ck w (frame_ck be ?ck f)" and p = "frame_page f", OF rep ok])
         (use f in \<open>simp_all add: frame_ok_def\<close>)
    then have rep1: "wi_rep m1 (map frame_page (vs @ [f]))" by simp
    have len: "length (vs @ [f]) + n = N" "Suc (Suc ?k) = Suc (length (vs @ [f]))" using Suc.prems(2) by simp_all
    show ?thesis
    proof (rule rec_result_step [OF frames_after_Some [OF Some]], cases "frame_size f = 0")
      case True
      have "recover_frames env map_rc (h @ z) [Suc ?k ..< Suc N] m w ck
          = recover_frames env map_rc (h @ z) [Suc (length (vs @ [f])) ..< Suc N] m1 (with_ck w (frame_ck be ?ck f)) ck"
        unfolding step d len(2) using m1(1) True by simp
      then show "rec_result be salt sz ck0 z N (vs @ [f]) (recover_frames env map_rc (h @ z) [Suc ?k ..< Suc N] m w ck)"
        using Suc.IH [OF recover_step_plain [OF Suc.prems(1) True rep1] len(1) Suc.prems(3)] by simp
    next
      case False
      let ?w = "commit_frame (with_ck w (frame_ck be ?ck f)) (Suc ?k) (frame_size f)"
      have c: "aFrameCksum (hdr ?w) = frame_ck be ?ck f" by (simp add: commit_frame_def)
      have "recover_frames env map_rc (h @ z) [Suc ?k ..< Suc N] m w ck
          = recover_frames env map_rc (h @ z) [Suc (length (vs @ [f])) ..< Suc N] m1 ?w (aFrameCksum (hdr ?w))"
        unfolding step d len(2) using m1(1) False by (simp add: Let_def)
      then show "rec_result be salt sz ck0 z N (vs @ [f]) (recover_frames env map_rc (h @ z) [Suc ?k ..< Suc N] m w ck)"
        using Suc.IH [OF recover_step_commit [OF Suc.prems(1) False rep1] len(1) Suc.prems(3)] unfolding c by simp
    qed
  qed
qed

subsection \<open>The pages of the index\<close>

lemma wi_rep_set_page:
  assumes "wi_rep m fs" "length fs \<le> blk_zero i"
  shows "wi_rep (set_page m i pg) fs"
proof -
  have "b \<noteq> i" if "blk_zero b < length fs" for b using that assms(2) by auto
  then show ?thesis using assms(1) by (simp add: wi_rep_def)
qed

lemma page_rep_publish: "page_rep i pg fs \<Longrightarrow> page_rep i (publish_page i sh pg) fs"
  by (cases "i = 0") (auto simp: page_rep_def publish_page_def wal_consts blk_base_def)

lemma wi_rep_publish: "wi_rep m fs \<Longrightarrow> wi_rep (set_page m i (publish_page i sh (shmPage m i))) fs"
  by (simp add: wi_rep_def page_rep_publish)

lemma rec_inv_set_page: "rec_inv be salt sz ck0 vs m w ck \<Longrightarrow> length vs \<le> blk_zero i \<Longrightarrow> rec_inv be salt sz ck0 vs (set_page m i pg) w ck"
  by (simp add: rec_inv_def wi_rep_set_page)

lemma rec_inv_publish: "rec_inv be salt sz ck0 vs m w ck \<Longrightarrow> rec_inv be salt sz ck0 vs (set_page m i (publish_page i sh (shmPage m i))) w ck"
  by (simp add: rec_inv_def wi_rep_publish)

lemma rec_stop_publish: "rec_stop be salt sz ck0 vs m w ck \<Longrightarrow> rec_stop be salt sz ck0 vs (set_page m i (publish_page i sh (shmPage m i))) w ck"
  by (simp add: rec_stop_def rec_inv_publish)

lemma recover_bounds: "HASHTABLE_NPAGE_ONE + i * HASHTABLE_NPAGE = blk_end i"
  "(if i = 0 then 0 else HASHTABLE_NPAGE_ONE + (i - 1) * HASHTABLE_NPAGE) = blk_zero i"
  by (simp_all add: wal_consts blk_end_def blk_zero_def)

lemma recover_pages_Cons:
  assumes "map_rc i = 0"
    and "recover_frames env map_rc wal [Suc (blk_zero i) ..< Suc (min iLastFrame (blk_end i))] (set_page m i aPriv) w ck = (rc, complete, m1, w1, ck1)"
  shows "recover_pages env map_rc wal iLastFrame (i # rest) aPriv m w ck =
    (let m2 = set_page m1 i (publish_page i (shmPage m i) (shmPage m1 i))
     in if \<not> complete then (rc, m2, w1, ck1) else recover_pages env map_rc wal iLastFrame rest (shmPage m1 i) m2 w1 ck1)"
  unfolding recover_pages.simps Let_def unfolding recover_bounds(2) unfolding recover_bounds(1)
  using assms by (simp del: upt_Suc)

definition rec_final :: "bool \<Rightarrow> bytes \<Rightarrow> nat \<Rightarrow> cksum \<Rightarrow> bytes \<Rightarrow> frame list \<Rightarrow> nat \<times> wal_shm \<times> Wal \<times> cksum \<Rightarrow> bool" where
  "rec_final be salt sz ck0 z vs r \<longleftrightarrow> (case r of (rc, m, w, ck) \<Rightarrow>
     rc = 0 \<and> rec_stop be salt sz ck0 (vs @ frames_after be salt sz ck0 z vs) m w ck)"

lemma frames_after_end:
  assumes "length vs = length z div (sz + 24)"
  shows "frames_after be salt sz ck0 z vs = []"
proof -
  have "length z - length z div (sz + 24) * (sz + 24) = length z mod (sz + 24)" by (rule minus_div_mult_eq_mod)
  moreover have "length z mod (sz + 24) < sz + 24" by simp
  ultimately show ?thesis unfolding frames_after_def by (intro valid_frames_short) (simp add: assms)
qed

lemma page_start_le:
  assumes "i \<le> walFramePage L"
  shows "blk_zero i \<le> L" "i < walFramePage L \<Longrightarrow> blk_end i \<le> L" "L \<le> blk_end (walFramePage L)"
proof -
  show "L \<le> blk_end (walFramePage L)" using frame_page(2) [of L] by (cases "L = 0") simp_all
  show a: "blk_end i \<le> L" if "i < walFramePage L" for i
  proof (cases "L = 0")
    case True
    then show ?thesis using that by (simp add: walFramePage_eq)
  next
    case False
    then show ?thesis using blk_zero_mono [OF that] frame_page(1) [of L] by simp
  qed
  show "blk_zero i \<le> L"
  proof (cases "i = walFramePage L")
    case True
    then show ?thesis using frame_page(1) [of L] by (cases "L = 0") (simp_all add: walFramePage_eq blk_zero_def)
  next
    case False
    then show ?thesis using a [of i] assms blk_zero_end(1) [of i] by simp
  qed
qed

lemma rec_final_step:
  assumes "frames_after be salt sz ck0 z vs = vs' @ frames_after be salt sz ck0 z (vs @ vs')" "rec_final be salt sz ck0 z (vs @ vs') r"
  shows "rec_final be salt sz ck0 z vs r"
  using assms by (simp add: rec_final_def)

text \<open>One page of the index: recovery stops there or goes on with a larger sequence of frames.\<close>

lemma recover_page:
  assumes env: "\<And>f. readFrameRc env f = 0" and ok: "\<And>b. map_rc b = 0" and h: "length h = 32" and salt: "length salt = 8" and sz: "0 < sz"
    and L: "L = length z div (sz + 24)" and inv: "rec_inv be salt sz ck0 vs m w ck" and vs: "length vs = blk_zero i" and i: "i \<le> walFramePage L"
  obtains m2 w1 ck1 where
      "recover_pages env map_rc (h @ z) L (i # rest) aPriv m w ck = (0, m2, w1, ck1)" "rec_final be salt sz ck0 z vs (0, m2, w1, ck1)"
  | m2 w1 ck1 aPriv1 vs' where
      "recover_pages env map_rc (h @ z) L (i # rest) aPriv m w ck = recover_pages env map_rc (h @ z) L rest aPriv1 m2 w1 ck1"
      "rec_inv be salt sz ck0 (vs @ vs') m2 w1 ck1" "length (vs @ vs') = min L (blk_end i)"
      "frames_after be salt sz ck0 z vs = vs' @ frames_after be salt sz ck0 z (vs @ vs')"
proof -
  let ?N = "min L (blk_end i)"
  have le: "blk_zero i \<le> L" using page_start_le(1) [OF i] .
  have n: "length vs + (?N - length vs) = ?N" using le vs blk_zero_end(1) [of i] by simp
  have "?N * (sz + 24) \<le> L * (sz + 24)" by (intro mult_le_mono1) simp
  then have z: "?N * (sz + 24) \<le> length z" unfolding L by (meson div_times_less_eq_dividend le_trans)
  have inv0: "rec_inv be salt sz ck0 vs (set_page m i aPriv) w ck" using rec_inv_set_page [OF inv] vs by simp
  obtain rc complete m1 w1 ck1 where r: "recover_frames env map_rc (h @ z) [Suc (length vs) ..< Suc ?N] (set_page m i aPriv) w ck = (rc, complete, m1, w1, ck1)"
    by (metis prod_cases5)
  have "rec_result be salt sz ck0 z ?N vs (rc, complete, m1, w1, ck1)"
    using recover_frames_ok [where env = env and map_rc = map_rc, OF env ok h salt sz inv0 n z] unfolding r .
  then obtain vs' where v: "rc = 0" "rec_stop be salt sz ck0 (vs @ vs') m1 w1 ck1"
    "frames_after be salt sz ck0 z vs = vs' @ frames_after be salt sz ck0 z (vs @ vs')"
    "if complete then length (vs @ vs') = ?N \<and> rec_inv be salt sz ck0 (vs @ vs') m1 w1 ck1 else frames_after be salt sz ck0 z (vs @ vs') = []"
    unfolding rec_result_def by blast
  note step = recover_pages_Cons [where map_rc = map_rc and rest = rest and aPriv = aPriv and m = m, OF ok r [unfolded vs], unfolded Let_def]
  show thesis
  proof (cases complete)
    case True
    then show thesis using that(2) [where vs' = vs'] step rec_inv_publish [of be salt sz ck0 "vs @ vs'" m1 w1 ck1 i "shmPage m i"] v(3,4) by simp
  next
    case False
    then have "rec_final be salt sz ck0 z vs (0, set_page m1 i (publish_page i (shmPage m i) (shmPage m1 i)), w1, ck1)"
      using v(3,4) rec_stop_publish [OF v(2), of i "shmPage m i"] by (simp add: rec_final_def)
    then show thesis using that(1) step False v(1) by simp
  qed
qed

lemma recover_pages_ok:
  assumes env: "\<And>f. readFrameRc env f = 0" and ok: "\<And>b. map_rc b = 0" and h: "length h = 32" and salt: "length salt = 8" and sz: "0 < sz"
    and L: "L = length z div (sz + 24)"
  shows "rec_inv be salt sz ck0 vs m w ck \<Longrightarrow> length vs = blk_zero i \<Longrightarrow> i + n = walFramePage L \<Longrightarrow>
    rec_final be salt sz ck0 z vs (recover_pages env map_rc (h @ z) L [i ..< Suc (walFramePage L)] aPriv m w ck)"
proof (induction n arbitrary: i vs m w ck aPriv)
  case (0 i vs m w ck aPriv)
  then have u: "[i ..< Suc (walFramePage L)] = [i]" and i: "i \<le> walFramePage L" by simp_all
  show ?case
  proof (cases rule: recover_page [where env = env and map_rc = map_rc and rest = "[]" and aPriv = aPriv, OF env ok h salt sz L 0(1,2) i])
    case (1 m2 w1 ck1)
    then show ?thesis unfolding u by simp
  next
    case (2 m2 w1 ck1 aPriv1 vs')
    have "length (vs @ vs') = L" using 2(3) page_start_le(3) [OF i] 0(3) by simp
    then have "frames_after be salt sz ck0 z (vs @ vs') = []" by (intro frames_after_end) (simp only: L)
    then show ?thesis unfolding u 2(1) using 2(4) rec_inv_stop [OF 2(2)] by (simp add: rec_final_def)
  qed
next
  case (Suc n i vs m w ck aPriv)
  have i: "i \<le> walFramePage L" "i < walFramePage L" using Suc.prems(3) by simp_all
  have u: "[i ..< Suc (walFramePage L)] = i # [Suc i ..< Suc (walFramePage L)]" using i by (intro upt_conv_Cons) simp
  show ?case
  proof (cases rule: recover_page [where env = env and map_rc = map_rc and rest = "[Suc i ..< Suc (walFramePage L)]" and aPriv = aPriv, OF env ok h salt sz L Suc.prems(1,2) i(1)])
    case (1 m2 w1 ck1)
    then show ?thesis unfolding u by (simp only:)
  next
    case (2 m2 w1 ck1 aPriv1 vs')
    have "length (vs @ vs') = blk_zero (Suc i)" using 2(3) page_start_le(2) [OF i] by (simp add: blk_end_Suc)
    then have "rec_final be salt sz ck0 z (vs @ vs') (recover_pages env map_rc (h @ z) L [Suc i ..< Suc (walFramePage L)] aPriv1 m2 w1 ck1)"
      using Suc.IH [OF 2(2)] Suc.prems(3) by simp
    then show ?thesis unfolding u 2(1) by (rule rec_final_step [OF 2(4)])
  qed
qed

subsection \<open>The header of the log\<close>

definition hdr_fields :: "bool \<Rightarrow> nat \<Rightarrow> nat \<Rightarrow> bytes \<Rightarrow> bytes" where
  "hdr_fields be sz nCk salt = sqlite3Put4byte (WAL_MAGIC OR (if be then 1 else 0)) @ sqlite3Put4byte WAL_MAX_VERSION
     @ sqlite3Put4byte (of_nat sz) @ sqlite3Put4byte (of_nat nCk) @ salt"

definition hdr_ck :: "bool \<Rightarrow> nat \<Rightarrow> nat \<Rightarrow> bytes \<Rightarrow> cksum" where
  "hdr_ck be sz nCk salt = cksum_spec be (hdr_fields be sz nCk salt) (0, 0)"

definition wal_header :: "bool \<Rightarrow> nat \<Rightarrow> nat \<Rightarrow> bytes \<Rightarrow> bytes" where
  "wal_header be sz nCk salt = hdr_fields be sz nCk salt
     @ sqlite3Put4byte (fst (hdr_ck be sz nCk salt)) @ sqlite3Put4byte (snd (hdr_ck be sz nCk salt))"

definition page_size_ok :: "nat \<Rightarrow> bool" where
  "page_size_ok sz \<longleftrightarrow> sz \<in> {512, 1024, 2048, 4096, 8192, 16384, 32768, 65536}"

lemma length_wal_header [simp]: "length salt = 8 \<Longrightarrow> length (wal_header be sz nCk salt) = 32"
  by (simp add: wal_header_def hdr_fields_def)

lemma page_size_cases:
  assumes "page_size_ok sz"
  shows "\<not> (of_nat sz AND (of_nat sz - 1) \<noteq> (0::u32) \<or> of_nat sz > SQLITE_MAX_PAGE_SIZE \<or> of_nat sz < (512::u32))"
    "unat (of_nat sz :: u32) = sz" "0 < sz" "(hdr16 sz AND 0xfe00) + push_bit 16 (hdr16 sz AND 1) = sz"
  using assms unfolding page_size_ok_def by (auto simp: SQLITE_MAX_PAGE_SIZE_def hdr16_def)

lemma magic_bits: "(WAL_MAGIC OR (if be then 1 else 0)) AND 0xFFFFFFFE = WAL_MAGIC" "(WAL_MAGIC OR (if be then 1 else 0)) AND 1 = 1 \<longleftrightarrow> be"
  by (cases be; simp add: WAL_MAGIC_def)+

lemma load_header_ok:
  assumes "page_size_ok sz" "length salt = 8" "nCk < 2 ^ 32"
  shows "load_header w (wal_header be sz nCk salt)
    = (None, w\<lparr>szPageWal := sz, nCkpt := nCk, hdr := (hdr w)\<lparr>bigEndCksum := be, aSalt := salt, aFrameCksum := hdr_ck be sz nCk salt\<rparr>\<rparr>)"
proof -
  let ?h = "wal_header be sz nCk salt"
  have g: "sqlite3Get4byte ?h = WAL_MAGIC OR (if be then 1 else 0)" "sqlite3Get4byte (drop 4 ?h) = WAL_MAX_VERSION"
    "sqlite3Get4byte (drop 8 ?h) = of_nat sz" "sqlite3Get4byte (drop 12 ?h) = of_nat nCk" "read_at ?h 8 16 = salt"
    "take (WAL_HDRSIZE - 2 * 4) ?h = hdr_fields be sz nCk salt"
    "sqlite3Get4byte (drop 24 ?h) = fst (hdr_ck be sz nCk salt)" "sqlite3Get4byte (drop 28 ?h) = snd (hdr_ck be sz nCk salt)"
    using assms(2) Get4byte_Put4byte [of "snd (hdr_ck be sz nCk salt)" "[]"]
    by (simp_all add: wal_header_def hdr_fields_def read_at_def wf_hdr)
  have n: "unat (of_nat nCk :: u32) = nCk" using assms(3) by (simp add: unat_of_nat)
  have c: "walChecksumBytes (be = SQLITE_BIGENDIAN) (hdr_fields be sz nCk salt) (0, 0) = hdr_ck be sz nCk salt"
    by (simp add: walChecksumBytes_spec hdr_ck_def)
  have p: "\<not> (of_nat sz AND (of_nat sz - 1) \<noteq> (0::u32) \<or> of_nat sz > SQLITE_MAX_PAGE_SIZE \<or> of_nat sz < (512::u32))"
    by (rule page_size_cases(1) [OF assms(1)])
  show ?thesis
    unfolding load_header_def Let_def g magic_bits using p by (simp add: n c page_size_cases(2) [OF assms(1)])
qed

subsection \<open>The recovered log\<close>

definition recover_env_ok :: "recover_env \<Rightarrow> bool" where
  "recover_env_ok env \<longleftrightarrow> lockAllRc env = 0 \<and> sizeRc env = 0 \<and> readHdrRc env = 0 \<and> mallocRc env = 0
     \<and> (\<forall>f. readFrameRc env f = 0) \<and> (\<forall>i. markLockRc env i = 0 \<or> markLockRc env i = SQLITE_BUSY)"

text \<open>The state that a recovery should leave: the shared index and the connection agree on a log that ends with
  the committed frames \<open>cs\<close>, its checksum is ready for the next frame, nothing counts as back-filled.\<close>

definition recovered :: "bool \<Rightarrow> bytes \<Rightarrow> nat \<Rightarrow> cksum \<Rightarrow> frame list \<Rightarrow> wal_shm \<Rightarrow> Wal \<Rightarrow> bool" where
  "recovered be salt sz ck0 cs m w \<longleftrightarrow>
     shmHdr m = hdr w \<and> mxFrame (hdr w) = length cs \<and> nPage (hdr w) = (if cs = [] then 0 else frame_size (last cs))
     \<and> (cs \<noteq> [] \<longrightarrow> bigEndCksum (hdr w) = be \<and> aSalt (hdr w) = salt \<and> szPageWal w = sz \<and> walPagesize w = sz
          \<and> aFrameCksum (hdr w) = log_ck be ck0 cs)
     \<and> nBackfill (shmInfo m) = 0 \<and> wal_sim (m, w) (map frame_page cs, [])"

lemma recover_marks_rc:
  "\<forall>i. markLockRc env i = 0 \<or> markLockRc env i = SQLITE_BUSY \<Longrightarrow> is' \<noteq> [] \<Longrightarrow> fst (recover_marks env mx is' rc marks) = markLockRc env (last is')"
proof (induction is' arbitrary: rc marks)
  case (Cons i is')
  have i: "markLockRc env i = 0 \<or> markLockRc env i = SQLITE_BUSY" using Cons.prems(1) by blast
  show ?case
  proof (cases "is' = []")
    case True
    then show ?thesis using i by (auto simp: result_codes)
  next
    case False
    then show ?thesis using Cons.IH [OF Cons.prems(1) False] i by (auto simp: result_codes)
  qed
qed simp

lemma wi_rep_sim: "wi_rep m fs \<Longrightarrow> fs = cs @ rest \<Longrightarrow> mxFrame (shmHdr m) = length cs \<Longrightarrow> mxFrame (hdr w) = length cs \<Longrightarrow> wal_sim (m, w) (cs, [])"
  by (auto simp: wal_sim_def)

lemma wi_rep_cong: "wi_rep m fs \<Longrightarrow> shmPage m' = shmPage m \<Longrightarrow> wi_rep m' fs"
  by (simp add: wi_rep_def)

lemma recover_finish_ok:
  assumes marks: "\<forall>i. markLockRc env i = 0 \<or> markLockRc env i = SQLITE_BUSY" and r: "rec_stop be salt sz ck0 vs m w ck"
    and sz: "page_size_ok sz" and ck: "committed vs = [] \<Longrightarrow> ck = (0, 0)"
  shows "\<exists>m' w'. recover_finish env (0, m, w, ck) = (markLockRc env 4, m', w') \<and> recovered be salt sz ck0 (committed vs) m' w'"
proof -
  let ?w = "with_ck w ck"
  obtain rc marks' where k: "recover_marks env (mxFrame (hdr ?w)) [1..<WAL_NREADER] 0 ((aReadMark (shmInfo m))[0 := 0]) = (rc, marks')"
    by (metis surj_pair)
  have "rc = markLockRc env 4"
    using recover_marks_rc [OF marks, of "[1..<WAL_NREADER]" "mxFrame (hdr ?w)" 0 "(aReadMark (shmInfo m))[0 := 0]"] unfolding k
    by (simp add: WAL_NREADER_def)
  moreover define m' where "m' = (walIndexWriteHdr m ?w)\<lparr>shmInfo := \<lparr>nBackfill = 0, aReadMark = marks', nBackfillAttempted = mxFrame (hdr ?w)\<rparr>\<rparr>"
  have "recover_finish env (0, m, w, ck) = (rc, m', ?w)"
    using k by (simp add: recover_finish_def Let_def m'_def walIndexWriteHdr_def)
  moreover have "recovered be salt sz ck0 (committed vs) m' ?w"
  proof -
    note inv = r [unfolded rec_stop_def rec_inv_def]
    have h: "shmHdr m' = hdr ?w" "nBackfill (shmInfo m') = 0" "shmPage m' = shmPage m"
      by (simp_all add: m'_def walIndexWriteHdr_def)
    obtain rest where v: "vs = committed vs @ rest" using committed_prefix by blast
    have s: "wal_sim (m', ?w) (map frame_page (committed vs), [])"
    proof (rule wi_rep_sim)
      show "wi_rep m' (map frame_page vs)" by (rule wi_rep_cong [OF _ h(3)]) (use inv in simp)
      show "map frame_page vs = map frame_page (committed vs) @ map frame_page rest" by (subst v) simp
    qed (use inv h in simp_all)
    have "szPage16 (hdr ?w) = hdr16 sz" if "committed vs \<noteq> []" using inv that by simp
    then have "walPagesize ?w = sz" if "committed vs \<noteq> []"
      using that page_size_cases(4) [OF sz] by (simp add: walPagesize_def)
    then show ?thesis unfolding recovered_def h using inv s by simp
  qed
  ultimately show ?thesis by blast
qed

lemma walIndexRecover_short:
  assumes env: "recover_env_ok env" and len: "length wal \<le> 32"
  shows "\<exists>m' w'. walIndexRecover env map_rc m w wal = (markLockRc env 4, m', w') \<and> recovered be salt sz ck0 [] m' w'"
proof -
  note e = env [unfolded recover_env_ok_def]
  obtain rc marks' where k: "recover_marks env 0 [1..<WAL_NREADER] 0 ((aReadMark (shmInfo m))[0 := 0]) = (rc, marks')"
    by (metis surj_pair)
  have "rc = markLockRc env 4"
    using recover_marks_rc [of env "[1..<WAL_NREADER]" 0 0 "(aReadMark (shmInfo m))[0 := 0]"] e unfolding k by (simp add: WAL_NREADER_def)
  then show ?thesis using k e len
    by (simp add: walIndexRecover_def wf_hdr recover_finish_def Let_def walIndexWriteHdr_def zero_hdr_def recovered_def wal_sim_def)
       (rule exI [of _ "[]"], simp)
qed

lemma walIndexRecover_ok:
  assumes env: "recover_env_ok env" and ok: "\<And>b. map_rc b = 0" and sz: "page_size_ok sz" and salt: "length salt = 8" and n: "nCk < 2 ^ 32"
    and L: "length z div (sz + 24) < 2 ^ 32"
  shows "\<exists>m' w'. walIndexRecover env map_rc m w (wal_header be sz nCk salt @ z) = (markLockRc env 4, m', w')
    \<and> recovered be salt sz (hdr_ck be sz nCk salt) (committed (valid_frames be salt sz (hdr_ck be sz nCk salt) z)) m' w'"
proof -
  let ?h = "wal_header be sz nCk salt" and ?ck = "hdr_ck be sz nCk salt" and ?L = "length z div (sz + 24)"
  note e = env [unfolded recover_env_ok_def]
  have h: "length ?h = 32" using salt by simp
  define w0 where "w0 = w\<lparr>hdr := zero_hdr\<rparr>"
  define w1 where "w1 = w0\<lparr>szPageWal := sz, nCkpt := nCk, hdr := (hdr w0)\<lparr>bigEndCksum := be, aSalt := salt, aFrameCksum := ?ck\<rparr>\<rparr>"
  show ?thesis
  proof (cases "z = []")
    case True
    then show ?thesis using walIndexRecover_short [OF env, of ?h map_rc m w be salt sz ?ck] salt sz by (simp add: valid_frames_short)
  next
    case False
    have len: "32 < length (?h @ z)" using False h by simp
    have t: "take WAL_HDRSIZE (?h @ z) = ?h" using h by (simp add: wf_hdr)
    have i: "(length (?h @ z) - WAL_HDRSIZE) div (szPageWal w1 + WAL_FRAME_HDRSIZE) mod 2 ^ 32 = ?L" using L h by (simp add: wf_hdr w1_def)
    define r where "r = recover_pages env map_rc (?h @ z) ?L [0 ..< Suc (walFramePage ?L)] (aPrivate env) m w1 (0, 0)"
    have "recover_log env map_rc m w0 (?h @ z) = Inr r"
      unfolding recover_log_def t load_header_ok [OF sz salt n] w1_def [symmetric] Let_def prod.case option.case i
      using e by (simp add: r_def del: upt_Suc)
    then have w: "walIndexRecover env map_rc m w (?h @ z) = recover_finish env r"
      using e len by (simp add: walIndexRecover_def w0_def [symmetric] wf_hdr)
    have inv: "rec_inv be salt sz ?ck [] m w1 (0, 0)" by (simp add: rec_inv_def w1_def w0_def zero_hdr_def)
    have "rec_final be salt sz ?ck z [] r"
      unfolding r_def
      by (rule recover_pages_ok [where env = env and map_rc = map_rc and n = "walFramePage ?L", OF _ ok h salt page_size_cases(3) [OF sz] refl inv])
         (use e in \<open>simp_all add: blk_zero_def\<close>)
    then obtain m1 w2 ck where f: "r = (0, m1, w2, ck)" "rec_stop be salt sz ?ck (valid_frames be salt sz ?ck z) m1 w2 ck"
      by (cases r) (auto simp: rec_final_def frames_after_def)
    show ?thesis unfolding w f(1)
      by (rule recover_finish_ok [OF _ f(2) sz]) (use e f(2) in \<open>auto simp: rec_stop_def rec_inv_def\<close>)
  qed
qed

subsection \<open>What is read after recovery\<close>

text \<open>The content of a database with the frames \<open>cs\<close> over it.\<close>

definition page_after :: "frame list \<Rightarrow> bytes \<Rightarrow> nat \<Rightarrow> nat \<Rightarrow> bytes" where
  "page_after cs db sz p = (case find (\<lambda>f. frame_page f = p) (rev cs) of None \<Rightarrow> page_image db sz p | Some f \<Rightarrow> frame_content f)"

lemma last_frame_find:
  assumes "minF \<le> 1"
  shows "case find (\<lambda>f. frame_page f = p) (rev cs) of
      None \<Rightarrow> last_frame (\<lambda>i. map frame_page cs ! (i - 1)) minF p (length cs) = 0
    | Some f \<Rightarrow> \<exists>i<length cs. last_frame (\<lambda>i. map frame_page cs ! (i - 1)) minF p (length cs) = Suc i \<and> cs ! i = f"
proof (induction cs rule: rev_induct)
  case (snoc g cs)
  have e: "last_frame (\<lambda>i. map frame_page (cs @ [g]) ! (i - 1)) minF p (length cs)
      = last_frame (\<lambda>i. map frame_page cs ! (i - 1)) minF p (length cs)"
    by (rule last_frame_cong) (auto simp: nth_append)
  have s: "last_frame (\<lambda>i. map frame_page (cs @ [g]) ! (i - 1)) minF p (length (cs @ [g]))
      = (if frame_page g = p then Suc (length cs) else last_frame (\<lambda>i. map frame_page cs ! (i - 1)) minF p (length cs))"
    using assms e by (simp add: nth_append)
  show ?case
  proof (cases "frame_page g = p")
    case True
    then show ?thesis unfolding s by (auto intro: exI [of _ "length cs"])
  next
    case False
    then show ?thesis unfolding s using snoc by (auto split: option.splits simp: nth_append)
  qed
qed simp

lemma valid_frames_nth:
  "i < length (valid_frames be salt sz ck z) \<Longrightarrow> \<exists>ck'. frame_at be salt sz ck' (drop (i * (sz + 24)) z) = Some (valid_frames be salt sz ck z ! i)"
proof (induction be salt sz ck z arbitrary: i rule: valid_frames.induct)
  case (1 be salt sz ck z)
  show ?case
  proof (cases "frame_at be salt sz ck z")
    case None
    then show ?thesis using 1(2) by (simp add: valid_frames_None)
  next
    case (Some f)
    note v = valid_frames_Some [OF Some]
    show ?thesis
    proof (cases i)
      case 0
      then show ?thesis using Some v by (intro exI [of _ ck]) simp
    next
      case (Suc j)
      then have "j < length (valid_frames be salt sz (frame_ck be ck f) (drop (sz + 24) z))" using 1(2) v by simp
      from 1(1) [OF Some this] show ?thesis unfolding v Suc by (simp add: add.commute)
    qed
  qed
qed

lemma frame_data_valid:
  assumes "length h = 32" "i < length (valid_frames be salt sz ck z)"
  shows "frame_data (h @ z) sz (Suc i) = frame_content (valid_frames be salt sz ck z ! i)"
proof -
  obtain ck' where "frame_at be salt sz ck' (drop (i * (sz + 24)) z) = Some (valid_frames be salt sz ck z ! i)"
    using valid_frames_nth [OF assms(2)] by blast
  then have "frame_content (valid_frames be salt sz ck z ! i) = read_at (drop (i * (sz + 24)) z) sz 24"
    unfolding frame_at_def Let_def by (metis option.distinct(1) option.inject snd_conv)
  then show ?thesis using assms(1)
    by (simp add: frame_data_def walFrameOffset_simp wf_hdr read_at_def add.assoc)
qed

lemma recovered_read:
  assumes r: "recovered be salt sz ck0 cs m w" and ok: "\<And>b. map_rc b = 0"
    and data: "\<And>i. i < length cs \<Longrightarrow> frame_data wal sz (Suc i) = frame_content (cs ! i)"
    and c: "hdr c = hdr w" "0 < readLock c" "minFrame c \<le> 1"
  shows "readDbPage map_rc m c wal db sz p = Inr (page_after cs db sz p)"
proof -
  note rr = r [unfolded recovered_def]
  let ?l = "last_frame (\<lambda>i. map frame_page cs ! (i - 1)) (minFrame c) p (length cs)"
  have "walFindFrame map_rc m c p = Inr (last_frame (\<lambda>f. (map frame_page cs @ []) ! (f - 1)) (minFrame c) p (mxFrame (hdr c)))"
    by (rule wal_sim_find [of m w]) (use rr ok c in auto)
  then have f: "walFindFrame map_rc m c p = Inr ?l" using rr c(1) by simp
  show ?thesis
  proof (cases "find (\<lambda>f. frame_page f = p) (rev cs)")
    case None
    then show ?thesis using last_frame_find [OF c(3), where p = p and cs = cs] f by (simp add: readDbPage_def page_after_def)
  next
    case (Some g)
    then obtain i where i: "i < length cs" "?l = Suc i" "cs ! i = g" using last_frame_find [OF c(3), where p = p and cs = cs] by auto
    then have "cs \<noteq> []" by auto
    then have "walPagesize c = sz" using rr c(1) by (simp add: walPagesize_def)
    then show ?thesis using Some f i data [OF i(1)]
      by (simp add: readDbPage_def page_after_def sqlite3WalReadFrame_def Let_def flip: frame_data_def)
  qed
qed

text \<open>The statement of recovery: the call succeeds (up to the code of the last lock on a read mark, which
  only says that a reader holds it), and leaves a log of exactly the frames \<open>cs\<close>, read by every connection
  that opens it.\<close>

definition recovers :: "recover_env \<Rightarrow> (nat \<Rightarrow> nat) \<Rightarrow> wal_shm \<Rightarrow> Wal \<Rightarrow> bytes \<Rightarrow> bool \<Rightarrow> bytes \<Rightarrow> nat \<Rightarrow> cksum \<Rightarrow> frame list \<Rightarrow> bool" where
  "recovers env map_rc m w wal be salt sz ck0 cs \<longleftrightarrow> (\<exists>m' w'. walIndexRecover env map_rc m w wal = (markLockRc env 4, m', w')
     \<and> recovered be salt sz ck0 cs m' w'
     \<and> (\<forall>c db p. hdr c = hdr w' \<longrightarrow> 0 < readLock c \<longrightarrow> minFrame c \<le> 1 \<longrightarrow> readDbPage map_rc m' c wal db sz p = Inr (page_after cs db sz p)))"

lemma recovers_valid:
  assumes "recover_env_ok env" "\<And>b. map_rc b = 0" "page_size_ok sz" "length salt = 8" "nCk < 2 ^ 32" "length z div (sz + 24) < 2 ^ 32"
  shows "recovers env map_rc m w (wal_header be sz nCk salt @ z) be salt sz (hdr_ck be sz nCk salt)
    (committed (valid_frames be salt sz (hdr_ck be sz nCk salt) z))"
proof -
  let ?vs = "valid_frames be salt sz (hdr_ck be sz nCk salt) z"
  obtain m' w' where r: "walIndexRecover env map_rc m w (wal_header be sz nCk salt @ z) = (markLockRc env 4, m', w')"
    "recovered be salt sz (hdr_ck be sz nCk salt) (committed ?vs) m' w'"
    using walIndexRecover_ok [where map_rc = map_rc, OF assms] by blast
  have "frame_data (wal_header be sz nCk salt @ z) sz (Suc i) = frame_content (committed ?vs ! i)" if "i < length (committed ?vs)" for i
    using frame_data_valid [of "wal_header be sz nCk salt" i be salt sz "hdr_ck be sz nCk salt" z] committed_nth [OF that] that length_committed [of ?vs] assms(4)
    by simp
  from recovered_read [where map_rc = map_rc, OF r(2) assms(2) this] show ?thesis unfolding recovers_def using r by blast
qed

lemma recovers_short:
  assumes "recover_env_ok env" "length wal \<le> 32" "\<And>b. map_rc b = 0"
  shows "recovers env map_rc m w wal be salt sz ck0 []"
proof -
  obtain m' w' where r: "walIndexRecover env map_rc m w wal = (markLockRc env 4, m', w')" "recovered be salt sz ck0 [] m' w'"
    using walIndexRecover_short [OF assms(1,2)] by blast
  then show ?thesis unfolding recovers_def using recovered_read [where map_rc = map_rc, OF r(2) assms(3)] by fastforce
qed

lemma log_cut:
  assumes "length salt = 8"
  shows "take k (wal_header be sz nCk salt @ z) = wal_header be sz nCk salt @ take (k - 32) z \<or> (k \<le> 32 \<and> length (take k (wal_header be sz nCk salt @ z)) \<le> 32)"
  using assms by (cases "k \<le> 32") auto

lemma recovers_cut:
  assumes env: "recover_env_ok env" and ok: "\<And>b. map_rc b = 0" and sz: "page_size_ok sz" and salt: "length salt = 8" and n: "nCk < 2 ^ 32"
    and fs: "\<forall>f\<in>set fs. frame_ok sz f" and L: "length fs < 2 ^ 32"
  shows "recovers env map_rc m w (take k (wal_header be sz nCk salt @ log_frames be salt (hdr_ck be sz nCk salt) fs)) be salt sz
    (hdr_ck be sz nCk salt) (committed (take ((k - 32) div (sz + 24)) fs))"
proof (cases "k \<le> 32")
  case True
  then show ?thesis using recovers_short [where map_rc = map_rc, OF env _ ok] by simp
next
  case False
  let ?z = "take (k - 32) (log_frames be salt (hdr_ck be sz nCk salt) fs)"
  have "length ?z \<le> length fs * (sz + 24)" using length_log_frames [OF salt fs] by simp
  then have "length ?z div (sz + 24) \<le> length fs" by (metis add_gr_0 div_le_mono nonzero_mult_div_cancel_right not_gr0 zero_less_numeral)
  then have "length ?z div (sz + 24) < 2 ^ 32" using L by simp
  from recovers_valid [where map_rc = map_rc and be = be and z = ?z, OF env ok sz salt n this] show ?thesis
    using valid_frames_cut [OF salt fs] False salt by simp
qed

subsection \<open>The properties of recovery\<close>

text \<open>C6: Recovery reads a log file correctly whatever it contains behind its header: garbage, torn frames or
  frames of an older log. It accepts the frames that a plain reading of the file accepts, up to the first that
  is not valid, and ends the log at the last commit among them; all connections that open the recovered log
  read the frames of exactly this part over the database file, and the next writer continues its checksum.\<close>

theorem Recover_reads_log:
  assumes "recover_env_ok env" "\<forall>b. map_rc b = 0" "page_size_ok sz" "length salt = 8" "nCk < 2 ^ 32" "length z div (sz + 24) < 2 ^ 32"
  shows "recovers env map_rc m w (wal_header be sz nCk salt @ z) be salt sz (hdr_ck be sz nCk salt)
    (committed (valid_frames be salt sz (hdr_ck be sz nCk salt) z))"
  by (rule recovers_valid) (use assms in blast)+

definition demo_env :: recover_env where
  "demo_env = \<lparr>lockAllRc = 0, sizeRc = 0, readHdrRc = 0, mallocRc = 0,
     aPrivate = \<lparr>pgWord = (\<lambda>k. k * k), pgSlot = (\<lambda>k. 5)\<rparr>, readFrameRc = (\<lambda>_. 0), markLockRc = (\<lambda>i. if i = 2 then SQLITE_BUSY else 0)\<rparr>"

lemma demo_env_ok: "recover_env_ok demo_env"
  by (simp add: recover_env_ok_def demo_env_def)

definition demo_salt :: bytes where "demo_salt = [1, 2, 3, 4, 5, 6, 7, 8]"

definition demo_frames :: "frame list" where
  "demo_frames = [(5, 0, replicate 512 7), (6, 6, replicate 512 8), (5, 0, replicate 512 9)]"

lemma demo_frames_ok: "\<forall>f\<in>set demo_frames. frame_ok 512 f"
  by (simp add: demo_frames_def frame_ok_def)

lemma demo_salt_length: "length demo_salt = 8"
  by (simp add: demo_salt_def)

theorem Recover_reads_log_witness:
  "recovers demo_env (\<lambda>_. 0) demo_shm (demo_conn 0) (wal_header True 512 1 demo_salt @ [1, 2, 3]) True demo_salt 512 (hdr_ck True 512 1 demo_salt) []"
  using Recover_reads_log [OF demo_env_ok, of "\<lambda>_. 0" 512 demo_salt 1 "[1, 2, 3]" demo_shm "demo_conn 0" True]
  by (simp add: page_size_ok_def demo_salt_length valid_frames_short)

text \<open>C3: Transactions are atomic and durable: when a crash cuts the log off at any byte, even within its header,
  recovery restores exactly the transactions whose frames are complete in what is left: every page reads as
  the last of these transactions left it, nothing of an incomplete transaction is seen, and no committed
  one before it is lost.\<close>

theorem Crash_keeps_commits:
  assumes "recover_env_ok env" "\<forall>b. map_rc b = 0" "page_size_ok sz" "length salt = 8" "nCk < 2 ^ 32"
    and "\<forall>f\<in>set fs. frame_ok sz f" "length fs < 2 ^ 32"
  shows "recovers env map_rc m w (take k (wal_header be sz nCk salt @ log_frames be salt (hdr_ck be sz nCk salt) fs)) be salt sz
    (hdr_ck be sz nCk salt) (committed (take ((k - 32) div (sz + 24)) fs))"
  by (rule recovers_cut) (use assms in blast)+

theorem Crash_keeps_commits_witness:
  "\<exists>m' w'. walIndexRecover demo_env (\<lambda>_. 0) demo_shm (demo_conn 0)
      (take 1600 (wal_header False 512 1 demo_salt @ log_frames False demo_salt (hdr_ck False 512 1 demo_salt) demo_frames)) = (0, m', w')
    \<and> mxFrame (hdr w') = 2 \<and> nPage (hdr w') = 6"
proof -
  have p: "page_size_ok 512" by (simp add: page_size_ok_def)
  have c: "committed (take ((1600 - 32) div (512 + 24)) demo_frames) = take 2 demo_frames"
    by (simp add: demo_frames_def committed_def)
  have "recovers demo_env (\<lambda>_. 0) demo_shm (demo_conn 0)
      (take 1600 (wal_header False 512 1 demo_salt @ log_frames False demo_salt (hdr_ck False 512 1 demo_salt) demo_frames))
      False demo_salt 512 (hdr_ck False 512 1 demo_salt) (take 2 demo_frames)"
    using Crash_keeps_commits [OF demo_env_ok _ p demo_salt_length _ demo_frames_ok, of "\<lambda>_. 0" 1 demo_shm "demo_conn 0" 1600 False]
    unfolding c by (simp add: demo_frames_def)
  then show ?thesis by (auto simp: recovers_def recovered_def demo_env_def demo_frames_def)
qed

end
