(* ===== verification/Spec2Isabelle.thy ===== *)
theory Spec2Isabelle
  imports Sqlite_Prelude Key_Set Varint Ctype Identifiers Int_Arith Num_Text Literals Utf Utf_Translate Bitvec RowSet File_Interface MemJournal MemDB Wasi_VFS Like Token_Codes Keywords Tokenizer Complete Wal_Index Wal_Iterator Wal_Checkpoint Wal_Frame Wal_Recover
begin

text \<open>
  Verification development for the SQLite engine bundled with rusqlite.

  \<^bold>\<open>The program.\<close> rusqlite is a Rust wrapper around SQLite. Its C code is the amalgamation
  src/libsqlite3-sys/sqlite3/sqlite3.c (SQLite 3.53) and the virtual file system
  src/libsqlite3-sys/sqlite3/wasm32-wasi-vfs.c that the wrapper links in for WASI targets; the
  directory src/libsqlite3-sys/sqlcipher holds another copy of the same amalgamation. An SQL text
  goes through the tokenizer, the generated parser and the code generator to the virtual machine,
  which works on tables and indexes kept by the b-tree, which in turn reads and writes pages through
  the pager, the page cache and a journal, and these use a virtual file system. The development
  models the parts around this chain that are self-contained, in the configuration of build.rs
  (thread-safe, API_ARMOR, SQLITE_ASCII, a 64-bit platform).

  \<^bold>\<open>How the code is translated.\<close> A function of the source is a function of the same name; a piece of a
  long function (a loop, a branch of a switch) is a definition of its own, named after it. Machine
  integers are words of their width where they wrap (\<open>u8\<close>, \<open>u32\<close>, \<open>u64\<close>) and numbers where the code
  keeps them in range. A block of memory is a list of bytes; \<open>byte_at\<close> reads the byte behind the
  block as the terminator 0. Structures are records, results are pairs of the result code and the new
  state, and memory allocation and system calls, which are not part of the source, are arguments
  (\<open>realloc\<close> and \<open>posix\<close>) or boolean outcomes of the operations that use them.

  \<^bold>\<open>The theories.\<close>
  \<^item> Sqlite_Prelude: the C integer types, blocks of bytes, and shared lemmas on words and bits.
  \<^item> Key_Set and File_Interface: the interfaces. \<open>key_set\<close> is a set of keys with insertion and
    membership (\<open>total_key_set\<close>: where insertion cannot fail); page vectors and rowid sets are its
    instances. \<open>byte_file\<close> is a file that is read and written at offsets, with short reads filled
    with zeros; in-memory journals, in-memory databases and WASI files are its instances.
  \<^item> Varint (util.c): the variable-length integers of the file format. The unrolled decoder equals a
    plain reference decoder, and decoding inverts encoding.
  \<^item> Ctype (global.c), Identifiers (util.c): character classes, case-insensitive comparison and hash,
    removal of quotes.
  \<^item> Int_Arith (util.c): overflow-checked arithmetic, and the logarithmic estimates of the planner.
  \<^item> Num_Text and Literals (util.c): reading and printing integers, hexadecimal and blob literals.
  \<^item> Utf and Utf_Translate (utf.c, vdbemem.c): UTF-8 and UTF-16 in both byte orders, translation of a
    string value in place, byte order marks and character counts.
  \<^item> Bitvec (bitvec.c): the set of page numbers in its three representations; RowSet (rowset.c): the
    set of rowids as list, forest of trees and sorted output.
  \<^item> MemJournal (memjournal.c): a journal in chunks of memory that spills into a file.
  \<^item> MemDB (memdb.c): in-memory databases: the shared store with its lock counters, the transitions of
    handles and stores as the step relation \<open>memdb_step\<close>, the table of shared stores, serialization.
  \<^item> Wasi_VFS (wasm32-wasi-vfs.c): files with a write buffer over a POSIX interface, and the file
    system operations.
  \<^item> Like (func.c): the LIKE and GLOB matcher and SQL function.
  \<^item> Token_Codes (parse.h), Keywords (keywordhash.h), Tokenizer (tokenize.c): the tokenizer, its packed
    keyword table, and the driver loop of the parser; Complete (complete.c): the statement automaton.

  \<^item> Wal_Index (wal.c): the index of the write-ahead log. A record \<open>Wal\<close> holds the pages of the shared
    index (\<open>apWiData\<close>: words, with the frames of the page in the first half and the hash table in the
    second), the header of the connection and the checkpoint information. walHash to walFramePgno,
    walCleanupHash, walIndexAppend, walFindFrame, the part of walFrames that enters frames into the
    index, sqlite3WalUndo, the savepoints and walRestartHdr are definitions of these names; the events
    of one writer at a time are the transitions of \<open>wal_reach\<close>. \<open>wi_rep\<close> says which sequence of pages
    the index stands for, \<open>table_ok\<close> is the invariant of one hash table, and \<open>wal_sim\<close> relates the
    index to the sequence of committed and pending frames.
  \<^item> Wal_Iterator (wal.c): the log in the order of its pages: walMerge, walMergesort, walIteratorInit
    and walIteratorNext. \<open>seg_ok\<close> is the invariant of a sorted segment, \<open>covers\<close> says that an
    iterator yields the last frame of every page.
  \<^item> Wal_Checkpoint (wal.c, and the content part of readDbPage of pager.c): walCheckpoint with all
    modes and failures, walBusyLock, sqlite3WalReadFrame and the choice of a read mark in
    walTryBeginRead. \<open>backfilled\<close> relates the database file to the log, \<open>reader_at\<close> says that a
    reader is protected by its read mark.

  \<^bold>\<open>What is shown.\<close> For the data structures, that every operation refines an operation on the value
  it represents (a set, a sequence of bytes, a list of batches) in every representation and on every
  error path, with the invariants that make this inductive; for the encoders and parsers, round trips
  and the exact meaning of every result code; for the optimised routines (the unrolled varint decoder,
  the LIKE matcher with its early exits, the packed keyword hash, the transition table of complete.c)
  that they equal a plain reference; for the locks of in-memory databases, mutual exclusion and the
  lifetime of stores in every reachable state; for the tokenizer, that it splits every text
  completely without reading beyond it, that quoted text is one token whatever it contains, and that
  the driver of the parser returns whatever the parser does. For the write-ahead log, that a search
  finds the last frame of a page at or before the snapshot in every reachable state, that neither
  writers nor checkpoints, with whatever fails on the way, change what a protected reader reads, and
  that a checkpoint moves the content of the log into the database file.

  \<^bold>\<open>Bounds and fuel.\<close> Loops are recursive functions with a termination proof, except the two loops over
  tokens, which are partial functions with a theorem that they return, and the subdivision of a page
  vector, whose recursion is bounded by fuel 9: each subdivision divides the number of pages by 62
  until a bitmap of 3968 bits suffices, so that 32-bit page numbers need at most four levels, of two
  calls each. Sizes of in-memory files are natural numbers; the code
  computes them in 64 bits, which is the same while twice the size limit stays below \<open>2 ^ 63\<close>. The
  frame numbers of a log stay below \<open>2 ^ 32 - 4096\<close> and page numbers below 0xFFFFFFFF, which the
  iterator uses as its end; a page of the index holds at most 4096 frames, so that 13 sub-lists
  suffice for the merge sort and at least half of each hash table is free. The
  hash chains of the keyword table have at most 9 entries, which the termination proof of the probe
  computes from the tables.

  \<^bold>\<open>What the code relies on.\<close> \<open>realloc\<close> may fail and otherwise keeps the old bytes; the POSIX calls may
  fail, and when they succeed they behave as specified for regular files. These are the hypotheses
  \<open>realloc_ok\<close> and \<open>posix_ok\<close>; both have concrete instances in the witnesses. The generated LALR(1)
  parser is an argument of the driver loop and is not restricted at all. The mapping of a page of the
  shared index (\<open>map_rc\<close>), the outcomes of locks and busy handlers and of the reads, writes and
  synchronizations of the two files (the record \<open>ckpt_env\<close>), and what other connections do while
  walTryBeginRead waits for its lock (\<open>meanwhile\<close>), are arguments; only the liveness of checkpoints
  assumes that all of them succeed.

  \<^bold>\<open>Not modelled.\<close> Of the write-ahead log, the recovery of the index from a log with its checksums
  (walIndexRecover), the layout of frames in the file (walEncodeFrame, the writing part of walFrames),
  the locking protocol, the two copies of the header and the options for snapshots and time-outs. The
  pager apart from the content of a page, the b-tree, the virtual machine, the code generator
  and the query planner are far larger than what is modelled here and share mutable state throughout;
  the full-text, r-tree and JSON extensions stand beside the core. The generated parser tables, the
  memory allocators, mutexes and the operating system layers are glue to the platform. Floating point
  (printf, date and time, real literals) has no faithful counterpart in the library that the
  development may use. The Rust sources are bindings.
\<close>

end
